(* ===== verification/Go_Prelude.thy ===== *)
theory Go_Prelude
  imports
    Main
    "HOL-Library.Word"
    "HOL-Library.Signed_Division"
    "HOL-Library.List_Lexorder"
    "HOL-Library.Monad_Syntax"
begin

text \<open>
  What every component theory shares: Go's machine integers and byte slices, panics as the
  value \<open>None\<close> of the option monad, weighted sums over validator indices (the arithmetic of
  voting power and of quorums), and the interface of a transition system with an invariant.

  Conventions of the whole development.
  \<^item> \<open>uint\<close>, \<open>uint64\<close> and \<open>byte\<close> are words; \<open>int\<close> and \<open>int64\<close> are HOL integers
    whose arithmetic is wrapped with \<open>wrap64\<close> wherever the source may overflow.
    The conversions \<open>int(x)\<close> and \<open>uint(i)\<close> are \<open>to_int\<close> and \<open>to_uint\<close>.
  \<^item> A slice of bytes is a list; \<open>nil\<close> and the empty slice are both \<open>[]\<close>.
    A nil pointer is \<open>None\<close>.
  \<^item> A call that panics is \<open>None\<close>; an \<open>error\<close> result is an ordinary value.
\<close>

named_theorems go_defs \<open>definitions of the Go level operations\<close>
named_theorems wsum_simps \<open>rewriting of weighted sums\<close>

section \<open>Machine integers\<close>

type_synonym byte = "8 word"
type_synonym bytes = "byte list"
type_synonym u64 = "64 word"

abbreviation MaxInt64 :: int where "MaxInt64 \<equiv> 9223372036854775807"
abbreviation MinInt64 :: int where "MinInt64 \<equiv> - 9223372036854775808"

definition int64 :: "int \<Rightarrow> bool" where
  "int64 x \<longleftrightarrow> MinInt64 \<le> x \<and> x \<le> MaxInt64"

definition wrap64 :: "int \<Rightarrow> int" where
  "wrap64 x = (x + 9223372036854775808) mod 18446744073709551616 - 9223372036854775808"

definition to_int :: "u64 \<Rightarrow> int" where
  "to_int x = wrap64 (uint x)"

definition to_uint :: "int \<Rightarrow> u64" where
  "to_uint x = word_of_int x"

lemma wrap64_int64 [simp, intro]: "int64 (wrap64 x)"
  by (simp add: wrap64_def int64_def)

lemma wrap64_id [simp]: "int64 x \<Longrightarrow> wrap64 x = x"
  by (simp add: wrap64_def int64_def)

lemma int64_0 [simp]: "int64 0" and int64_1 [simp]: "int64 1" and int64_m1 [simp]: "int64 (- 1)"
  by (simp_all add: int64_def)

lemma wrap64_0 [simp]: "wrap64 0 = 0" and wrap64_1 [simp]: "wrap64 1 = 1"
  by (simp_all add: wrap64_def)

lemma wrap64_cong: "\<exists>k. x = wrap64 x + k * 18446744073709551616"
proof
  let ?y = "x + 9223372036854775808"
  have "?y div 18446744073709551616 * 18446744073709551616 + ?y mod 18446744073709551616 = ?y"
    by (rule div_mult_mod_eq)
  then show "x = wrap64 x + (?y div 18446744073709551616) * 18446744073709551616"
    unfolding wrap64_def by linarith
qed

lemma wrap64_sint: "wrap64 x = sint (word_of_int x :: u64)"
proof -
  have "sint (word_of_int x :: u64) = signed_take_bit 63 x"
    by (simp add: sint_sbintrunc')
  also have "\<dots> = (x + 2 ^ 63) mod 2 ^ 64 - 2 ^ 63"
    by (simp add: signed_take_bit_eq_take_bit_shift take_bit_eq_mod)
  finally show ?thesis by (simp add: wrap64_def)
qed

lemma to_int_sint: "to_int x = sint x"
  by (simp add: to_int_def wrap64_sint)

lemma int64_to_int [simp, intro]: "int64 (to_int x)"
  by (simp add: to_int_def)

lemma to_int_small: "uint x \<le> MaxInt64 \<Longrightarrow> to_int x = uint x"
  unfolding to_int_def by (rule wrap64_id) (auto simp: int64_def intro: order_trans [OF _ uint_ge_0])

lemma to_int_unat: "unat x < 2 ^ 63 \<Longrightarrow> to_int x = int (unat x)"
proof -
  assume "unat x < 2 ^ 63"
  then have "nat (uint x) < nat 9223372036854775808" by simp
  then have "uint x < 9223372036854775808" by (simp only: nat_less_eq_zless uint_ge_0)
  then show ?thesis by (simp add: to_int_small)
qed

lemma to_uint_to_int [simp]: "to_uint (to_int x) = x"
  by (simp add: to_int_sint to_uint_def)

lemma to_int_to_uint [simp]: "int64 x \<Longrightarrow> to_int (to_uint x) = x"
  by (metis to_int_sint to_uint_def wrap64_id wrap64_sint)

lemma to_int_inject [simp]: "to_int x = to_int y \<longleftrightarrow> x = y"
  by (metis to_uint_to_int)

lemma to_int_0 [simp]: "to_int 0 = 0"
  by (simp add: to_int_def)

section \<open>Byte slices\<close>

text \<open>\<open>copy(dst, src)\<close> overwrites the common prefix and returns the destination.\<close>

definition go_copy :: "'a list \<Rightarrow> 'a list \<Rightarrow> 'a list" where
  "go_copy dst src = take (length dst) src @ drop (length src) dst"

lemma length_go_copy [simp]: "length (go_copy dst src) = length dst"
  by (simp add: go_copy_def)

lemma nth_go_copy: "i < length dst \<Longrightarrow> go_copy dst src ! i = (if i < length src then src ! i else dst ! i)"
  by (auto simp: go_copy_def nth_append min_def)

lemma go_copy_same_length: "length src = length dst \<Longrightarrow> go_copy dst src = src"
  by (simp add: go_copy_def)

text \<open>Reading a slice out of range panics.\<close>

definition go_nth :: "'a list \<Rightarrow> nat \<Rightarrow> 'a option" where
  "go_nth xs i = (if i < length xs then Some (xs ! i) else None)"

lemma go_nth_eq_Some [simp]: "go_nth xs i = Some x \<longleftrightarrow> i < length xs \<and> xs ! i = x"
  by (auto simp: go_nth_def)

lemma go_nth_in: "i < length xs \<Longrightarrow> go_nth xs i = Some (xs ! i)"
  by (simp add: go_nth_def)

lemma go_nth_eq_None [simp]: "go_nth xs i = None \<longleftrightarrow> length xs \<le> i"
  by (simp add: go_nth_def)

section \<open>Panics\<close>

definition go_assert :: "bool \<Rightarrow> unit option" where
  "go_assert b = (if b then Some () else None)"

lemma go_assert_eq_Some [simp]: "go_assert b = Some u \<longleftrightarrow> b"
  by (simp add: go_assert_def)

lemma go_assert_bind [simp]:
  "Option.bind (go_assert True) f = f ()" "Option.bind (go_assert False) f = None"
  by (simp_all add: go_assert_def)

lemma bind_eq_SomeE:
  assumes "Option.bind m f = Some y"
  obtains x where "m = Some x" and "f x = Some y"
  using assms by (auto simp: Option.bind_eq_Some_conv)

text \<open>The result type \<open>error\<close>: nil or an error.\<close>

datatype 'e go_error = NoError | Err 'e

section \<open>Loops\<close>

text \<open>\<open>for _, x := range xs { ... }\<close> over a state: a panic of the body ends the loop.\<close>

fun go_for :: "('i \<Rightarrow> 's \<Rightarrow> 's option) \<Rightarrow> 'i list \<Rightarrow> 's \<Rightarrow> 's option" where
  "go_for f [] s = Some s"
| "go_for f (x # xs) s = Option.bind (f x s) (go_for f xs)"

lemma go_for_append: "go_for f (xs @ ys) s = Option.bind (go_for f xs s) (go_for f ys)"
  by (induction xs arbitrary: s) (auto simp: Option.bind_assoc intro: Option.bind_cong)

text \<open>An invariant indexed by the prefix already done: the loop ends without a panic.\<close>

lemma go_for_upt:
  assumes "a \<le> b" and "I a s"
    and "\<And>i t. a \<le> i \<Longrightarrow> i < b \<Longrightarrow> I i t \<Longrightarrow> \<exists>t'. f i t = Some t' \<and> I (Suc i) t'"
  shows "\<exists>t. go_for f [a..<b] s = Some t \<and> I b t"
  using assms
proof (induction b)
  case 0
  then show ?case by simp
next
  case (Suc b)
  show ?case
  proof (cases "a \<le> b")
    case True
    have "\<exists>t. go_for f [a..<b] s = Some t \<and> I b t"
      by (rule Suc.IH [OF True Suc.prems(2)]) (use Suc.prems(3) in auto)
    then obtain t where "go_for f [a..<b] s = Some t" and "I b t" by blast
    with Suc.prems(3) [of b t] True show ?thesis by (auto simp: go_for_append)
  next
    case False
    with Suc.prems show ?thesis by (auto simp: le_Suc_eq)
  qed
qed

lemma go_for_invar:
  assumes "go_for f xs s = Some t" and "I s"
    and "\<And>x u v. x \<in> set xs \<Longrightarrow> I u \<Longrightarrow> f x u = Some v \<Longrightarrow> I v"
  shows "I t"
  using assms by (induction xs arbitrary: s) (auto elim!: bind_eq_SomeE)

subsection \<open>Partial correctness\<close>

text \<open>
  \<open>post m Q\<close>: if \<open>m\<close> does not panic, its result satisfies \<open>Q\<close>. The rules of the collection
  follow the structure of a program, so that \<open>intro post_intros\<close> reduces a claim about a handler to
  claims about the calls it makes.
\<close>

definition post :: "'a option \<Rightarrow> ('a \<Rightarrow> bool) \<Rightarrow> bool" where
  "post m Q = (case m of None \<Rightarrow> True | Some x \<Rightarrow> Q x)"

named_theorems post_intros \<open>decomposition of partial correctness\<close>

lemma post_simps [simp]: "post None Q" "post (Some x) Q = Q x"
  by (simp_all add: post_def)

lemma post_iff: "post m Q \<longleftrightarrow> (\<forall>x. m = Some x \<longrightarrow> Q x)"
  by (cases m) auto

lemma postI: "(\<And>x. m = Some x \<Longrightarrow> Q x) \<Longrightarrow> post m Q"
  by (simp add: post_iff)

lemma postD: "post m Q \<Longrightarrow> m = Some x \<Longrightarrow> Q x"
  by simp

lemma post_Some [post_intros]: "Q x \<Longrightarrow> post (Some x) Q"
  by simp

lemma post_bind [post_intros]: "post m (\<lambda>x. post (f x) Q) \<Longrightarrow> post (Option.bind m f) Q"
  by (cases m) auto

lemma post_if [post_intros]:
  "(b \<Longrightarrow> post m Q) \<Longrightarrow> (\<not> b \<Longrightarrow> post n Q) \<Longrightarrow> post (if b then m else n) Q"
  by simp

lemma post_assert [post_intros]: "(b \<Longrightarrow> Q ()) \<Longrightarrow> post (go_assert b) Q"
  by (simp add: go_assert_def)

lemma post_case_option [post_intros]:
  "(x = None \<Longrightarrow> post m Q) \<Longrightarrow> (\<And>y. x = Some y \<Longrightarrow> post (f y) Q) \<Longrightarrow> post (case x of None \<Rightarrow> m | Some y \<Rightarrow> f y) Q"
  by (cases x) auto

lemma post_case_prod [post_intros]:
  "(\<And>a b. x = (a, b) \<Longrightarrow> post (f a b) Q) \<Longrightarrow> post (case x of (a, b) \<Rightarrow> f a b) Q"
  by (cases x) auto

lemma post_Let [post_intros]: "(\<And>y. y = x \<Longrightarrow> post (f y) Q) \<Longrightarrow> post (let y = x in f y) Q"
  by simp

lemma post_weaken: "post m P \<Longrightarrow> (\<And>x. m = Some x \<Longrightarrow> P x \<Longrightarrow> Q x) \<Longrightarrow> post m Q"
  by (cases m) auto

lemma post_call:
  "post m P \<Longrightarrow> (\<And>x. m = Some x \<Longrightarrow> P x \<Longrightarrow> post (f x) Q) \<Longrightarrow> post (Option.bind m f) Q"
  by (cases m) auto

lemma post_call2:
  "post m (\<lambda>(a, b). P a b) \<Longrightarrow> (\<And>a b. m = Some (a, b) \<Longrightarrow> P a b \<Longrightarrow> post (f a b) Q) \<Longrightarrow> post (Option.bind m (\<lambda>(a, b). f a b)) Q"
  by (cases m) auto

lemma post_get: "(\<And>x. m = Some x \<Longrightarrow> post (f x) Q) \<Longrightarrow> post (Option.bind m f) Q"
  by (cases m) auto

lemma post_check: "(b \<Longrightarrow> post (f ()) Q) \<Longrightarrow> post (Option.bind (go_assert b) f) Q"
  by (simp add: go_assert_def)

lemma post_map_option: "post m (\<lambda>x. Q (f x)) \<Longrightarrow> post (map_option f m) Q"
  by (cases m) auto

lemma post_go_for:
  "I s \<Longrightarrow> (\<And>x t. x \<in> set xs \<Longrightarrow> I t \<Longrightarrow> post (f x t) I) \<Longrightarrow> post (go_for f xs s) I"
  by (rule postI) (erule go_for_invar, auto simp: post_iff)

section \<open>Weighted sums over an index range\<close>

definition wsum :: "nat \<Rightarrow> (nat \<Rightarrow> bool) \<Rightarrow> (nat \<Rightarrow> int) \<Rightarrow> int" where
  "wsum n P w = (\<Sum>i<n. if P i then w i else 0)"

lemma wsum_cong: "(\<And>i. i < n \<Longrightarrow> P i = Q i) \<Longrightarrow> (\<And>i. i < n \<Longrightarrow> Q i \<Longrightarrow> w i = w' i) \<Longrightarrow> wsum n P w = wsum n Q w'"
  unfolding wsum_def by (rule sum.cong) auto

lemma wsum_False [simp, wsum_simps]: "wsum n (\<lambda>_. False) w = 0"
  by (simp add: wsum_def)

lemma wsum_none: "(\<And>i. i < n \<Longrightarrow> \<not> P i) \<Longrightarrow> wsum n P w = 0"
  unfolding wsum_def by (rule sum.neutral) simp

lemma wsum_nonneg: "(\<And>i. i < n \<Longrightarrow> 0 \<le> w i) \<Longrightarrow> 0 \<le> wsum n P w"
  unfolding wsum_def by (rule sum_nonneg) simp

lemma wsum_mono: "(\<And>i. i < n \<Longrightarrow> 0 \<le> w i) \<Longrightarrow> (\<And>i. i < n \<Longrightarrow> P i \<Longrightarrow> Q i) \<Longrightarrow> wsum n P w \<le> wsum n Q w"
  unfolding wsum_def by (rule sum_mono) auto

lemma wsum_insert:
  assumes "k < n" and "\<not> P k"
  shows "wsum n (\<lambda>i. i = k \<or> P i) w = wsum n P w + w k"
proof -
  have "wsum n (\<lambda>i. i = k \<or> P i) w = w k + (\<Sum>i\<in>{..<n} - {k}. if i = k \<or> P i then w i else 0)"
    unfolding wsum_def using assms(1) by (subst sum.remove [of "{..<n}" k]) auto
  also have "(\<Sum>i\<in>{..<n} - {k}. if i = k \<or> P i then w i else 0) = (\<Sum>i\<in>{..<n} - {k}. if P i then w i else 0)"
    by (rule sum.cong) auto
  also have "\<dots> = wsum n P w"
    unfolding wsum_def using assms by (simp add: sum.remove [of "{..<n}" k])
  finally show ?thesis by simp
qed

lemma wsum_disj_conj:
  "wsum n P w + wsum n Q w = wsum n (\<lambda>i. P i \<or> Q i) w + wsum n (\<lambda>i. P i \<and> Q i) w"
  unfolding wsum_def sum.distrib [symmetric] by (rule sum.cong) auto

text \<open>
  The interface of a weighted voter set: the number of voters, their weights and the total.
  Two sets of voters that each weigh more than two thirds of the total meet outside every
  set that weighs at most a third of it.
\<close>

locale weighted_voters =
  fixes n :: nat and w :: "nat \<Rightarrow> int"
  assumes w_nonneg: "i < n \<Longrightarrow> 0 \<le> w i"
begin

definition total :: int where
  "total = wsum n (\<lambda>_. True) w"

lemma total_nonneg: "0 \<le> total"
  unfolding total_def by (rule wsum_nonneg) (rule w_nonneg)

lemma wsum_le_total: "wsum n P w \<le> total"
  unfolding total_def by (rule wsum_mono) (auto simp: w_nonneg)

lemma quorum_overlap:
  assumes "3 * wsum n P w > 2 * total" and "3 * wsum n Q w > 2 * total"
  shows "3 * wsum n (\<lambda>i. P i \<and> Q i) w > total"
proof -
  have "wsum n (\<lambda>i. P i \<or> Q i) w \<le> total"
    by (rule wsum_le_total)
  with wsum_disj_conj [of n P w Q] assms show ?thesis by linarith
qed

lemma quorum_meets_honest:
  assumes "3 * wsum n P w > 2 * total" and "3 * wsum n Q w > 2 * total"
    and "3 * wsum n F w \<le> total"
  obtains i where "i < n" and "P i" and "Q i" and "\<not> F i"
proof -
  have "\<exists>i<n. P i \<and> Q i \<and> \<not> F i"
  proof (rule ccontr)
    assume "\<not> (\<exists>i<n. P i \<and> Q i \<and> \<not> F i)"
    then have "wsum n (\<lambda>i. P i \<and> Q i) w \<le> wsum n F w"
      by (intro wsum_mono) (auto simp: w_nonneg)
    with quorum_overlap [OF assms(1,2)] assms(3) show False by linarith
  qed
  with that show ?thesis by blast
qed

end

section \<open>Transition systems\<close>

text \<open>
  A component whose operations are steps of a relation, with a property that every step
  keeps: the property holds in every state reached from one that has it.
\<close>

locale invariant_system =
  fixes step :: "'s \<Rightarrow> 's \<Rightarrow> bool" and invar :: "'s \<Rightarrow> bool"
  assumes invar_step: "invar s \<Longrightarrow> step s t \<Longrightarrow> invar t"
begin

lemma invar_reach: "step\<^sup>*\<^sup>* s t \<Longrightarrow> invar s \<Longrightarrow> invar t"
  by (induction rule: rtranclp_induct) (auto intro: invar_step)

end

end
