(* ===== verification/Bit_Array.thy ===== *)
theory Bit_Array
  imports Go_Prelude
begin

unbundle bit_operations_syntax

text \<open>
  The bit array of \<^verbatim>\<open>consensus/tbft/help/bit_array.go\<close>: which votes and which block parts are
  known. A \<open>*BitArray\<close> is a \<open>BitArray option\<close>; a mutating method returns the changed array.
  The methods that print an array for people (\<open>String\<close>, \<open>StringIndented\<close>) are left out.
  \<open>random.Intn(n)\<close> of the standard library is \<open>r mod n\<close> for an arbitrary draw \<open>r\<close>.
\<close>

record BitArray =
  Bits :: u64
  Elems :: "u64 list"

section \<open>The operations\<close>

definition NewBitArray :: "u64 \<Rightarrow> BitArray option" where
  "NewBitArray bits =
     (if bits \<le> 0 then None
      else Some \<lparr>Bits = bits, Elems = replicate (unat ((bits + 63) div 64)) 0\<rparr>)"

definition BitArray_Size :: "BitArray option \<Rightarrow> u64" where
  "BitArray_Size bA = (case bA of None \<Rightarrow> 0 | Some b \<Rightarrow> Bits b)"

definition BitArray_getIndex :: "BitArray \<Rightarrow> u64 \<Rightarrow> bool option" where
  "BitArray_getIndex bA i =
     (if Bits bA \<le> i then Some False
      else do {
        e \<leftarrow> go_nth (Elems bA) (unat (i div 64));
        Some (0 < e AND push_bit (unat (i mod 64)) 1)
      })"

definition BitArray_GetIndex :: "BitArray option \<Rightarrow> u64 \<Rightarrow> bool option" where
  "BitArray_GetIndex bA i =
     (case bA of None \<Rightarrow> Some False | Some b \<Rightarrow> BitArray_getIndex b i)"

definition BitArray_setIndex :: "BitArray \<Rightarrow> u64 \<Rightarrow> bool \<Rightarrow> (bool \<times> BitArray) option" where
  "BitArray_setIndex bA i v =
     (if Bits bA \<le> i then Some (False, bA)
      else do {
        e \<leftarrow> go_nth (Elems bA) (unat (i div 64));
        let e' = (if v then e OR push_bit (unat (i mod 64)) 1
                  else e AND NOT (push_bit (unat (i mod 64)) 1));
        Some (True, bA\<lparr>Elems := (Elems bA)[unat (i div 64) := e']\<rparr>)
      })"

definition BitArray_SetIndex :: "BitArray option \<Rightarrow> u64 \<Rightarrow> bool \<Rightarrow> (bool \<times> BitArray option) option" where
  "BitArray_SetIndex bA i v =
     (case bA of
        None \<Rightarrow> Some (False, None)
      | Some b \<Rightarrow> do { (r, b') \<leftarrow> BitArray_setIndex b i v; Some (r, Some b') })"

definition BitArray_copy :: "BitArray \<Rightarrow> BitArray" where
  "BitArray_copy bA =
     \<lparr>Bits = Bits bA, Elems = go_copy (replicate (length (Elems bA)) 0) (Elems bA)\<rparr>"

definition BitArray_Copy :: "BitArray option \<Rightarrow> BitArray option" where
  "BitArray_Copy bA = (case bA of None \<Rightarrow> None | Some b \<Rightarrow> Some (BitArray_copy b))"

definition BitArray_copyBits :: "BitArray \<Rightarrow> u64 \<Rightarrow> BitArray" where
  "BitArray_copyBits bA bits =
     \<lparr>Bits = bits, Elems = go_copy (replicate (unat ((bits + 63) div 64)) 0) (Elems bA)\<rparr>"

definition MaxUint :: "u64 \<Rightarrow> u64 \<Rightarrow> u64" where
  "MaxUint a b = (if a > b then a else b)"

definition MinUint :: "u64 \<Rightarrow> u64 \<Rightarrow> u64" where
  "MinUint a b = (if a < b then a else b)"

text \<open>\<open>for i := 0; i < len(c.Elems); i++ { c.Elems[i] = f(c.Elems[i], o.Elems[i]) }\<close>\<close>

fun word_loop :: "(u64 \<Rightarrow> u64 \<Rightarrow> u64) \<Rightarrow> u64 list \<Rightarrow> u64 list \<Rightarrow> u64 list option" where
  "word_loop f [] os = Some []"
| "word_loop f (c # cs) [] = None"
| "word_loop f (c # cs) (d # ds) = map_option ((#) (f c d)) (word_loop f cs ds)"

definition BitArray_Or :: "BitArray option \<Rightarrow> BitArray option \<Rightarrow> BitArray option option" where
  "BitArray_Or bA oth =
     (case (bA, oth) of
        (None, None) \<Rightarrow> Some None
      | (None, Some _) \<Rightarrow> Some (BitArray_Copy oth)
      | (Some _, None) \<Rightarrow> Some (BitArray_Copy bA)
      | (Some a, Some b) \<Rightarrow> do {
          let c = BitArray_copyBits a (MaxUint (Bits a) (Bits b));
          es \<leftarrow> word_loop (\<lambda>x y. x OR y) (Elems c) (Elems b);
          Some (Some (c\<lparr>Elems := es\<rparr>))
        })"

definition BitArray_and :: "BitArray \<Rightarrow> BitArray \<Rightarrow> BitArray option" where
  "BitArray_and a b = do {
     let c = BitArray_copyBits a (MinUint (Bits a) (Bits b));
     es \<leftarrow> word_loop (\<lambda>x y. x AND y) (Elems c) (Elems b);
     Some (c\<lparr>Elems := es\<rparr>)
   }"

definition BitArray_And :: "BitArray option \<Rightarrow> BitArray option \<Rightarrow> BitArray option option" where
  "BitArray_And bA oth =
     (case (bA, oth) of
        (Some a, Some b) \<Rightarrow> map_option Some (BitArray_and a b)
      | _ \<Rightarrow> Some None)"

definition BitArray_not :: "BitArray \<Rightarrow> BitArray" where
  "BitArray_not bA =
     (let c = BitArray_copy bA in c\<lparr>Elems := map (\<lambda>e. NOT e) (Elems c)\<rparr>)"

definition BitArray_Not :: "BitArray option \<Rightarrow> BitArray option" where
  "BitArray_Not bA = map_option BitArray_not bA"

definition sub_word :: "nat \<Rightarrow> BitArray \<Rightarrow> BitArray option" where
  "sub_word i c = do {
     e \<leftarrow> go_nth (Elems c) i;
     Some (c\<lparr>Elems := (Elems c)[i := e AND NOT e]\<rparr>)
   }"

definition sub_bit :: "BitArray \<Rightarrow> nat \<Rightarrow> BitArray \<Rightarrow> BitArray option" where
  "sub_bit b idx c = do {
     x \<leftarrow> BitArray_getIndex c (of_nat idx);
     y \<leftarrow> BitArray_getIndex b (of_nat idx);
     (_, c') \<leftarrow> BitArray_setIndex c (of_nat idx) (x \<and> \<not> y);
     Some c'
   }"

definition BitArray_Sub :: "BitArray option \<Rightarrow> BitArray option \<Rightarrow> BitArray option option" where
  "BitArray_Sub bA oth =
     (case (bA, oth) of
        (Some a, Some b) \<Rightarrow>
          (if Bits a > Bits b then do {
             c \<leftarrow> go_for sub_word [0..<length (Elems b) - 1] (BitArray_copy a);
             (if Elems b = [] then Some (Some c)
              else map_option Some
                (go_for (sub_bit b) [(length (Elems b) - 1) * 64..<nat (to_int (Bits b))] c))
           }
           else map_option Some (BitArray_and a (BitArray_not b)))
      | _ \<Rightarrow> Some None)"

definition BitArray_IsEmpty :: "BitArray option \<Rightarrow> bool" where
  "BitArray_IsEmpty bA =
     (case bA of None \<Rightarrow> True | Some b \<Rightarrow> list_all (\<lambda>e. \<not> 0 < e) (Elems b))"

definition BitArray_IsFull :: "BitArray option \<Rightarrow> bool option" where
  "BitArray_IsFull bA =
     (case bA of
        None \<Rightarrow> Some True
      | Some b \<Rightarrow>
          (if Elems b = [] then None
           else if \<not> list_all (\<lambda>e. NOT e = 0) (butlast (Elems b)) then Some False
           else
             let lastElemBits = (Bits b + 63) mod 64 + 1; lastElem = last (Elems b)
             in Some ((lastElem + 1) AND (push_bit (unat lastElemBits) 1 - 1) = 0)))"

text \<open>The inner loop of \<open>PickRandom\<close>: the first set bit from a random start, in \<open>nb\<close> bits.\<close>

definition scan_bits :: "u64 \<Rightarrow> nat \<Rightarrow> nat \<Rightarrow> nat option" where
  "scan_bits e start nb =
     List.find (\<lambda>b. 0 < e AND push_bit b 1) (map (\<lambda>j. (j + start) mod nb) [0..<nb])"

fun pick_loop :: "BitArray \<Rightarrow> nat \<Rightarrow> (nat \<Rightarrow> nat) \<Rightarrow> nat list \<Rightarrow> (u64 \<times> bool) option" where
  "pick_loop bA start draw [] = Some (0, False)"
| "pick_loop bA start draw (i # is) =
     (let len = length (Elems bA);
          elemIdx = (i + start) mod len;
          e = Elems bA ! elemIdx
      in if elemIdx < len - 1 then
           (if 0 < e then
              (case scan_bits e (draw i mod 64) 64 of
                 Some b \<Rightarrow> Some (of_nat (64 * elemIdx + b), True)
               | None \<Rightarrow> None)
            else pick_loop bA start draw is)
         else
           let elemBits = (if Bits bA mod 64 = 0 then 64 else unat (Bits bA mod 64))
           in case scan_bits e (draw i mod elemBits) elemBits of
                Some b \<Rightarrow> Some (of_nat (64 * elemIdx + b), True)
              | None \<Rightarrow> pick_loop bA start draw is)"

definition BitArray_PickRandom :: "BitArray option \<Rightarrow> nat \<Rightarrow> (nat \<Rightarrow> nat) \<Rightarrow> (u64 \<times> bool) option" where
  "BitArray_PickRandom bA r draw =
     (case bA of
        None \<Rightarrow> Some (0, False)
      | Some b \<Rightarrow>
          (let len = length (Elems b)
           in if len = 0 then Some (0, False)
              else pick_loop b (r mod len) draw [0..<len]))"

text \<open>\<open>binary.LittleEndian.PutUint64\<close>\<close>

definition le_bytes :: "u64 \<Rightarrow> bytes" where
  "le_bytes e = map (\<lambda>k. ucast (drop_bit (8 * k) e)) [0..<8]"

definition put_word :: "u64 list \<Rightarrow> nat \<Rightarrow> bytes \<Rightarrow> bytes option" where
  "put_word es i bz =
     (if length bz < i * 8 then None
      else Some (take (i * 8) bz @ go_copy (drop (i * 8) bz) (le_bytes (es ! i))))"

definition BitArray_Bytes :: "BitArray \<Rightarrow> bytes option" where
  "BitArray_Bytes bA =
     go_for (put_word (Elems bA)) [0..<length (Elems bA)] (replicate (unat ((Bits bA + 7) div 8)) 0)"

definition BitArray_Update :: "BitArray option \<Rightarrow> BitArray option \<Rightarrow> BitArray option" where
  "BitArray_Update bA oth =
     (case (bA, oth) of
        (Some a, Some b) \<Rightarrow> Some (a\<lparr>Elems := go_copy (Elems a) (Elems b)\<rparr>)
      | _ \<Rightarrow> bA)"

definition json_bit :: "BitArray \<Rightarrow> nat \<Rightarrow> string \<Rightarrow> string option" where
  "json_bit bA i acc = do {
     x \<leftarrow> BitArray_getIndex bA (of_nat i);
     Some (acc @ (if x then ''x'' else ''_''))
   }"

definition BitArray_MarshalJSON :: "BitArray option \<Rightarrow> string option" where
  "BitArray_MarshalJSON bA =
     (case bA of
        None \<Rightarrow> Some ''null''
      | Some b \<Rightarrow> do {
          bits \<leftarrow> go_for (json_bit b) [0..<nat (to_int (Bits b))] [CHR 0x22];
          Some (bits @ [CHR 0x22])
        })"

text \<open>\<open>bitArrayJSONRegexp\<close>: the text between the quotes of a string of \<open>_\<close> and \<open>x\<close>.\<close>

definition json_match :: "string \<Rightarrow> string option" where
  "json_match b =
     (if 2 \<le> length b \<and> hd b = CHR 0x22 \<and> last b = CHR 0x22
         \<and> list_all (\<lambda>c. c = CHR ''_'' \<or> c = CHR ''x'') (butlast (tl b))
      then Some (butlast (tl b)) else None)"

definition unmarshal_bit :: "string \<Rightarrow> nat \<Rightarrow> BitArray option \<Rightarrow> BitArray option option" where
  "unmarshal_bit bits i bA2 =
     (if bits ! i = CHR ''x'' then
        do { (_, b) \<leftarrow> BitArray_SetIndex bA2 (of_nat i) True; Some b }
      else Some bA2)"

datatype json_error = BadBitArrayFormat

definition BitArray_UnmarshalJSON :: "string \<Rightarrow> (json_error + BitArray) option" where
  "BitArray_UnmarshalJSON b =
     (if b = ''null'' then Some (Inr \<lparr>Bits = 0, Elems = []\<rparr>)
      else case json_match b of
        None \<Rightarrow> Some (Inl BadBitArrayFormat)
      | Some bits \<Rightarrow> do {
          bA2 \<leftarrow> go_for (unmarshal_bit bits) [0..<length bits] (NewBitArray (of_nat (length bits)));
          b2 \<leftarrow> bA2;
          Some (Inr b2)
        })"

section \<open>Representation\<close>

text \<open>
  A well-formed array has one word for each started group of 64 bits, and its size fits Go's
  \<open>int\<close>. \<open>ba_bit\<close> is the abstract content: the bits below the size. The bits of the last word
  beyond the size (stragglers) are not part of it; \<open>ba_tidy\<close> says they are zero.
\<close>

definition ba_wf :: "BitArray \<Rightarrow> bool" where
  "ba_wf b \<longleftrightarrow> 0 < unat (Bits b) \<and> unat (Bits b) < 2 ^ 63 \<and> length (Elems b) = (unat (Bits b) + 63) div 64"

definition ba_bit :: "BitArray \<Rightarrow> nat \<Rightarrow> bool" where
  "ba_bit b i \<longleftrightarrow> i < unat (Bits b) \<and> bit (Elems b ! (i div 64)) (i mod 64)"

definition ba_tidy :: "BitArray \<Rightarrow> bool" where
  "ba_tidy b \<longleftrightarrow> (\<forall>j < 64. unat (Bits b) \<le> 64 * (length (Elems b) - 1) + j \<longrightarrow> \<not> bit (last (Elems b)) j)"

lemma test_bit_iff: "0 < e AND push_bit b (1 :: u64) \<longleftrightarrow> bit e b"
  by (simp add: word_gt_0 bit_iff_and_push_bit_not_eq_0)

lemma test_bit_power_iff: "0 < e AND (2 :: u64) ^ b \<longleftrightarrow> bit e b"
  using test_bit_iff [of e b] by simp

lemma unat_words: "unat bits < 2 ^ 63 \<Longrightarrow> unat ((bits + 63) div 64 :: u64) = (unat bits + 63) div 64"
  by (simp add: unat_div unat_word_ariths)

lemma unat_of_nat64: "i < 2 ^ 63 \<Longrightarrow> unat (of_nat i :: u64) = i"
  by (simp add: unat_of_nat)

lemma word_count: "i < n \<Longrightarrow> i div 64 < (n + 63) div (64 :: nat)"
  by simp

lemma word_index: "ba_wf b \<Longrightarrow> i < unat (Bits b) \<Longrightarrow> i div 64 < length (Elems b)"
  unfolding ba_wf_def by simp

lemma word_index_u64: "ba_wf b \<Longrightarrow> i < Bits b \<Longrightarrow> unat (i div 64) < length (Elems b)"
  by (simp add: unat_div word_index word_less_nat_alt)

lemma Elems_nonempty: "ba_wf b \<Longrightarrow> Elems b \<noteq> []"
  unfolding ba_wf_def by auto

lemma NewBitArray_wf:
  assumes "0 < unat n" and "unat n < 2 ^ 63"
  obtains b where "NewBitArray n = Some b" and "ba_wf b" and "Bits b = n" and "\<And>i. \<not> ba_bit b i" and "ba_tidy b"
proof
  let ?b = "\<lparr>Bits = n, Elems = replicate (unat ((n + 63) div 64)) 0\<rparr>"
  show "NewBitArray n = Some ?b"
    using assms by (auto simp: NewBitArray_def word_le_nat_alt)
  show "ba_wf ?b" using assms by (simp add: ba_wf_def unat_words)
  have "i < unat n \<Longrightarrow> i div 64 < (unat n + 63) div 64" for i by simp
  then show "\<not> ba_bit ?b i" for i using assms by (simp add: ba_bit_def unat_words)
  have "0 < (unat n + 63) div 64" using assms(1) by simp
  then show "ba_tidy ?b" using assms by (simp add: ba_tidy_def unat_words)
qed simp

lemma NewBitArray_eq_None [simp]: "NewBitArray n = None \<longleftrightarrow> n = 0"
  by (simp add: NewBitArray_def)

section \<open>Reading and writing one bit\<close>

lemma getIndex_bit: "ba_wf b \<Longrightarrow> BitArray_getIndex b i = Some (ba_bit b (unat i))"
  by (auto simp: BitArray_getIndex_def ba_bit_def go_nth_in word_index_u64 test_bit_power_iff
      unat_div unat_mod word_le_nat_alt not_le word_index)

lemma setIndex_total:
  assumes "ba_wf b"
  obtains b' where "BitArray_setIndex b i v = Some (unat i < unat (Bits b), b')"
    and "ba_wf b'" and "Bits b' = Bits b"
    and "\<And>k. ba_bit b' k = (if k = unat i \<and> k < unat (Bits b) then v else ba_bit b k)"
    and "ba_tidy b \<Longrightarrow> ba_tidy b'"
proof (cases "unat i < unat (Bits b)")
  case False
  show ?thesis
  proof (rule that)
    show "BitArray_setIndex b i v = Some (unat i < unat (Bits b), b)"
      using False by (simp add: BitArray_setIndex_def word_le_nat_alt)
    show "ba_bit b k = (if k = unat i \<and> k < unat (Bits b) then v else ba_bit b k)" for k
      using False by auto
  qed (use assms in auto)
next
  case True
  let ?w = "unat i div 64" and ?k = "unat i mod 64"
  let ?e = "Elems b ! ?w"
  let ?e' = "if v then ?e OR push_bit ?k 1 else ?e AND NOT (push_bit ?k 1)"
  let ?b' = "b\<lparr>Elems := (Elems b)[?w := ?e']\<rparr>"
  have w: "?w < length (Elems b)"
    using assms True by (rule word_index)
  have bit_e': "bit ?e' j = (if j = ?k then v else bit ?e j)" if "j < 64" for j
    using that by (auto simp: bit_simps)
  show ?thesis
  proof (rule that)
    show "BitArray_setIndex b i v = Some (unat i < unat (Bits b), ?b')"
      using True w by (simp add: BitArray_setIndex_def word_le_nat_alt go_nth_in unat_div unat_mod Let_def)
    show "ba_wf ?b'" using assms by (simp add: ba_wf_def)
    show "ba_bit ?b' k = (if k = unat i \<and> k < unat (Bits b) then v else ba_bit b k)" for k
    proof (cases "k div 64 = ?w")
      case True
      then have "k = unat i \<longleftrightarrow> k mod 64 = ?k"
        by (metis div_mult_mod_eq)
      with True w bit_e' [of "k mod 64"] show ?thesis by (simp add: ba_bit_def)
    next
      case False
      with w show ?thesis by (auto simp: ba_bit_def)
    qed
    assume tidy: "ba_tidy b"
    show "ba_tidy ?b'"
      unfolding ba_tidy_def
    proof (intro allI impI)
      fix j :: nat
      assume j: "j < 64" "unat (Bits ?b') \<le> 64 * (length (Elems ?b') - 1) + j"
      have l: "last ((Elems b)[?w := ?e']) = (if ?w = length (Elems b) - 1 then ?e' else last (Elems b))"
        by (rule last_list_update) (use w in auto)
      have "j \<noteq> ?k" if "?w = length (Elems b) - 1"
        using j True that div_mult_mod_eq [of "unat i" 64] by auto
      moreover have "\<not> bit (last (Elems b)) j"
        using tidy j by (simp add: ba_tidy_def)
      moreover have "?e = last (Elems b)" if "?w = length (Elems b) - 1"
        using that w by (metis last_conv_nth list.size(3) not_less_zero)
      ultimately show "\<not> bit (last (Elems ?b')) j"
        using l bit_e' [OF j(1)] by (auto split: if_splits)
    qed
  qed simp
qed

section \<open>The interface the clients use\<close>

text \<open>
  A vote set and a part set keep a bit array beside a list of optional entries. What they need
  of it is this contract; the lemmas of the locale say that creating both empty and setting
  the bit of each stored entry keeps the two in step.
\<close>

locale presence_tracker =
  fixes new :: "u64 \<Rightarrow> 'b"
    and get :: "'b \<Rightarrow> u64 \<Rightarrow> bool option"
    and set_bit_at :: "'b \<Rightarrow> u64 \<Rightarrow> bool \<Rightarrow> (bool \<times> 'b) option"
    and size_of :: "'b \<Rightarrow> u64"
    and wf :: "'b \<Rightarrow> bool"
    and content :: "'b \<Rightarrow> nat \<Rightarrow> bool"
  assumes new_wf: "unat n < 2 ^ 63 \<Longrightarrow> wf (new n)"
    and new_size: "size_of (new n) = n"
    and new_content: "unat n < 2 ^ 63 \<Longrightarrow> \<not> content (new n) j"
    and get_content: "wf b \<Longrightarrow> get b i = Some (content b (unat i))"
    and set_content: "wf b \<Longrightarrow> \<exists>b'. set_bit_at b i v = Some (unat i < unat (size_of b), b') \<and> wf b' \<and>
      size_of b' = size_of b \<and>
      (\<forall>k. content b' k = (if k = unat i \<and> k < unat (size_of b) then v else content b k))"
begin

definition tracks :: "'b \<Rightarrow> 'a option list \<Rightarrow> bool" where
  "tracks b xs \<longleftrightarrow> wf b \<and> unat (size_of b) = length xs \<and>
     (\<forall>i. content b i \<longleftrightarrow> i < length xs \<and> xs ! i \<noteq> None)"

lemma tracks_new: "unat n < 2 ^ 63 \<Longrightarrow> tracks (new n) (replicate (unat n) None)"
  by (simp add: tracks_def new_wf new_size new_content)

lemma tracks_get: "tracks b xs \<Longrightarrow> get b i = Some (unat i < length xs \<and> xs ! unat i \<noteq> None)"
  by (simp add: tracks_def get_content)

lemma tracks_set:
  assumes "tracks b xs" and "unat i < length xs"
  obtains b' where "set_bit_at b i True = Some (True, b')" and "tracks b' (xs[unat i := Some x])"
proof -
  have wf: "wf b" and size: "unat (size_of b) = length xs"
    and content: "\<And>i. content b i \<longleftrightarrow> i < length xs \<and> xs ! i \<noteq> None"
    using assms(1) by (auto simp: tracks_def)
  from set_content [OF wf, of i True] obtain b' where
    b': "set_bit_at b i True = Some (unat i < unat (size_of b), b')" "wf b'" "size_of b' = size_of b"
      "\<And>k. content b' k = (if k = unat i \<and> k < unat (size_of b) then True else content b k)"
    by blast
  show ?thesis
  proof (rule that)
    show "set_bit_at b i True = Some (True, b')" using b'(1) size assms(2) by simp
    show "tracks b' (xs[unat i := Some x])"
      using b'(2-4) size content assms(2) by (auto simp: tracks_def nth_list_update)
  qed
qed

lemma tracks_length: "tracks b xs \<Longrightarrow> unat (size_of b) = length xs"
  by (simp add: tracks_def)

lemma tracks_same_presence:
  assumes "tracks b xs" and "length ys = length xs"
    and "\<And>i. i < length xs \<Longrightarrow> (ys ! i = None) = (xs ! i = None)"
  shows "tracks b ys"
  using assms by (simp add: tracks_def) (metis not_None_eq)

end

definition bap_wf :: "BitArray option \<Rightarrow> bool" where
  "bap_wf p = (case p of None \<Rightarrow> True | Some b \<Rightarrow> ba_wf b)"

definition bap_bit :: "BitArray option \<Rightarrow> nat \<Rightarrow> bool" where
  "bap_bit p i = (case p of None \<Rightarrow> False | Some b \<Rightarrow> ba_bit b i)"

lemma bap_NewBitArray: "unat n < 2 ^ 63 \<Longrightarrow> bap_wf (NewBitArray n) \<and> \<not> bap_bit (NewBitArray n) i"
proof (cases "n = 0")
  case True
  then show ?thesis by (simp add: NewBitArray_def bap_wf_def bap_bit_def)
next
  case False
  assume n: "unat n < 2 ^ 63"
  from False have "0 < unat n" by (simp add: unat_gt_0)
  then obtain b where "NewBitArray n = Some b" "ba_wf b" "\<And>i. \<not> ba_bit b i"
    using n by (rule NewBitArray_wf) blast
  then show ?thesis by (simp add: bap_wf_def bap_bit_def)
qed

lemma SetIndex_content:
  assumes "bap_wf p"
  shows "\<exists>p'. BitArray_SetIndex p i v = Some (unat i < unat (BitArray_Size p), p') \<and> bap_wf p' \<and>
    BitArray_Size p' = BitArray_Size p \<and>
    (\<forall>k. bap_bit p' k = (if k = unat i \<and> k < unat (BitArray_Size p) then v else bap_bit p k))"
proof (cases p)
  case None
  then show ?thesis by (simp add: BitArray_SetIndex_def BitArray_Size_def bap_wf_def bap_bit_def)
next
  case (Some b)
  with assms have "ba_wf b" by (simp add: bap_wf_def)
  then obtain b' where "BitArray_setIndex b i v = Some (unat i < unat (Bits b), b')" "ba_wf b'" "Bits b' = Bits b"
    "\<And>k. ba_bit b' k = (if k = unat i \<and> k < unat (Bits b) then v else ba_bit b k)"
    by (rule setIndex_total) blast
  with Some show ?thesis
    by (intro exI [of _ "Some b'"]) (simp add: BitArray_SetIndex_def BitArray_Size_def bap_wf_def bap_bit_def)
qed

interpretation ba: presence_tracker NewBitArray BitArray_GetIndex BitArray_SetIndex BitArray_Size bap_wf bap_bit
proof
  show "BitArray_Size (NewBitArray n) = n" for n
    by (simp add: BitArray_Size_def NewBitArray_def)
  show "bap_wf b \<Longrightarrow> BitArray_GetIndex b i = Some (bap_bit b (unat i))" for b i
    by (auto simp: BitArray_GetIndex_def bap_wf_def bap_bit_def getIndex_bit split: option.splits)
qed (use bap_NewBitArray SetIndex_content in auto)

lemma BitArray_copy_id [simp]: "BitArray_copy b = b"
  by (simp add: BitArray_copy_def go_copy_def)

lemma BitArray_Copy_id [simp]: "BitArray_Copy p = p"
  by (cases p) (simp_all add: BitArray_Copy_def)

section \<open>Word-wise operations\<close>

lemma word_loop_eq: "word_loop f cs ds = (if length cs \<le> length ds then Some (map2 f cs ds) else None)"
  by (induction f cs ds rule: word_loop.induct) auto

lemma Elems_copyBits_nth:
  assumes "unat bits < 2 ^ 63" and "i < unat bits"
  shows "Elems (BitArray_copyBits a bits) ! (i div 64) = (if i div 64 < length (Elems a) then Elems a ! (i div 64) else 0)"
proof -
  have "i div 64 < unat ((bits + 63) div 64)"
    using assms by (simp add: unat_words)
  then show ?thesis by (simp add: BitArray_copyBits_def nth_go_copy)
qed

lemma length_Elems_copyBits:
  "unat bits < 2 ^ 63 \<Longrightarrow> length (Elems (BitArray_copyBits a bits)) = (unat bits + 63) div 64"
  by (simp add: BitArray_copyBits_def unat_words)

lemma unat_MaxUint: "unat (MaxUint a b) = max (unat a) (unat b)"
  by (auto simp: MaxUint_def max_def word_less_nat_alt)

lemma unat_MinUint: "unat (MinUint a b) = min (unat a) (unat b)"
  by (auto simp: MinUint_def min_def word_less_nat_alt)

lemma and_content:
  assumes a: "ba_wf a" and b: "ba_wf b"
  obtains c where "BitArray_and a b = Some c" and "ba_wf c"
    and "unat (Bits c) = min (unat (Bits a)) (unat (Bits b))"
    and "\<And>i. ba_bit c i \<longleftrightarrow> ba_bit a i \<and> ba_bit b i"
proof -
  let ?m = "MinUint (Bits a) (Bits b)" and ?n = "min (unat (Bits a)) (unat (Bits b))"
  let ?c = "BitArray_copyBits a ?m"
  have n: "0 < ?n" "?n < 2 ^ 63" "unat ?m = ?n"
    using a b by (auto simp: ba_wf_def unat_MinUint)
  have lb: "length (Elems ?c) \<le> length (Elems b)"
    using a b n by (simp add: length_Elems_copyBits ba_wf_def div_le_mono)
  let ?d = "?c\<lparr>Elems := map2 (AND) (Elems ?c) (Elems b)\<rparr>"
  show ?thesis
  proof (rule that)
    show "BitArray_and a b = Some ?d"
      using lb by (simp add: BitArray_and_def word_loop_eq Let_def)
    show "unat (Bits ?d) = ?n" using n by (simp add: BitArray_copyBits_def)
    then show "ba_wf ?d" using n lb by (simp add: ba_wf_def length_Elems_copyBits)
    show "ba_bit ?d i \<longleftrightarrow> ba_bit a i \<and> ba_bit b i" for i
    proof (cases "i < ?n")
      case True
      then have "i div 64 < length (Elems ?c)"
        using n by (simp only: length_Elems_copyBits word_count)
      moreover have "i div 64 < length (Elems a)"
        using a True by (simp add: word_index)
      ultimately show ?thesis
        using True n lb Elems_copyBits_nth [of ?m i a]
        by (auto simp: ba_bit_def BitArray_copyBits_def bit_simps)
    next
      case False
      then show ?thesis using n by (auto simp: ba_bit_def BitArray_copyBits_def)
    qed
  qed
qed

lemma not_content:
  assumes "ba_wf b"
  shows "ba_wf (BitArray_not b)" and "Bits (BitArray_not b) = Bits b"
    and "ba_bit (BitArray_not b) i \<longleftrightarrow> i < unat (Bits b) \<and> \<not> ba_bit b i"
  using assms word_index [OF assms, of i]
  by (auto simp: BitArray_not_def ba_wf_def ba_bit_def bit_simps)

lemma Or_None_iff:
  assumes a: "ba_wf a" and b: "ba_wf b"
  shows "BitArray_Or (Some a) (Some b) = None \<longleftrightarrow> length (Elems b) < length (Elems a)"
proof -
  have "unat (MaxUint (Bits a) (Bits b)) < 2 ^ 63"
    using a b by (simp add: unat_MaxUint ba_wf_def)
  then show ?thesis
    using a b by (simp add: BitArray_Or_def Let_def word_loop_eq length_Elems_copyBits unat_MaxUint ba_wf_def max_def)
       (auto dest: div_le_mono [of _ _ 64])
qed

lemma tidy_bit:
  assumes "ba_wf b" and "ba_tidy b" and "i div 64 < length (Elems b)" and "unat (Bits b) \<le> i"
  shows "\<not> bit (Elems b ! (i div 64)) (i mod 64)"
proof -
  have "i div 64 = length (Elems b) - 1"
    using assms by (auto simp: ba_wf_def)
  moreover from this have "last (Elems b) = Elems b ! (i div 64)"
    using Elems_nonempty [OF assms(1)] by (simp add: last_conv_nth)
  moreover have "unat (Bits b) \<le> 64 * (length (Elems b) - 1) + i mod 64"
    using assms(4) calculation(1) by (metis mult_div_mod_eq)
  ultimately show ?thesis using assms(2) by (simp add: ba_tidy_def)
qed

lemma tidy_word_bit:
  assumes "ba_wf b" and "ba_tidy b"
  shows "i div 64 < length (Elems b) \<and> bit (Elems b ! (i div 64)) (i mod 64) \<longleftrightarrow> ba_bit b i"
proof (cases "i < unat (Bits b)")
  case True
  then show ?thesis using word_index [OF assms(1) True] by (simp add: ba_bit_def)
next
  case False
  then show ?thesis using tidy_bit [OF assms, of i] by (auto simp: ba_bit_def)
qed

lemma or_content:
  assumes a: "ba_wf a" "ba_tidy a" and b: "ba_wf b" "ba_tidy b" and l: "length (Elems a) \<le> length (Elems b)"
  obtains c where "BitArray_Or (Some a) (Some b) = Some (Some c)" and "ba_wf c"
    and "unat (Bits c) = max (unat (Bits a)) (unat (Bits b))"
    and "\<And>i. ba_bit c i \<longleftrightarrow> ba_bit a i \<or> ba_bit b i"
proof -
  let ?m = "MaxUint (Bits a) (Bits b)" and ?n = "max (unat (Bits a)) (unat (Bits b))"
  let ?c = "BitArray_copyBits a ?m"
  have n: "0 < ?n" "?n < 2 ^ 63" "unat ?m = ?n"
    using a b by (auto simp: ba_wf_def unat_MaxUint)
  have lc': "length (Elems ?c) = (?n + 63) div 64"
    using n by (simp only: length_Elems_copyBits)
  have lc: "length (Elems ?c) = length (Elems b)"
    using a b n l by (simp add: length_Elems_copyBits ba_wf_def max_def) (auto dest: div_le_mono [of _ _ 64])
  let ?d = "?c\<lparr>Elems := map2 (OR) (Elems ?c) (Elems b)\<rparr>"
  show ?thesis
  proof (rule that)
    show "BitArray_Or (Some a) (Some b) = Some (Some ?d)"
      using lc by (simp add: BitArray_Or_def word_loop_eq Let_def)
    show "unat (Bits ?d) = ?n" using n by (simp add: BitArray_copyBits_def)
    then show "ba_wf ?d" using n lc lc' by (simp add: ba_wf_def)
    show "ba_bit ?d i \<longleftrightarrow> ba_bit a i \<or> ba_bit b i" for i
    proof (cases "i < ?n")
      case True
      then have ib: "i div 64 < length (Elems b)"
        using lc lc' by (metis word_count)
      have "ba_bit ?d i \<longleftrightarrow> i div 64 < length (Elems a) \<and> bit (Elems a ! (i div 64)) (i mod 64) \<or> bit (Elems b ! (i div 64)) (i mod 64)"
        using True n lc ib Elems_copyBits_nth [of ?m i a]
        by (auto simp: ba_bit_def BitArray_copyBits_def bit_simps)
      then show ?thesis
        using tidy_word_bit [OF a, of i] tidy_word_bit [OF b, of i] ib by simp
    next
      case False
      then show ?thesis using n by (auto simp: ba_bit_def BitArray_copyBits_def)
    qed
  qed
qed

section \<open>Difference\<close>

lemma sub_words_content:
  assumes "k \<le> length (Elems a)"
  shows "\<exists>c. go_for sub_word [0..<k] a = Some c \<and> Bits c = Bits a \<and> length (Elems c) = length (Elems a) \<and>
    (\<forall>j < length (Elems a). Elems c ! j = (if j < k then 0 else Elems a ! j))"
proof (rule go_for_upt [where I = "\<lambda>i c. Bits c = Bits a \<and> length (Elems c) = length (Elems a) \<and>
    (\<forall>j < length (Elems a). Elems c ! j = (if j < i then 0 else Elems a ! j))"])
  fix i and c :: BitArray
  assume "i < k" and "Bits c = Bits a \<and> length (Elems c) = length (Elems a) \<and>
    (\<forall>j < length (Elems a). Elems c ! j = (if j < i then 0 else Elems a ! j))"
  with assms show "\<exists>c'. sub_word i c = Some c' \<and> Bits c' = Bits a \<and> length (Elems c') = length (Elems a) \<and>
    (\<forall>j < length (Elems a). Elems c' ! j = (if j < Suc i then 0 else Elems a ! j))"
    by (auto simp: sub_word_def go_nth_in nth_list_update less_Suc_eq)
qed (use assms in auto)

lemma sub_bits_content:
  assumes c: "ba_wf c" and b: "ba_wf b" and "m \<le> unat (Bits b)" and "unat (Bits b) \<le> unat (Bits c)"
  shows "\<exists>d. go_for (sub_bit b) [m..<unat (Bits b)] c = Some d \<and> ba_wf d \<and> Bits d = Bits c \<and>
    (\<forall>i. ba_bit d i = (ba_bit c i \<and> \<not> (m \<le> i \<and> i < unat (Bits b) \<and> ba_bit b i)))"
proof (rule go_for_upt [where I = "\<lambda>k d. ba_wf d \<and> Bits d = Bits c \<and>
    (\<forall>i. ba_bit d i = (ba_bit c i \<and> \<not> (m \<le> i \<and> i < k \<and> ba_bit b i)))"])
  fix k and d :: BitArray
  assume k: "m \<le> k" "k < unat (Bits b)"
    and d: "ba_wf d \<and> Bits d = Bits c \<and> (\<forall>i. ba_bit d i = (ba_bit c i \<and> \<not> (m \<le> i \<and> i < k \<and> ba_bit b i)))"
  have u: "unat (of_nat k :: u64) = k"
    using k b by (intro unat_of_nat64) (simp add: ba_wf_def)
  obtain d' where d': "BitArray_setIndex d (of_nat k) (ba_bit d k \<and> \<not> ba_bit b k) = Some (unat (of_nat k :: u64) < unat (Bits d), d')"
    "ba_wf d'" "Bits d' = Bits d"
    "\<And>i. ba_bit d' i = (if i = unat (of_nat k :: u64) \<and> i < unat (Bits d) then ba_bit d k \<and> \<not> ba_bit b k else ba_bit d i)"
    using d by (elim conjE setIndex_total [of d "of_nat k" "ba_bit d k \<and> \<not> ba_bit b k"]) blast
  have "sub_bit b k d = Some d'"
    using d d'(1) u b by (simp add: sub_bit_def getIndex_bit)
  with d d'(2-4) u k assms(4) show "\<exists>d'. sub_bit b k d = Some d' \<and> ba_wf d' \<and> Bits d' = Bits c \<and>
    (\<forall>i. ba_bit d' i = (ba_bit c i \<and> \<not> (m \<le> i \<and> i < Suc k \<and> ba_bit b i)))"
    by (auto simp: less_Suc_eq)
qed (use assms in auto)

lemma sub_content:
  assumes a: "ba_wf a" and b: "ba_wf b"
  obtains c where "BitArray_Sub (Some a) (Some b) = Some (Some c)" and "ba_wf c"
    and "\<And>i. ba_bit c i \<longleftrightarrow> ba_bit a i \<and> \<not> ba_bit b i \<and>
      (if unat (Bits a) \<le> unat (Bits b) then i < unat (Bits a) else 64 * (length (Elems b) - 1) \<le> i)"
proof (cases "unat (Bits a) \<le> unat (Bits b)")
  case True
  obtain c where c: "BitArray_and a (BitArray_not b) = Some c" "ba_wf c"
    "\<And>i. ba_bit c i \<longleftrightarrow> ba_bit a i \<and> ba_bit (BitArray_not b) i"
    by (rule and_content [OF a not_content(1) [OF b]]) blast
  show ?thesis
  proof (rule that)
    show "BitArray_Sub (Some a) (Some b) = Some (Some c)"
      using True c(1) by (simp add: BitArray_Sub_def word_less_nat_alt)
    show "ba_bit c i \<longleftrightarrow> ba_bit a i \<and> \<not> ba_bit b i \<and>
      (if unat (Bits a) \<le> unat (Bits b) then i < unat (Bits a) else 64 * (length (Elems b) - 1) \<le> i)" for i
      using True unfolding c(3) not_content(3) [OF b] by (auto simp: ba_bit_def)
  qed (rule c(2))
next
  case False
  let ?k = "length (Elems b) - 1"
  have k: "?k \<le> length (Elems a)" "?k * 64 \<le> unat (Bits b)"
    using a b False by (auto simp: ba_wf_def)
  obtain c where c: "go_for sub_word [0..<?k] a = Some c" "Bits c = Bits a" "length (Elems c) = length (Elems a)"
    "\<And>j. j < length (Elems a) \<Longrightarrow> Elems c ! j = (if j < ?k then 0 else Elems a ! j)"
    using sub_words_content [OF k(1)] by blast
  have wf: "ba_wf c" using a c by (simp add: ba_wf_def)
  have bit_c: "ba_bit c i \<longleftrightarrow> ba_bit a i \<and> 64 * ?k \<le> i" for i
  proof (cases "i < unat (Bits a)")
    case True
    with a have "i div 64 < length (Elems a)" by (rule word_index)
    moreover have "i div 64 < ?k \<longleftrightarrow> i < 64 * ?k"
      by (simp add: div_less_iff_less_mult mult.commute)
    ultimately show ?thesis using c True by (auto simp: ba_bit_def)
  next
    case False
    with c show ?thesis by (simp add: ba_bit_def)
  qed
  obtain d where d: "go_for (sub_bit b) [?k * 64..<unat (Bits b)] c = Some d" "ba_wf d"
    "\<And>i. ba_bit d i = (ba_bit c i \<and> \<not> (?k * 64 \<le> i \<and> i < unat (Bits b) \<and> ba_bit b i))"
    using sub_bits_content [OF wf b k(2)] False c(2) by auto
  have n: "nat (to_int (Bits b)) = unat (Bits b)"
    using b by (simp add: ba_wf_def to_int_unat)
  have "BitArray_Sub (Some a) (Some b) = Some (Some d)"
    using False c(1) d(1) Elems_nonempty [OF b] by (simp add: BitArray_Sub_def word_less_nat_alt n)
  then show ?thesis
  proof (rule that)
    show "ba_bit d i \<longleftrightarrow> ba_bit a i \<and> \<not> ba_bit b i \<and>
      (if unat (Bits a) \<le> unat (Bits b) then i < unat (Bits a) else 64 * (length (Elems b) - 1) \<le> i)" for i
      using False unfolding d(3) bit_c by (auto simp: ba_bit_def)
  qed (rule d(2))
qed

section \<open>Full arrays\<close>

lemma low_ones_iff:
  fixes e :: u64
  assumes "n \<le> 64"
  shows "(e + 1) AND (push_bit n 1 - 1) = 0 \<longleftrightarrow> (\<forall>j < n. bit e j)"
proof -
  have "(e + 1) AND (push_bit n 1 - 1) = take_bit n (e + 1)"
    by (simp add: take_bit_eq_mask mask_eq_exp_minus_1)
  also have "\<dots> = 0 \<longleftrightarrow> take_bit n e = mask n"
    using assms by transfer (simp add: take_bit_eq_mask_iff min_def)
  also have "\<dots> \<longleftrightarrow> (\<forall>j < n. bit e j)"
    using assms by (simp add: bit_eq_iff bit_simps) (meson order_less_le_trans)
  finally show ?thesis .
qed

lemma not_zero_iff: "NOT e = 0 \<longleftrightarrow> (\<forall>j < 64. bit (e :: u64) j)"
  by (auto simp: bit_eq_iff bit_simps)

lemma full_split:
  assumes "ba_wf b"
  shows "(\<forall>i < unat (Bits b). ba_bit b i) \<longleftrightarrow>
    (\<forall>w < length (Elems b) - 1. \<forall>j < 64. bit (Elems b ! w) j) \<and>
    (\<forall>j < unat (Bits b) - 64 * (length (Elems b) - 1). bit (last (Elems b)) j)"
    (is "?l \<longleftrightarrow> ?words \<and> ?last")
proof -
  let ?k = "length (Elems b) - 1"
  have k: "64 * ?k < unat (Bits b)" "unat (Bits b) - 64 * ?k \<le> 64" "last (Elems b) = Elems b ! ?k"
    using assms Elems_nonempty [OF assms] by (auto simp: ba_wf_def last_conv_nth)
  show ?thesis
  proof (intro iffI conjI allI impI)
    fix w j assume ?l "w < ?k" "j < (64 :: nat)"
    then have "ba_bit b (64 * w + j)" using k(1) by auto
    with \<open>j < 64\<close> show "bit (Elems b ! w) j" by (simp add: ba_bit_def)
  next
    fix j assume ?l "j < unat (Bits b) - 64 * ?k"
    then have "ba_bit b (64 * ?k + j)" by auto
    with \<open>j < unat (Bits b) - 64 * ?k\<close> k show "bit (last (Elems b)) j" by (simp add: ba_bit_def)
  next
    fix i assume r: "?words \<and> ?last" and i: "i < unat (Bits b)"
    have "i div 64 < ?k \<or> i div 64 = ?k" using word_index [OF assms i] by linarith
    then show "ba_bit b i"
    proof
      assume "i div 64 < ?k"
      with r i show ?thesis by (simp add: ba_bit_def)
    next
      assume w: "i div 64 = ?k"
      then have "i = 64 * ?k + i mod 64" by (metis mult_div_mod_eq)
      with i have "i mod 64 < unat (Bits b) - 64 * ?k" by linarith
      with r i w k(3) show ?thesis by (simp add: ba_bit_def)
    qed
  qed
qed

text \<open>The method that decides whether every part or vote is there is exact.\<close>

lemma IsFull_bits:
  assumes "ba_wf b"
  shows "BitArray_IsFull (Some b) = Some (\<forall>i < unat (Bits b). ba_bit b i)"
proof -
  let ?k = "length (Elems b) - 1"
  have lb: "unat ((Bits b + 63) mod 64 + 1) = unat (Bits b) - 64 * ?k"
  proof -
    have "unat ((Bits b + 63) mod 64 + 1) = (unat (Bits b) + 63) mod 64 + 1"
      using assms by (simp add: ba_wf_def unat_word_ariths)
    also have "\<dots> = unat (Bits b) - 64 * ((unat (Bits b) + 63) div 64 - 1)"
    proof -
      have "0 < (unat (Bits b) + 63) div 64"
        using assms Elems_nonempty [OF assms] by (metis ba_wf_def length_greater_0_conv)
      then obtain q where "(unat (Bits b) + 63) div 64 = Suc q" by (metis Suc_pred)
      with mult_div_mod_eq [of 64 "unat (Bits b) + 63"] show ?thesis by simp
    qed
    finally show ?thesis using assms by (simp add: ba_wf_def)
  qed
  have le: "unat (Bits b) - 64 * ?k \<le> 64"
    using assms by (simp add: ba_wf_def)
  have words: "list_all (\<lambda>e. NOT e = 0) (butlast (Elems b)) \<longleftrightarrow> (\<forall>w < ?k. \<forall>j < 64. bit (Elems b ! w) j)"
    by (simp add: list_all_length nth_butlast not_zero_iff)
  show ?thesis
    using Elems_nonempty [OF assms] le
    by (simp add: BitArray_IsFull_def full_split [OF assms] words Let_def lb low_ones_iff del: push_bit_of_1)
qed

section \<open>Picking a set bit\<close>

lemma rotate_range:
  assumes "0 < (n :: nat)"
  shows "(\<lambda>j. (j + s) mod n) ` {..<n} = {..<n}"
proof (intro equalityI subsetI)
  fix b assume "b \<in> {..<n}"
  let ?j = "(b + (n - s mod n)) mod n"
  have "(?j + s) mod n = (b + (n - s mod n) + s mod n) mod n"
    by (simp add: mod_simps)
  also have "b + (n - s mod n) + s mod n = b + n"
    using mod_le_divisor [OF assms, of s] by linarith
  also have "(b + n) mod n = b" using \<open>b \<in> {..<n}\<close> by simp
  finally show "b \<in> (\<lambda>j. (j + s) mod n) ` {..<n}"
    using assms by (intro image_eqI [of _ _ ?j]) auto
qed (use assms in auto)

lemma scan_bits_Some: "scan_bits e s nb = Some b \<Longrightarrow> b < nb \<and> bit e b"
  by (auto simp: scan_bits_def find_Some_iff test_bit_power_iff)

lemma scan_bits_None: "0 < nb \<Longrightarrow> scan_bits e s nb = None \<longleftrightarrow> (\<forall>b < nb. \<not> bit e b)"
  using rotate_range [of nb s]
  by (simp add: scan_bits_def find_None_iff test_bit_power_iff atLeast0LessThan)

definition word_bits :: "BitArray \<Rightarrow> nat \<Rightarrow> nat" where
  "word_bits b w = (if w < length (Elems b) - 1 then 64 else unat (Bits b) - 64 * (length (Elems b) - 1))"

lemma word_bits_last:
  assumes "ba_wf b"
  shows "(if Bits b mod 64 = 0 then 64 else unat (Bits b mod 64)) = unat (Bits b) - 64 * (length (Elems b) - 1)"
proof -
  let ?n = "unat (Bits b)"
  have "0 < (?n + 63) div 64"
    using assms Elems_nonempty [OF assms] by (metis ba_wf_def length_greater_0_conv)
  then obtain q where q: "(?n + 63) div 64 = Suc q" by (metis Suc_pred)
  define t where "t = ?n - 64 * q"
  have t: "0 < t" "t \<le> 64" "?n = t + q * 64"
    using q assms mult_div_mod_eq [of 64 "?n + 63"] mod_less_divisor [of 64 "?n + 63"] by (auto simp: t_def)
  have m: "unat (Bits b mod 64) = t mod 64"
    unfolding unat_mod t(3) by simp
  have z: "Bits b mod 64 = 0 \<longleftrightarrow> t mod 64 = 0"
    using m by (metis unat_0 unat_eq_zero)
  have "t mod 64 = (if t = 64 then 0 else t)" using t by auto
  moreover have "length (Elems b) - 1 = q" using assms q by (simp add: ba_wf_def)
  ultimately show ?thesis using m z t(1) by (auto simp: t_def)
qed

lemma word_bits_bit:
  assumes "ba_wf b" and "w < length (Elems b)"
  shows "j < word_bits b w \<and> bit (Elems b ! w) j \<longleftrightarrow> j < 64 \<and> ba_bit b (64 * w + j)"
proof -
  have "64 * (length (Elems b) - 1) < unat (Bits b)" "unat (Bits b) - 64 * (length (Elems b) - 1) \<le> 64"
    using assms by (auto simp: ba_wf_def)
  then show ?thesis using assms(2) by (auto simp: word_bits_def ba_bit_def less_diff_conv add.commute)
qed

lemma pick_loop_spec:
  assumes wf: "ba_wf b"
  shows "\<exists>idx ok. pick_loop b s draw is = Some (idx, ok) \<and>
    (if ok then ba_bit b (unat idx)
     else idx = 0 \<and> (\<forall>i\<in>set is. \<forall>j. j < 64 \<longrightarrow> \<not> ba_bit b (64 * ((i + s) mod length (Elems b)) + j)))"
proof (induction "is")
  case Nil
  show ?case by (intro exI [of _ 0] exI [of _ False]) simp
next
  case (Cons i "is")
  let ?len = "length (Elems b)"
  let ?w = "(i + s) mod ?len"
  have w: "?w < ?len" using Elems_nonempty [OF wf] by simp
  define nb where "nb = word_bits b ?w"
  have nb: "0 < nb" using wf by (auto simp: nb_def word_bits_def ba_wf_def)
  have found: "ba_bit b (unat (of_nat (64 * ?w + j) :: u64))" if "scan_bits (Elems b ! ?w) r nb = Some j" for j r
  proof -
    have "ba_bit b (64 * ?w + j)"
      using scan_bits_Some [OF that] word_bits_bit [OF wf w, of j] by (simp add: nb_def)
    moreover from this have "64 * ?w + j < 2 ^ 63" using wf by (simp add: ba_bit_def ba_wf_def)
    ultimately show ?thesis by (simp add: unat_of_nat64 del: of_nat_add of_nat_mult)
  qed
  have missing: "\<forall>j. j < 64 \<longrightarrow> \<not> ba_bit b (64 * ?w + j)" if "scan_bits (Elems b ! ?w) r nb = None" for r
    using that word_bits_bit [OF wf w] nb by (auto simp: scan_bits_None nb_def)
  show ?case
  proof (cases "?w < ?len - 1")
    case True
    then have n64: "nb = 64" by (simp add: nb_def word_bits_def)
    show ?thesis
    proof (cases "0 < Elems b ! ?w")
      case True
      then have "\<exists>j < 64. bit (Elems b ! ?w) j"
        by (auto simp: word_gt_0 bit_eq_iff)
      then obtain j where "scan_bits (Elems b ! ?w) (draw i mod 64) nb = Some j"
        using scan_bits_None [of 64 "Elems b ! ?w" "draw i mod 64"] n64 by auto
      with True \<open>?w < ?len - 1\<close> found n64 show ?thesis by (auto simp: Let_def)
    next
      case False
      then have "\<forall>j. j < 64 \<longrightarrow> \<not> ba_bit b (64 * ?w + j)"
        by (simp add: word_gt_0 ba_bit_def)
      moreover from Cons obtain idx ok where "pick_loop b s draw is = Some (idx, ok)"
        "if ok then ba_bit b (unat idx) else idx = 0 \<and> (\<forall>i\<in>set is. \<forall>j<64. \<not> ba_bit b (64 * ((i + s) mod ?len) + j))"
        by blast
      ultimately show ?thesis
        using False \<open>?w < ?len - 1\<close> by (intro exI [of _ idx] exI [of _ ok]) (auto simp: Let_def split: if_splits)
    qed
  next
    case False
    then have "nb = (if Bits b mod 64 = 0 then 64 else unat (Bits b mod 64))"
      by (simp add: word_bits_last [OF wf] nb_def word_bits_def)
    then have step: "pick_loop b s draw (i # is) =
      (case scan_bits (Elems b ! ?w) (draw i mod nb) nb of
         Some j \<Rightarrow> Some (of_nat (64 * ?w + j), True) | None \<Rightarrow> pick_loop b s draw is)"
      using False by (simp add: Let_def)
    show ?thesis
    proof (cases "scan_bits (Elems b ! ?w) (draw i mod nb) nb")
      case None
      from Cons obtain idx ok where "pick_loop b s draw is = Some (idx, ok)"
        "if ok then ba_bit b (unat idx) else idx = 0 \<and> (\<forall>i\<in>set is. \<forall>j<64. \<not> ba_bit b (64 * ((i + s) mod ?len) + j))"
        by blast
      with missing [OF None] None show ?thesis
        unfolding step by (intro exI [of _ idx] exI [of _ ok]) (auto split: if_splits)
    next
      case (Some j)
      with found show ?thesis unfolding step by auto
    qed
  qed
qed

lemma PickRandom_bits:
  assumes wf: "ba_wf b"
  shows "\<exists>idx ok. BitArray_PickRandom (Some b) r draw = Some (idx, ok) \<and>
    (ok \<longleftrightarrow> (\<exists>i. ba_bit b i)) \<and> (ok \<longrightarrow> ba_bit b (unat idx))"
proof -
  let ?len = "length (Elems b)"
  have len: "0 < ?len" using Elems_nonempty [OF wf] by simp
  from pick_loop_spec [OF wf, of "r mod ?len" draw "[0..<?len]"] obtain idx ok where
    p: "pick_loop b (r mod ?len) draw [0..<?len] = Some (idx, ok)"
      "if ok then ba_bit b (unat idx)
       else idx = 0 \<and> (\<forall>i\<in>{..<?len}. \<forall>j. j < 64 \<longrightarrow> \<not> ba_bit b (64 * ((i + r mod ?len) mod ?len) + j))"
    by (auto simp: atLeast0LessThan)
  have "\<not> ba_bit b i" if "\<not> ok" for i
  proof
    assume i: "ba_bit b i"
    then have "i div 64 \<in> (\<lambda>k. (k + r mod ?len) mod ?len) ` {..<?len}"
      unfolding rotate_range [OF len] using word_index [OF wf, of i] by (simp add: ba_bit_def)
    then obtain k where "k < ?len" "i div 64 = (k + r mod ?len) mod ?len" by auto
    with p(2) that have "\<not> ba_bit b (64 * (i div 64) + i mod 64)" by simp
    with i show False by simp
  qed
  with p len show ?thesis by (auto simp: BitArray_PickRandom_def Let_def)
qed

section \<open>JSON\<close>

lemma ba_eqI:
  fixes a b :: BitArray
  assumes "ba_wf a" "ba_tidy a" "ba_wf b" "ba_tidy b" and "Bits a = Bits b" and "\<And>i. ba_bit a i = ba_bit b i"
  shows "a = b"
proof -
  have l: "length (Elems a) = length (Elems b)"
    using assms by (simp add: ba_wf_def)
  have "Elems a ! w = Elems b ! w" if w: "w < length (Elems a)" for w
  proof (rule bit_word_eqI)
    fix j assume "j < LENGTH(64)"
    then have j: "j < 64" by simp
    then have d: "(64 * w + j) div 64 = w" "(64 * w + j) mod 64 = j" by auto
    show "bit (Elems a ! w) j = bit (Elems b ! w) j"
      using tidy_word_bit [OF assms(1,2), of "64 * w + j"] tidy_word_bit [OF assms(3,4), of "64 * w + j"]
        assms(6) [of "64 * w + j"] w l unfolding d by auto
  qed
  with l have "Elems a = Elems b" by (simp add: list_eq_iff_nth_eq)
  with assms(5) show ?thesis by simp
qed

definition json_char :: "BitArray \<Rightarrow> nat \<Rightarrow> char" where
  "json_char b i = (if ba_bit b i then CHR ''x'' else CHR ''_'')"

lemma MarshalJSON_eq:
  assumes wf: "ba_wf b"
  shows "BitArray_MarshalJSON (Some b) = Some (CHR 0x22 # map (json_char b) [0..<unat (Bits b)] @ [CHR 0x22])"
proof -
  have n: "nat (to_int (Bits b)) = unat (Bits b)"
    using wf by (simp add: ba_wf_def to_int_unat)
  have "\<exists>t. go_for (json_bit b) [0..<unat (Bits b)] [CHR 0x22] = Some t \<and> t = CHR 0x22 # map (json_char b) [0..<unat (Bits b)]"
  proof (rule go_for_upt [where I = "\<lambda>k t. t = CHR 0x22 # map (json_char b) [0..<k]"])
    fix k t
    assume k: "k < unat (Bits b)" and t: "t = CHR 0x22 # map (json_char b) [0..<k]"
    have "unat (of_nat k :: u64) = k" using k wf by (intro unat_of_nat64) (simp add: ba_wf_def)
    with t show "\<exists>t'. json_bit b k t = Some t' \<and> t' = CHR 0x22 # map (json_char b) [0..<Suc k]"
      by (simp add: json_bit_def getIndex_bit [OF wf] json_char_def)
  qed simp_all
  then show ?thesis by (simp add: BitArray_MarshalJSON_def n)
qed

lemma json_match_quoted:
  "list_all (\<lambda>c. c = CHR ''_'' \<or> c = CHR ''x'') cs \<Longrightarrow> json_match (CHR 0x22 # cs @ [CHR 0x22]) = Some cs"
  by (simp add: json_match_def)

lemma unmarshal_bits:
  assumes "0 < length cs" and "length cs < 2 ^ 63"
  obtains c where "go_for (unmarshal_bit cs) [0..<length cs] (NewBitArray (of_nat (length cs))) = Some (Some c)"
    and "ba_wf c" and "ba_tidy c" and "Bits c = of_nat (length cs)"
    and "\<And>i. ba_bit c i \<longleftrightarrow> i < length cs \<and> cs ! i = CHR ''x''"
proof -
  let ?n = "of_nat (length cs) :: u64"
  have n: "unat ?n = length cs" using assms(2) by (rule unat_of_nat64)
  from assms n have "0 < unat ?n" "unat ?n < 2 ^ 63" by simp_all
  then obtain b0 where b0: "NewBitArray ?n = Some b0" "ba_wf b0" "Bits b0 = ?n" "\<And>i. \<not> ba_bit b0 i" "ba_tidy b0"
    by (rule NewBitArray_wf) blast
  let ?I = "\<lambda>k p. \<exists>c. p = Some c \<and> ba_wf c \<and> ba_tidy c \<and> Bits c = ?n \<and>
    (\<forall>i. ba_bit c i \<longleftrightarrow> i < k \<and> cs ! i = CHR ''x'')"
  have "\<exists>p. go_for (unmarshal_bit cs) [0..<length cs] (Some b0) = Some p \<and> ?I (length cs) p"
  proof (rule go_for_upt [where I = ?I])
    fix k p
    assume k: "k < length cs" and "?I k p"
    then obtain c where c: "p = Some c" "ba_wf c" "ba_tidy c" "Bits c = ?n"
      "\<And>i. ba_bit c i \<longleftrightarrow> i < k \<and> cs ! i = CHR ''x''" by blast
    have u: "unat (of_nat k :: u64) = k" using k assms(2) by (intro unat_of_nat64) simp
    obtain c' where "BitArray_setIndex c (of_nat k) True = Some (unat (of_nat k :: u64) < unat (Bits c), c')"
      "ba_wf c'" "Bits c' = Bits c" "ba_tidy c \<Longrightarrow> ba_tidy c'"
      "\<And>i. ba_bit c' i = (if i = unat (of_nat k :: u64) \<and> i < unat (Bits c) then True else ba_bit c i)"
      by (rule setIndex_total [OF c(2)]) blast
    with c u n k show "\<exists>p'. unmarshal_bit cs k p = Some p' \<and> ?I (Suc k) p'"
      by (auto simp: unmarshal_bit_def BitArray_SetIndex_def less_Suc_eq)
  qed (use b0 in auto)
  with b0(1) that show ?thesis by auto
qed

lemma JSON_decode_encode:
  assumes wf: "ba_wf b" and tidy: "ba_tidy b"
  shows "Option.bind (BitArray_MarshalJSON (Some b)) BitArray_UnmarshalJSON = Some (Inr b)"
proof -
  let ?cs = "map (json_char b) [0..<unat (Bits b)]"
  have len: "0 < length ?cs" "length ?cs < 2 ^ 63" using wf by (auto simp: ba_wf_def)
  obtain c where c: "go_for (unmarshal_bit ?cs) [0..<length ?cs] (NewBitArray (of_nat (length ?cs))) = Some (Some c)"
    "ba_wf c" "ba_tidy c" "Bits c = of_nat (length ?cs)" "\<And>i. ba_bit c i \<longleftrightarrow> i < length ?cs \<and> ?cs ! i = CHR ''x''"
    using len by (rule unmarshal_bits) blast
  have "c = b"
  proof (rule ba_eqI [OF c(2,3) wf tidy])
    show "Bits c = Bits b" unfolding c(4) by simp
    show "ba_bit c i = ba_bit b i" for i unfolding c(5) by (auto simp: json_char_def ba_bit_def split: if_splits)
  qed
  moreover have "list_all (\<lambda>c. c = CHR ''_'' \<or> c = CHR ''x'') ?cs"
    by (auto simp: list_all_iff json_char_def)
  ultimately show ?thesis
    using c(1) by (simp add: MarshalJSON_eq [OF wf] BitArray_UnmarshalJSON_def json_match_quoted)
qed

text \<open>The one text the pattern admits and the code cannot build: an array of no bits.\<close>

lemma UnmarshalJSON_empty: "BitArray_UnmarshalJSON [CHR 0x22, CHR 0x22] = None"
  by (simp add: BitArray_UnmarshalJSON_def json_match_def NewBitArray_def)

section \<open>Properties\<close>

text \<open>A three-bit array with its first bit set.\<close>

definition demo_bits :: BitArray where
  "demo_bits = \<lparr>Bits = 3, Elems = [1]\<rparr>"

lemma demo_bits_wf: "ba_wf demo_bits" "ba_tidy demo_bits"
  by (simp_all add: ba_wf_def ba_tidy_def demo_bits_def bit_1_iff)

text \<open>
  C23: reading and writing. On a well-formed array \<open>SetIndex\<close> never panics, reports whether the
  index is in range, sets that bit and no other; \<open>GetIndex\<close> reads the bit and is false out of
  range.
\<close>

theorem bit_array_get_set:
  assumes "ba_wf b"
  shows "\<exists>c. BitArray_SetIndex (Some b) i v = Some (unat i < unat (Bits b), Some c) \<and> ba_wf c \<and> Bits c = Bits b \<and>
    (\<forall>k. BitArray_GetIndex (Some c) k =
      Some (if k = i \<and> unat i < unat (Bits b) then v else the (BitArray_GetIndex (Some b) k)))"
proof -
  obtain c where c: "BitArray_setIndex b i v = Some (unat i < unat (Bits b), c)" "ba_wf c" "Bits c = Bits b"
    "\<And>k. ba_bit c k = (if k = unat i \<and> k < unat (Bits b) then v else ba_bit b k)"
    by (rule setIndex_total [OF assms]) blast
  then show ?thesis
    by (auto simp: BitArray_SetIndex_def BitArray_GetIndex_def getIndex_bit [OF c(2)] getIndex_bit [OF assms] word_unat_eq_iff)
qed

theorem bit_array_get_set_witness:
  "\<exists>c. BitArray_SetIndex (Some demo_bits) 1 True = Some (True, Some c) \<and> BitArray_GetIndex (Some c) 1 = Some True"
  using bit_array_get_set [OF demo_bits_wf(1), of 1 True] by (auto simp: demo_bits_def)

text \<open>C24: \<open>IsFull\<close> decides exactly whether every bit of the array is set, whatever the unused bits of the last word hold.\<close>

theorem IsFull_exact:
  assumes "ba_wf b"
  shows "BitArray_IsFull (Some b) = Some (\<forall>i < unat (Bits b). ba_bit b i)"
  using assms by (rule IsFull_bits)

theorem IsFull_exact_witness: "BitArray_IsFull (Some demo_bits) = Some False"
proof -
  have "\<not> (\<forall>i < unat (Bits demo_bits). ba_bit demo_bits i)"
    by (auto simp: ba_bit_def demo_bits_def bit_1_iff intro!: exI [of _ 1])
  then show ?thesis using IsFull_exact [OF demo_bits_wf(1)] by simp
qed

text \<open>
  C25: whatever the random draws, \<open>PickRandom\<close> returns a set bit when there is one and reports
  failure exactly when there is none.
\<close>

theorem PickRandom_picks:
  assumes "ba_wf b"
  shows "\<exists>idx ok. BitArray_PickRandom (Some b) r draw = Some (idx, ok) \<and>
    (ok \<longleftrightarrow> (\<exists>i. ba_bit b i)) \<and> (ok \<longrightarrow> ba_bit b (unat idx))"
  using assms by (rule PickRandom_bits)

theorem PickRandom_picks_witness:
  "\<exists>idx. BitArray_PickRandom (Some demo_bits) 4 (\<lambda>_. 2) = Some (idx, True)"
proof -
  have "ba_bit demo_bits 0" by (simp add: ba_bit_def demo_bits_def)
  then have "\<exists>i. ba_bit demo_bits i" ..
  then show ?thesis using PickRandom_picks [OF demo_bits_wf(1), of 4 "\<lambda>_. 2"] by auto
qed

text \<open>C26: decoding the JSON text of an array without stray bits gives the array back.\<close>

theorem JSON_roundtrip:
  assumes "ba_wf b" "ba_tidy b"
  shows "Option.bind (BitArray_MarshalJSON (Some b)) BitArray_UnmarshalJSON = Some (Inr b)"
  using assms by (rule JSON_decode_encode)

theorem JSON_roundtrip_witness:
  "Option.bind (BitArray_MarshalJSON (Some demo_bits)) BitArray_UnmarshalJSON = Some (Inr demo_bits)"
  by (rule JSON_roundtrip [OF demo_bits_wf])

text \<open>
  The exact content of a difference. When the receiver is not longer than the argument it is
  the set difference; when it is longer, all bits in the words before the argument's last word are
  lost, which the comment (the intersection with the complement) does not say.
\<close>

theorem Sub_content:
  assumes "ba_wf a" "ba_wf b"
  shows "\<exists>c. BitArray_Sub (Some a) (Some b) = Some (Some c) \<and> ba_wf c \<and>
    (\<forall>i. ba_bit c i \<longleftrightarrow> ba_bit a i \<and> \<not> ba_bit b i \<and>
      (if unat (Bits a) \<le> unat (Bits b) then i < unat (Bits a) else 64 * (length (Elems b) - 1) \<le> i))"
  by (rule sub_content [OF assms]) blast

theorem Sub_content_witness:
  "\<exists>c. BitArray_Sub (Some demo_bits) (Some demo_bits) = Some (Some c) \<and> (\<forall>i. \<not> ba_bit c i)"
  using Sub_content [OF demo_bits_wf(1) demo_bits_wf(1)] by blast

text \<open>
  \<open>Or\<close> panics with an index out of range exactly when the argument has fewer words than the
  receiver; the comment promises a result padded on the right.
\<close>

theorem Or_panics_iff:
  assumes "ba_wf a" "ba_wf b"
  shows "BitArray_Or (Some a) (Some b) = None \<longleftrightarrow> length (Elems b) < length (Elems a)"
  using assms by (rule Or_None_iff)

theorem Or_panics_iff_witness:
  "BitArray_Or (Some \<lparr>Bits = 65, Elems = [0, 0]\<rparr>) (Some demo_bits) = None"
proof -
  have "ba_wf \<lparr>Bits = 65, Elems = [0, 0]\<rparr>" by (simp add: ba_wf_def)
  from Or_panics_iff [OF this demo_bits_wf(1)] show ?thesis by (simp add: demo_bits_def)
qed

end
