(* ===== verification/Go_Heap.thy ===== *)
theory Go_Heap
  imports Go_Prelude "HOL-Library.Multiset"
begin

text \<open>
  The priority queue of \<^verbatim>\<open>consensus/tbft/help/heap.go\<close> on the algorithms of Go's
  \<open>container/heap\<close>: a slice in which no element is cmp than its parent. The comparison may
  panic, so it returns an option; the field \<open>index\<close> of a \<open>pqItem\<close> is the position of the item
  in the slice and is not stored.
\<close>

section \<open>The algorithms\<close>

definition heap_swap :: "'a list \<Rightarrow> nat \<Rightarrow> nat \<Rightarrow> 'a list" where
  "heap_swap h i j = h[i := h ! j, j := h ! i]"

definition heap_less :: "('a \<Rightarrow> 'a \<Rightarrow> bool option) \<Rightarrow> 'a list \<Rightarrow> nat \<Rightarrow> nat \<Rightarrow> bool option" where
  "heap_less cmp h i j = do { x \<leftarrow> go_nth h i; y \<leftarrow> go_nth h j; cmp x y }"

function heap_up :: "('a \<Rightarrow> 'a \<Rightarrow> bool option) \<Rightarrow> nat \<Rightarrow> 'a list \<Rightarrow> 'a list option" where
  "heap_up cmp j h =
     (let i = (j - 1) div 2
      in if i = j then Some h
         else (case heap_less cmp h j i of
                 None \<Rightarrow> None
               | Some b \<Rightarrow> if \<not> b then Some h else heap_up cmp i (heap_swap h i j)))"
  by pat_completeness auto
termination
  by (relation "measure (\<lambda>(cmp, j, h). j)") auto

definition down_child :: "('a \<Rightarrow> 'a \<Rightarrow> bool option) \<Rightarrow> 'a list \<Rightarrow> nat \<Rightarrow> nat \<Rightarrow> nat option" where
  "down_child cmp h j1 n =
     (if j1 + 1 < n then do { b \<leftarrow> heap_less cmp h (j1 + 1) j1; Some (if b then j1 + 1 else j1) }
      else Some j1)"

lemma down_child_bounds: "down_child cmp h j1 n = Some j \<Longrightarrow> j = j1 \<or> j = j1 + 1 \<and> j1 + 1 < n"
  by (auto simp: down_child_def elim!: bind_eq_SomeE split: if_splits)

function heap_down :: "('a \<Rightarrow> 'a \<Rightarrow> bool option) \<Rightarrow> nat \<Rightarrow> nat \<Rightarrow> 'a list \<Rightarrow> (nat \<times> 'a list) option" where
  "heap_down cmp i n h =
     (let j1 = 2 * i + 1
      in if n \<le> j1 then Some (i, h)
         else (case down_child cmp h j1 n of
                 None \<Rightarrow> None
               | Some j \<Rightarrow>
                   (case heap_less cmp h j i of
                      None \<Rightarrow> None
                    | Some b \<Rightarrow> if \<not> b then Some (i, h) else heap_down cmp j n (heap_swap h i j))))"
  by pat_completeness auto
termination
  by (relation "measure (\<lambda>(cmp, i, n, h). n - i)") (auto dest: down_child_bounds)

declare heap_up.simps [simp del] heap_down.simps [simp del]

definition heap_Push :: "('a \<Rightarrow> 'a \<Rightarrow> bool option) \<Rightarrow> 'a \<Rightarrow> 'a list \<Rightarrow> 'a list option" where
  "heap_Push cmp x h = heap_up cmp (length h) (h @ [x])"

definition heap_Peek :: "'a list \<Rightarrow> 'a option" where
  "heap_Peek h = (case h of [] \<Rightarrow> None | x # _ \<Rightarrow> Some x)"

definition heap_Fix :: "('a \<Rightarrow> 'a \<Rightarrow> bool option) \<Rightarrow> nat \<Rightarrow> 'a list \<Rightarrow> 'a list option" where
  "heap_Fix cmp i h = do {
     (k, h') \<leftarrow> heap_down cmp i (length h) h;
     if k > i then Some h' else heap_up cmp i h'
   }"

text \<open>\<open>Heap.Update\<close> writes the first item and restores the order from its index, which is 0.\<close>

definition heap_Update :: "('a \<Rightarrow> 'a \<Rightarrow> bool option) \<Rightarrow> 'a \<Rightarrow> 'a list \<Rightarrow> 'a list option" where
  "heap_Update cmp x h = (if h = [] then None else heap_Fix cmp 0 (h[0 := x]))"

definition heap_Pop :: "('a \<Rightarrow> 'a \<Rightarrow> bool option) \<Rightarrow> 'a list \<Rightarrow> ('a \<times> 'a list) option" where
  "heap_Pop cmp h =
     (if h = [] then None
      else do {
        (_, h') \<leftarrow> heap_down cmp 0 (length h - 1) (heap_swap h 0 (length h - 1));
        Some (last h', butlast h')
      })"

section \<open>Contents\<close>

lemma length_heap_swap [simp]: "length (heap_swap h i j) = length h"
  by (simp add: heap_swap_def)

lemma nth_heap_swap:
  "i < length h \<Longrightarrow> j < length h \<Longrightarrow> k < length h \<Longrightarrow>
    heap_swap h i j ! k = (if k = j then h ! i else if k = i then h ! j else h ! k)"
  by (auto simp: heap_swap_def nth_list_update)

lemma mset_heap_swap: "i < length h \<Longrightarrow> j < length h \<Longrightarrow> mset (heap_swap h i j) = mset h"
  by (simp add: heap_swap_def mset_swap)

lemma heap_less_bounds: "heap_less cmp h i j = Some b \<Longrightarrow> i < length h \<and> j < length h"
  by (auto simp: heap_less_def elim!: bind_eq_SomeE)

lemma heap_up_mset: "heap_up cmp j h = Some h' \<Longrightarrow> mset h' = mset h"
proof (induction cmp j h arbitrary: h' rule: heap_up.induct)
  case (1 cmp j h)
  then show ?case
    by (subst (asm) (2) heap_up.simps)
      (auto simp: Let_def mset_heap_swap dest: heap_less_bounds split: if_splits option.splits)
qed

lemma heap_down_mset: "heap_down cmp i n h = Some (k, h') \<Longrightarrow> mset h' = mset h"
proof (induction cmp i n h arbitrary: k h' rule: heap_down.induct)
  case (1 cmp i n h)
  then show ?case
    by (subst (asm) (2) heap_down.simps)
      (auto simp: Let_def mset_heap_swap dest: heap_less_bounds split: if_splits option.splits)
qed

lemma heap_Push_mset: "heap_Push cmp x h = Some h' \<Longrightarrow> mset h' = add_mset x (mset h)"
  by (auto simp: heap_Push_def dest: heap_up_mset)

section \<open>Order\<close>

text \<open>
  The contract of a comparison: on the elements of \<open>A\<close> it does not panic and is a strict weak
  order. A client supplies it for the elements it stores.
\<close>

locale heap_order =
  fixes cmp :: "'a \<Rightarrow> 'a \<Rightarrow> bool option" and lt :: "'a \<Rightarrow> 'a \<Rightarrow> bool" and A :: "'a set"
  assumes less_lt: "x \<in> A \<Longrightarrow> y \<in> A \<Longrightarrow> x \<noteq> y \<Longrightarrow> cmp x y = Some (lt x y)"
    and lt_asym: "x \<in> A \<Longrightarrow> y \<in> A \<Longrightarrow> lt x y \<Longrightarrow> \<not> lt y x"
    and lt_trans: "x \<in> A \<Longrightarrow> y \<in> A \<Longrightarrow> z \<in> A \<Longrightarrow> \<not> lt x y \<Longrightarrow> \<not> lt y z \<Longrightarrow> \<not> lt x z"
begin

definition heap_at :: "'a list \<Rightarrow> nat \<Rightarrow> bool" where
  "heap_at h k \<longleftrightarrow> \<not> lt (h ! k) (h ! ((k - 1) div 2))"

definition heap_upto :: "nat \<Rightarrow> 'a list \<Rightarrow> bool" where
  "heap_upto n h \<longleftrightarrow> (\<forall>k. 0 < k \<longrightarrow> k < n \<longrightarrow> heap_at h k)"

text \<open>Heap order but between \<open>j\<close> and its parent, and heap order but below \<open>i\<close>.\<close>

definition up_inv :: "nat \<Rightarrow> nat \<Rightarrow> 'a list \<Rightarrow> bool" where
  "up_inv n j h \<longleftrightarrow>
     (\<forall>k. 0 < k \<longrightarrow> k < n \<longrightarrow> k \<noteq> j \<longrightarrow> heap_at h k) \<and>
     (\<forall>c. 0 < j \<longrightarrow> 0 < c \<longrightarrow> c < n \<longrightarrow> (c - 1) div 2 = j \<longrightarrow> \<not> lt (h ! c) (h ! ((j - 1) div 2)))"

definition down_inv :: "nat \<Rightarrow> nat \<Rightarrow> 'a list \<Rightarrow> bool" where
  "down_inv n i h \<longleftrightarrow>
     (\<forall>k. 0 < k \<longrightarrow> k < n \<longrightarrow> (k - 1) div 2 \<noteq> i \<longrightarrow> heap_at h k) \<and>
     (\<forall>c. 0 < i \<longrightarrow> 0 < c \<longrightarrow> c < n \<longrightarrow> (c - 1) div 2 = i \<longrightarrow> \<not> lt (h ! c) (h ! ((i - 1) div 2)))"

lemma heap_less_lt:
  assumes "set h \<subseteq> A" "distinct h" "i < length h" "j < length h" "i \<noteq> j"
  shows "heap_less cmp h i j = Some (lt (h ! i) (h ! j))"
  using assms less_lt [of "h ! i" "h ! j"] by (auto simp: heap_less_def go_nth_def nth_eq_iff_index_eq dest: nth_mem)

lemma up_inv_swap:
  assumes A: "set h \<subseteq> A" and n: "n \<le> length h" and j: "j < n" and i: "i = (j - 1) div 2" "i \<noteq> j"
    and inv: "up_inv n j h" and lt: "lt (h ! j) (h ! i)"
  shows "up_inv n i (heap_swap h i j)"
proof -
  have ij: "i < j" "0 < j" using i by auto
  have mem: "h ! k \<in> A" if "k < n" for k using that A n by (auto dest: nth_mem)
  have sw: "heap_swap h i j ! k = (if k = j then h ! i else if k = i then h ! j else h ! k)" if "k < n" for k
    using that ij j n by (intro nth_heap_swap) auto
  have at: "\<not> lt (h ! k) (h ! ((k - 1) div 2))" if "0 < k" "k < n" "k \<noteq> j" for k
    using inv that by (auto simp: up_inv_def heap_at_def)
  have gp: "\<not> lt (h ! c) (h ! i)" if "0 < c" "c < n" "(c - 1) div 2 = j" for c
    using inv that ij i(1) by (auto simp: up_inv_def)
  have sib: "\<not> lt (h ! k) (h ! j)" if "0 < k" "k < n" "k \<noteq> j" "(k - 1) div 2 = i" for k
    using lt_trans [of "h ! k" "h ! i" "h ! j"] lt_asym [OF _ _ lt] at [OF that(1-3)] mem that j ij by auto
  have par: "(k - 1) div 2 < n" if "k < n" for k using that by auto
  have "heap_at (heap_swap h i j) k" if k: "0 < k" "k < n" "k \<noteq> i" for k
    using k sw [OF k(2)] sw [OF par [OF k(2)]] at [OF k(1,2)] gp [OF k(1,2)] sib [OF k(1,2)]
      lt_asym [OF _ _ lt] mem j ij i by (auto simp: heap_at_def)
  moreover have "\<not> lt (heap_swap h i j ! c) (heap_swap h i j ! ((i - 1) div 2))"
    if c: "0 < i" "0 < c" "c < n" "(c - 1) div 2 = i" for c
  proof -
    have pp: "(i - 1) div 2 < i" "(i - 1) div 2 < n" using c(1) ij j by auto
    have "\<not> lt (h ! i) (h ! ((i - 1) div 2))" using at [of i] c(1) ij j by auto
    then have "\<not> lt (h ! c) (h ! ((i - 1) div 2))" if "c \<noteq> j"
      using lt_trans [of "h ! c" "h ! i" "h ! ((i - 1) div 2)"] at [OF c(2,3) that] mem c(3,4) ij j pp by auto
    then show ?thesis
      using sw [OF c(3)] sw [OF pp(2)] pp ij c \<open>\<not> lt (h ! i) _\<close> by auto
  qed
  ultimately show ?thesis by (simp add: up_inv_def)
qed

lemma heap_up_heap:
  "set h \<subseteq> A \<Longrightarrow> distinct h \<Longrightarrow> j < length h \<Longrightarrow> up_inv (length h) j h \<Longrightarrow>
    \<exists>h'. heap_up cmp j h = Some h' \<and> heap_upto (length h) h'"
proof (induction j arbitrary: h rule: less_induct)
  case (less j)
  define i where "i = (j - 1) div 2"
  have step: "heap_up cmp j h = (if i = j then Some h else case heap_less cmp h j i of None \<Rightarrow> None
      | Some b \<Rightarrow> if \<not> b then Some h else heap_up cmp i (heap_swap h i j))"
    by (subst heap_up.simps) (simp only: Let_def i_def)
  have "i < length h" using less.prems(3) by (auto simp: i_def)
  show ?case
  proof (cases "i = j \<or> \<not> lt (h ! j) (h ! i)")
    case True
    then have "heap_upto (length h) h"
      using less.prems(4) unfolding heap_upto_def up_inv_def heap_at_def i_def by (metis diff_le_self div_le_dividend le_trans not_less div_less_dividend one_less_numeral_iff semiring_norm(76) diff_less zero_less_one order.strict_trans1)
    then show ?thesis
      using True less.prems heap_less_lt [of h j i] \<open>i < length h\<close> by (auto simp: step)
  next
    case False
    let ?h = "heap_swap h i j"
    have i: "i < j" using False by (auto simp: i_def)
    have m: "mset ?h = mset h" using i less.prems by (simp add: mset_heap_swap)
    then have "set ?h \<subseteq> A" "distinct ?h" using less.prems by (metis mset_eq_setD, metis mset_eq_imp_distinct_iff)
    moreover have "up_inv (length h) i ?h"
      using up_inv_swap [OF less.prems(1) _ less.prems(3) i_def _ less.prems(4)] False by simp
    ultimately obtain h' where "heap_up cmp i ?h = Some h'" "heap_upto (length h) h'"
      using less.IH [OF i, of ?h] i less.prems by auto
    then show ?thesis
      using False i less.prems heap_less_lt [of h j i] by (auto simp: step)
  qed
qed

lemma heap_Push_heap:
  assumes "set h \<subseteq> A" "x \<in> A" "x \<notin> set h" "distinct h" "heap_upto (length h) h"
  shows "\<exists>h'. heap_Push cmp x h = Some h' \<and> heap_upto (length h') h' \<and> mset h' = add_mset x (mset h)"
proof -
  have "up_inv (length (h @ [x])) (length h) (h @ [x])"
    using assms(5) by (auto simp: up_inv_def heap_upto_def heap_at_def nth_append)
  then obtain h' where h': "heap_up cmp (length h) (h @ [x]) = Some h'" "heap_upto (length (h @ [x])) h'"
    using heap_up_heap [of "h @ [x]" "length h"] assms by auto
  moreover from h'(1) have m: "mset h' = mset (h @ [x])" by (rule heap_up_mset)
  moreover from m have "length h' = length (h @ [x])" by (rule mset_eq_length)
  ultimately show ?thesis
    by (auto simp: heap_Push_def)
qed

lemma down_inv_swap:
  assumes A: "set h \<subseteq> A" and n: "n \<le> length h" and j: "j < n" "0 < j" "(j - 1) div 2 = i"
    and inv: "down_inv n i h" and lt: "lt (h ! j) (h ! i)"
    and min: "\<And>k. 0 < k \<Longrightarrow> k < n \<Longrightarrow> (k - 1) div 2 = i \<Longrightarrow> k \<noteq> j \<Longrightarrow> \<not> lt (h ! k) (h ! j)"
  shows "down_inv n j (heap_swap h i j)"
proof -
  have ij: "i < j" using j by auto
  have mem: "h ! k \<in> A" if "k < n" for k using that A n by (auto dest: nth_mem)
  have sw: "heap_swap h i j ! k = (if k = j then h ! i else if k = i then h ! j else h ! k)" if "k < n" for k
    using that ij j n by (intro nth_heap_swap) auto
  have at: "\<not> lt (h ! k) (h ! ((k - 1) div 2))" if "0 < k" "k < n" "(k - 1) div 2 \<noteq> i" for k
    using inv that by (auto simp: down_inv_def heap_at_def)
  have gp: "\<not> lt (h ! j) (h ! ((i - 1) div 2))" if "0 < i"
    using inv that j by (auto simp: down_inv_def)
  have par: "(k - 1) div 2 < n" if "k < n" for k using that by auto
  have par_less: "(k - 1) div 2 < k" if "0 < k" for k :: nat using that by auto
  have "heap_at (heap_swap h i j) k" if k: "0 < k" "k < n" "(k - 1) div 2 \<noteq> j" for k
    using k par_less [OF k(1)] sw [OF k(2)] sw [OF par [OF k(2)]] at [OF k(1,2)] gp min [OF k(1,2)]
      lt_asym [OF _ _ lt] mem j ij by (auto simp: heap_at_def)
  moreover have "\<not> lt (heap_swap h i j ! c) (heap_swap h i j ! ((j - 1) div 2))"
    if c: "0 < c" "c < n" "(c - 1) div 2 = j" for c
    using sw [OF c(2)] sw [OF par [OF j(1)]] at [OF c(1,2)] c j ij by auto
  ultimately show ?thesis by (simp add: down_inv_def)
qed

lemma child_iff: "0 < k \<Longrightarrow> (k - 1) div 2 = i \<longleftrightarrow> k = 2 * i + 1 \<or> k = 2 * i + (2 :: nat)"
  by auto

lemma heap_down_heap:
  "set h \<subseteq> A \<Longrightarrow> distinct h \<Longrightarrow> n \<le> length h \<Longrightarrow> i < n \<Longrightarrow> down_inv n i h \<Longrightarrow>
    \<exists>k h'. heap_down cmp i n h = Some (k, h') \<and> heap_upto n h'"
proof (induction "n - i" arbitrary: i h rule: less_induct)
  case less
  note prems = less.prems
  let ?j1 = "2 * i + 1"
  have at: "heap_at h k" if "0 < k" "k < n" "(k - 1) div 2 \<noteq> i" for k
    using prems(5) that by (auto simp: down_inv_def)
  have fin: "heap_upto n h" if "\<And>k. 0 < k \<Longrightarrow> k < n \<Longrightarrow> (k - 1) div 2 = i \<Longrightarrow> \<not> lt (h ! k) (h ! i)"
    using that at by (auto simp: heap_upto_def heap_at_def)
  show ?case
  proof (cases "n \<le> ?j1")
    case True
    then have "heap_upto n h" by (intro fin) (auto simp: child_iff)
    then show ?thesis using True by (subst heap_down.simps) (simp add: Let_def)
  next
    case False
    have mem: "h ! k \<in> A" if "k < n" for k using that prems by (auto dest: nth_mem)
    define j where "j = (if ?j1 + 1 < n \<and> lt (h ! (?j1 + 1)) (h ! ?j1) then ?j1 + 1 else ?j1)"
    have dc: "down_child cmp h ?j1 n = Some j"
      using False prems heap_less_lt [of h "?j1 + 1" ?j1] by (auto simp: down_child_def j_def)
    have j: "0 < j" "j < n" "(j - 1) div 2 = i" "j \<noteq> i" using False by (auto simp: j_def)
    have min: "\<not> lt (h ! k) (h ! j)" if "0 < k" "k < n" "(k - 1) div 2 = i" "k \<noteq> j" for k
    proof (cases "?j1 + 1 < n \<and> lt (h ! (?j1 + 1)) (h ! ?j1)")
      case True
      with that have "k = ?j1" by (auto simp: child_iff j_def)
      then show ?thesis using True lt_asym [OF mem mem] by (auto simp: j_def)
    next
      case c: False
      with that have "k = ?j1 + 1" by (auto simp: child_iff j_def)
      with c that show ?thesis by (simp add: j_def)
    qed
    have hl: "heap_less cmp h j i = Some (lt (h ! j) (h ! i))"
      using j prems by (intro heap_less_lt) auto
    have step: "heap_down cmp i n h = (if \<not> lt (h ! j) (h ! i) then Some (i, h) else heap_down cmp j n (heap_swap h i j))"
      using False dc hl by (subst heap_down.simps) (simp add: Let_def)
    show ?thesis
    proof (cases "lt (h ! j) (h ! i)")
      case False
      have "heap_upto n h"
      proof (rule fin)
        fix k assume "0 < k" "k < n" "(k - 1) div 2 = i"
        then show "\<not> lt (h ! k) (h ! i)"
          using min [of k] lt_trans [of "h ! k" "h ! j" "h ! i"] mem [of k] mem [of i] mem [OF j(2)] prems(4) False
          by (cases "k = j") auto
      qed
      then show ?thesis using False step by simp
    next
      case True
      let ?h = "heap_swap h i j"
      have m: "mset ?h = mset h" using j prems by (intro mset_heap_swap) auto
      have "set ?h \<subseteq> A" "distinct ?h" using m prems by (metis mset_eq_setD, metis mset_eq_imp_distinct_iff)
      moreover have "down_inv n j ?h"
        using prems True j min by (intro down_inv_swap) auto
      moreover have "n - j < n - i" using j by auto
      ultimately show ?thesis
        using less.hyps [of j ?h] j prems True step by auto
    qed
  qed
qed

lemma heap_Fix_root:
  assumes "set h \<subseteq> A" "distinct h" "h \<noteq> []" "down_inv (length h) 0 h"
  shows "\<exists>h'. heap_Fix cmp 0 h = Some h' \<and> heap_upto (length h') h' \<and> mset h' = mset h"
proof -
  obtain k h' where h': "heap_down cmp 0 (length h) h = Some (k, h')" "heap_upto (length h) h'"
    using heap_down_heap [of h "length h" 0] assms by auto
  moreover from h'(1) have "mset h' = mset h" by (rule heap_down_mset)
  moreover have "heap_up cmp 0 h' = Some h'" by (subst heap_up.simps) simp
  ultimately show ?thesis by (auto simp: heap_Fix_def dest: mset_eq_length)
qed

lemma heap_root_least:
  assumes A: "set h \<subseteq> A" and heap: "heap_upto (length h) h"
  shows "k < length h \<Longrightarrow> \<not> lt (h ! k) (h ! 0)"
proof (induction k rule: less_induct)
  case (less k)
  have mem: "h ! j \<in> A" if "j < length h" for j using that A by (auto dest: nth_mem)
  show ?case
  proof (cases "k = 0")
    case True
    then show ?thesis using lt_asym [of "h ! 0" "h ! 0"] mem less.prems by blast
  next
    case False
    let ?p = "(k - 1) div 2"
    have p: "?p < k" "?p < length h" "0 < length h" using False less.prems by auto
    have "\<not> lt (h ! k) (h ! ?p)" using heap False less.prems by (auto simp: heap_upto_def heap_at_def)
    then show ?thesis using less.IH [OF p(1,2)] mem less.prems p lt_trans by blast
  qed
qed

end

end
