(* ===== verification/Validator_Set.thy ===== *)
theory Validator_Set
  imports Go_Heap
begin

text \<open>
  Validators and validator sets, \<^verbatim>\<open>consensus/tbft/types/validator.go\<close> and
  \<^verbatim>\<open>validator_set.go\<close>: the saturating arithmetic of accumulators, the proposer rotation
  \<open>IncrementAccum\<close> on the heap of \<^verbatim>\<open>help/heap.go\<close>, look-up by binary search, and the
  operations that change the membership. A public key is its serialised form; the address
  derived from it is a parameter where the code computes it. The heap of \<open>IncrementAccum\<close>
  holds pointers to the validators of the set, here their indices. The field \<open>Proposer\<close> is
  held by value.
\<close>

type_synonym pubkey = bytes

record Validator =
  Address :: bytes
  PubKey :: pubkey
  VotingPower :: int
  Accum :: int

record ValidatorSet =
  Validators :: "Validator list"
  Proposer :: "Validator option"
  totalVotingPower :: int

section \<open>Saturating arithmetic\<close>

definition safeMul :: "int \<Rightarrow> int \<Rightarrow> int \<times> bool" where
  "safeMul a b =
     (if a = 0 \<or> b = 0 then (0, False)
      else if a = 1 then (b, False)
      else if b = 1 then (a, False)
      else if a = MinInt64 \<or> b = MinInt64 then (- 1, True)
      else let c = wrap64 (a * b) in (c, wrap64 (c sdiv b) \<noteq> a))"

definition safeAdd :: "int \<Rightarrow> int \<Rightarrow> int \<times> bool" where
  "safeAdd a b =
     (if b > 0 \<and> a > MaxInt64 - b then (- 1, True)
      else if b < 0 \<and> a < MinInt64 - b then (- 1, True)
      else (wrap64 (a + b), False))"

definition safeSub :: "int \<Rightarrow> int \<Rightarrow> int \<times> bool" where
  "safeSub a b =
     (if b > 0 \<and> a < MinInt64 + b then (- 1, True)
      else if b < 0 \<and> a > MaxInt64 + b then (- 1, True)
      else (wrap64 (a - b), False))"

definition safeMulClip :: "int \<Rightarrow> int \<Rightarrow> int" where
  "safeMulClip a b =
     (let (c, overflow) = safeMul a b
      in if overflow
         then (if (a < 0 \<or> b < 0) \<and> \<not> (a < 0 \<and> b < 0) then MinInt64 else MaxInt64)
         else c)"

definition safeAddClip :: "int \<Rightarrow> int \<Rightarrow> int" where
  "safeAddClip a b =
     (let (c, overflow) = safeAdd a b in if overflow then (if b < 0 then MinInt64 else MaxInt64) else c)"

definition safeSubClip :: "int \<Rightarrow> int \<Rightarrow> int" where
  "safeSubClip a b =
     (let (c, overflow) = safeSub a b in if overflow then (if b > 0 then MinInt64 else MaxInt64) else c)"

section \<open>Validators\<close>

definition NewValidator :: "(pubkey \<Rightarrow> bytes) \<Rightarrow> pubkey \<Rightarrow> int \<Rightarrow> Validator" where
  "NewValidator pk_address pubKey votingPower =
     \<lparr>Address = pk_address pubKey, PubKey = pubKey, VotingPower = votingPower, Accum = 0\<rparr>"

text \<open>The receiver may be nil; two validators with one accumulator and one address panic.\<close>

definition Validator_CompareAccum :: "Validator option \<Rightarrow> Validator \<Rightarrow> Validator option" where
  "Validator_CompareAccum v other =
     (case v of
        None \<Rightarrow> Some other
      | Some v \<Rightarrow>
          if Accum v > Accum other then Some v
          else if Accum v < Accum other then Some other
          else if Address v < Address other then Some v
          else if Address v > Address other then Some other
          else None)"

definition accumComparable_Less :: "Validator \<Rightarrow> Validator \<Rightarrow> bool option" where
  "accumComparable_Less ac other = do {
     larger \<leftarrow> Validator_CompareAccum (Some ac) other;
     Some (Address larger = Address ac)
   }"

section \<open>Validator sets\<close>

text \<open>The total is computed once and cached in the set.\<close>

definition ValidatorSet_TotalVotingPower :: "ValidatorSet \<Rightarrow> int \<times> ValidatorSet" where
  "ValidatorSet_TotalVotingPower valSet =
     (if totalVotingPower valSet = 0
      then let t = foldl (\<lambda>t v. safeAddClip t (VotingPower v)) (totalVotingPower valSet) (Validators valSet)
           in (t, valSet\<lparr>totalVotingPower := t\<rparr>)
      else (totalVotingPower valSet, valSet))"

definition accum_less :: "Validator list \<Rightarrow> nat \<Rightarrow> nat \<Rightarrow> bool option" where
  "accum_less vals i j = accumComparable_Less (vals ! i) (vals ! j)"

text \<open>The bodies of the two loops of \<open>IncrementAccum\<close>.\<close>

definition accum_push :: "int \<Rightarrow> nat \<Rightarrow> Validator list \<times> nat list \<Rightarrow> (Validator list \<times> nat list) option" where
  "accum_push k i s =
     (let (vals, h) = s;
          v = vals ! i;
          vals' = vals[i := v\<lparr>Accum := safeAddClip (Accum v) (safeMulClip (VotingPower v) k)\<rparr>]
      in do { h' \<leftarrow> heap_Push (accum_less vals') i h; Some (vals', h') })"

definition accum_round :: "int \<Rightarrow> nat \<Rightarrow> ValidatorSet \<times> nat list \<Rightarrow> (ValidatorSet \<times> nat list) option" where
  "accum_round k i s =
     (let (valSet, h) = s
      in do {
        m \<leftarrow> heap_Peek h;
        let (power, valSet) = ValidatorSet_TotalVotingPower valSet;
        let mostest = Validators valSet ! m;
        let mostest = mostest\<lparr>Accum := safeSubClip (Accum mostest) power\<rparr>;
        let valSet = valSet\<lparr>Validators := (Validators valSet)[m := mostest]\<rparr>;
        if int i = k - 1 then Some (valSet\<lparr>Proposer := Some mostest\<rparr>, h)
        else do { h' \<leftarrow> heap_Update (accum_less (Validators valSet)) m h; Some (valSet, h') }
      })"

definition ValidatorSet_IncrementAccum :: "u64 \<Rightarrow> ValidatorSet \<Rightarrow> ValidatorSet option" where
  "ValidatorSet_IncrementAccum n valSet =
     (let k = to_int n
      in do {
        (vals, h) \<leftarrow> go_for (accum_push k) [0..<length (Validators valSet)] (Validators valSet, []);
        (valSet', _) \<leftarrow> go_for (accum_round k) [0..<nat k] (valSet\<lparr>Validators := vals\<rparr>, h);
        Some valSet'
      })"

text \<open>
  \<open>sort.Sort\<close> by address, then one rotation. Where two addresses agree Go leaves their order
  open.
\<close>

definition NewValidatorSet :: "Validator list \<Rightarrow> ValidatorSet option" where
  "NewValidatorSet vals =
     (let vs = \<lparr>Validators = sort_key Address vals, Proposer = None, totalVotingPower = 0\<rparr>
      in if 0 < length vals then ValidatorSet_IncrementAccum 1 vs else Some vs)"

definition ValidatorSet_FindValidatorSetProposer ::
  "(pubkey \<Rightarrow> bytes) \<Rightarrow> bytes \<Rightarrow> ValidatorSet \<Rightarrow> ValidatorSet" where
  "ValidatorSet_FindValidatorSetProposer pk_address address valSet =
     (case find (\<lambda>v. pk_address (PubKey v) = address) (Validators valSet) of
        None \<Rightarrow> valSet
      | Some v \<Rightarrow> valSet\<lparr>Proposer := Some v\<rparr>)"

definition ValidatorSet_Copy :: "ValidatorSet \<Rightarrow> ValidatorSet" where
  "ValidatorSet_Copy valSet =
     \<lparr>Validators = Validators valSet, Proposer = Proposer valSet, totalVotingPower = totalVotingPower valSet\<rparr>"

text \<open>\<open>sort.Search\<close>\<close>

function go_search_loop :: "(nat \<Rightarrow> bool) \<Rightarrow> nat \<Rightarrow> nat \<Rightarrow> nat" where
  "go_search_loop f i j =
     (if i < j then let h = (i + j) div 2 in if \<not> f h then go_search_loop f (h + 1) j else go_search_loop f i h
      else i)"
  by pat_completeness auto
termination
  by (relation "measure (\<lambda>(f, i, j). j - i)") auto

declare go_search_loop.simps [simp del]

definition go_search :: "nat \<Rightarrow> (nat \<Rightarrow> bool) \<Rightarrow> nat" where
  "go_search n f = go_search_loop f 0 n"

definition search_address :: "ValidatorSet \<Rightarrow> bytes \<Rightarrow> nat" where
  "search_address valSet address =
     go_search (length (Validators valSet)) (\<lambda>i. address \<le> Address (Validators valSet ! i))"

definition ValidatorSet_HasAddress :: "ValidatorSet \<Rightarrow> bytes \<Rightarrow> bool" where
  "ValidatorSet_HasAddress valSet address =
     (let idx = search_address valSet address
      in idx < length (Validators valSet) \<and> Address (Validators valSet ! idx) = address)"

definition ValidatorSet_MakeIDs :: "(bytes \<Rightarrow> string) \<Rightarrow> ValidatorSet option \<Rightarrow> string set option" where
  "ValidatorSet_MakeIDs hexEncode valSet =
     (case valSet of
        None \<Rightarrow> None
      | Some vs \<Rightarrow> if length (Validators vs) = 0 then None
                   else Some (set (map (\<lambda>v. hexEncode (Address v)) (Validators vs))))"

definition ValidatorSet_GetByAddress :: "ValidatorSet \<Rightarrow> bytes \<Rightarrow> int \<times> Validator option" where
  "ValidatorSet_GetByAddress valSet address =
     (let idx = search_address valSet address
      in if idx < length (Validators valSet) \<and> Address (Validators valSet ! idx) = address
         then (int idx, Some (Validators valSet ! idx))
         else (- 1, None))"

definition ValidatorSet_Size :: "ValidatorSet \<Rightarrow> u64" where
  "ValidatorSet_Size valSet = of_nat (length (Validators valSet))"

definition ValidatorSet_GetByIndex :: "ValidatorSet \<Rightarrow> u64 \<Rightarrow> bytes \<times> Validator option" where
  "ValidatorSet_GetByIndex valSet index =
     (if index \<ge> ValidatorSet_Size valSet then ([], None)
      else let val = Validators valSet ! unat index in (Address val, Some val))"

text \<open>\<open>findProposer\<close> folds \<open>CompareAccum\<close> over the set.\<close>

definition ValidatorSet_findProposer :: "ValidatorSet \<Rightarrow> Validator option option" where
  "ValidatorSet_findProposer valSet =
     go_for (\<lambda>val proposer.
               if (case proposer of None \<Rightarrow> True | Some p \<Rightarrow> Address val \<noteq> Address p)
               then map_option Some (Validator_CompareAccum proposer val)
               else Some proposer)
       (Validators valSet) None"

text \<open>The result is the proposer (nil for an empty set) and the set with the proposer cached.\<close>

definition ValidatorSet_GetProposer :: "ValidatorSet \<Rightarrow> (Validator option \<times> ValidatorSet) option" where
  "ValidatorSet_GetProposer valSet =
     (if length (Validators valSet) = 0 then Some (None, valSet)
      else case Proposer valSet of
             Some p \<Rightarrow> Some (Some p, valSet)
           | None \<Rightarrow> do {
               p \<leftarrow> ValidatorSet_findProposer valSet;
               _ \<leftarrow> go_assert (p \<noteq> None);
               Some (p, valSet\<lparr>Proposer := p\<rparr>)
             })"

definition invalidate :: "ValidatorSet \<Rightarrow> ValidatorSet" where
  "invalidate valSet = valSet\<lparr>Proposer := None, totalVotingPower := 0\<rparr>"

definition ValidatorSet_Add :: "Validator option \<Rightarrow> ValidatorSet \<Rightarrow> bool \<times> ValidatorSet" where
  "ValidatorSet_Add val valSet =
     (case val of
        None \<Rightarrow> (False, valSet)
      | Some val \<Rightarrow>
          let vals = Validators valSet; idx = search_address valSet (Address val)
          in if idx \<ge> length vals then (True, invalidate (valSet\<lparr>Validators := vals @ [val]\<rparr>))
             else if Address (vals ! idx) = Address val then (False, valSet)
             else (True, invalidate (valSet\<lparr>Validators := take idx vals @ [val] @ drop idx vals\<rparr>)))"

definition ValidatorSet_Update :: "Validator \<Rightarrow> ValidatorSet \<Rightarrow> bool \<times> ValidatorSet" where
  "ValidatorSet_Update val valSet =
     (let (index, sameVal) = ValidatorSet_GetByAddress valSet (Address val)
      in if sameVal = None then (False, valSet)
         else (True, invalidate (valSet\<lparr>Validators := (Validators valSet)[nat index := val]\<rparr>)))"

definition ValidatorSet_Remove :: "bytes \<Rightarrow> ValidatorSet \<Rightarrow> (Validator option \<times> bool) \<times> ValidatorSet" where
  "ValidatorSet_Remove address valSet =
     (let vals = Validators valSet; idx = search_address valSet address
      in if idx \<ge> length vals \<or> Address (vals ! idx) \<noteq> address then ((None, False), valSet)
         else ((Some (vals ! idx), True),
               invalidate (valSet\<lparr>Validators :=
                 (if idx + 1 < length vals then take idx vals @ drop (idx + 1) vals else take idx vals)\<rparr>)))"

definition ValidatorSet_RemoveForPK ::
  "(pubkey \<Rightarrow> bytes) \<Rightarrow> pubkey \<Rightarrow> ValidatorSet \<Rightarrow> (Validator option \<times> bool) \<times> ValidatorSet" where
  "ValidatorSet_RemoveForPK pk_address pk valSet = ValidatorSet_Remove (pk_address pk) valSet"

text \<open>\<open>Iterate\<close> calls \<open>fn\<close>, which threads a state, until it asks to stop.\<close>

fun iterate_from :: "(nat \<Rightarrow> Validator \<Rightarrow> 's \<Rightarrow> bool \<times> 's) \<Rightarrow> nat \<Rightarrow> Validator list \<Rightarrow> 's \<Rightarrow> 's" where
  "iterate_from fn i [] s = s"
| "iterate_from fn i (v # vs) s = (let (stop, s') = fn i v s in if stop then s' else iterate_from fn (Suc i) vs s')"

definition ValidatorSet_Iterate :: "(nat \<Rightarrow> Validator \<Rightarrow> 's \<Rightarrow> bool \<times> 's) \<Rightarrow> ValidatorSet \<Rightarrow> 's \<Rightarrow> 's" where
  "ValidatorSet_Iterate fn valSet s = iterate_from fn 0 (Validators valSet) s"

section \<open>Saturation\<close>

text \<open>The nearest machine integer.\<close>

definition clamp64 :: "int \<Rightarrow> int" where
  "clamp64 x = max MinInt64 (min MaxInt64 x)"

lemma clamp64_id: "int64 x \<Longrightarrow> clamp64 x = x"
  by (simp add: clamp64_def int64_def)

lemma int64_clamp64 [simp, intro]: "int64 (clamp64 x)"
  by (simp add: clamp64_def int64_def)

lemma safeAddClip_clamp: "int64 a \<Longrightarrow> int64 b \<Longrightarrow> safeAddClip a b = clamp64 (a + b)"
  by (auto simp: safeAddClip_def safeAdd_def clamp64_def int64_def)

lemma safeSubClip_clamp: "int64 a \<Longrightarrow> int64 b \<Longrightarrow> safeSubClip a b = clamp64 (a - b)"
  by (auto simp: safeSubClip_def safeSub_def clamp64_def int64_def)

text \<open>The quotient test of \<open>safeMul\<close> detects every overflow.\<close>

lemma sdiv_exact_iff:
  assumes b: "b \<noteq> 0" "\<bar>b\<bar> \<le> MaxInt64" and ab: "\<exists>k. a * b = c + k * 18446744073709551616"
  shows "c sdiv b = a \<longleftrightarrow> c = a * (b :: int)"
proof
  assume q: "c sdiv b = a"
  have "c = c sdiv b * b + c smod b" by (simp add: sdiv_mult_smod_eq)
  moreover have "\<bar>c smod b\<bar> < \<bar>b\<bar>" using b(1) by (simp add: signed_modulo_int_def abs_mult)
  moreover from ab obtain k where "a * b = c + k * 18446744073709551616" by blast
  ultimately have "\<bar>k * 18446744073709551616\<bar> \<le> MaxInt64" using q b(2) by simp
  then have "k = 0" by (cases "k = 0") (auto simp: abs_mult)
  with \<open>a * b = _\<close> show "c = a * b" by simp
qed (use b in \<open>auto simp: signed_divide_int_eq_divide_int\<close>)

lemma safeMulClip_clamp:
  assumes "int64 a" "int64 b"
  shows "safeMulClip a b = clamp64 (a * b)"
proof -
  consider "a = 0 \<or> b = 0 \<or> a = 1 \<or> b = 1" | "a \<noteq> 0" "b \<noteq> 0" "a \<noteq> 1" "b \<noteq> 1" "a = MinInt64 \<or> b = MinInt64"
    | "a \<noteq> 0" "b \<noteq> 0" "a \<noteq> 1" "b \<noteq> 1" "a \<noteq> MinInt64" "b \<noteq> MinInt64" by blast
  then show ?thesis
  proof cases
    case 1
    then show ?thesis using assms by (auto simp: safeMulClip_def safeMul_def clamp64_def int64_def)
  next
    case 2
    then show ?thesis using assms by (auto simp: safeMulClip_def safeMul_def clamp64_def int64_def)
  next
    case 3
    let ?c = "wrap64 (a * b)"
    have q: "int64 (?c sdiv b)"
    proof (cases "b = - 1")
      case True
      then show ?thesis using assms 3 by (simp add: int64_def)
    next
      case False
      have "\<bar>?c\<bar> \<le> 9223372036854775808" using wrap64_int64 [of "a * b"] by (auto simp: int64_def)
      moreover have "2 \<le> \<bar>b\<bar>" using 3 False by auto
      ultimately have "\<bar>?c\<bar> div \<bar>b\<bar> \<le> 9223372036854775808 div 2"
        by (meson abs_ge_zero order.trans zdiv_mono1 zdiv_mono2 zero_less_numeral)
      moreover have "0 \<le> \<bar>?c\<bar> div \<bar>b\<bar>" by (simp add: div_int_pos_iff)
      ultimately have "\<bar>?c sdiv b\<bar> \<le> MaxInt64" by (auto simp: signed_divide_int_def abs_mult abs_sgn_eq)
      then show ?thesis by (auto simp: int64_def)
    qed
    have e: "?c sdiv b = a \<longleftrightarrow> ?c = a * b"
      using 3 assms wrap64_cong [of "a * b"] by (intro sdiv_exact_iff) (auto simp: int64_def)
    have i: "?c = a * b \<longleftrightarrow> int64 (a * b)" by (metis wrap64_id wrap64_int64)
    have sign: "(a * b < 0) = ((a < 0 \<or> b < 0) \<and> \<not> (a < 0 \<and> b < 0))"
      using 3 by (auto simp: mult_less_0_iff)
    have "safeMul a b = (?c, \<not> int64 (a * b))"
      using 3 e i wrap64_id [OF q] by (simp add: safeMul_def Let_def)
    then have "safeMulClip a b = (if int64 (a * b) then a * b else if a * b < 0 then MinInt64 else MaxInt64)"
      unfolding safeMulClip_def sign using i by simp
    then show ?thesis by (auto simp: clamp64_def int64_def)
  qed
qed

section \<open>Look-up\<close>

lemma go_search_loop_least:
  assumes "\<And>k l. k \<le> l \<Longrightarrow> l < n \<Longrightarrow> f k \<Longrightarrow> f l"
  shows "i \<le> j \<Longrightarrow> j \<le> n \<Longrightarrow> (\<forall>k < i. \<not> f k) \<Longrightarrow> (\<forall>k. j \<le> k \<longrightarrow> k < n \<longrightarrow> f k) \<Longrightarrow>
    go_search_loop f i j \<le> n \<and> (\<forall>k < n. f k \<longleftrightarrow> go_search_loop f i j \<le> k)"
proof (induction "j - i" arbitrary: i j rule: less_induct)
  case less
  show ?case
  proof (cases "i < j")
    case False
    with less.prems show ?thesis by (subst (1 2) go_search_loop.simps) (auto intro: leI)
  next
    case True
    let ?h = "(i + j) div 2"
    have h: "i \<le> ?h" "?h < j" using True by auto
    show ?thesis
    proof (cases "f ?h")
      case f: True
      then have "\<forall>k. ?h \<le> k \<longrightarrow> k < n \<longrightarrow> f k" using assms by blast
      with less.hyps [of ?h i] less.prems h True f show ?thesis
        by (subst (1 2) go_search_loop.simps) (simp add: Let_def)
    next
      case f: False
      then have "\<forall>k < ?h + 1. \<not> f k" using assms [of _ ?h] h less.prems by (auto simp: less_Suc_eq_le)
      with less.hyps [of j "?h + 1"] less.prems h True f show ?thesis
        by (subst (1 2) go_search_loop.simps) (simp add: Let_def)
    qed
  qed
qed

lemma go_search_least:
  assumes "\<And>k l. k \<le> l \<Longrightarrow> l < n \<Longrightarrow> f k \<Longrightarrow> f l"
  shows "go_search n f \<le> n \<and> (\<forall>k < n. f k \<longleftrightarrow> go_search n f \<le> k)"
  using go_search_loop_least [where n = n and f = f and i = 0 and j = n] assms by (auto simp: go_search_def)

text \<open>Well-formed sets are strictly ordered by address, as the comment on \<open>ValidatorSet\<close> says.\<close>

definition vs_ordered :: "ValidatorSet \<Rightarrow> bool" where
  "vs_ordered vs \<longleftrightarrow> sorted_wrt (<) (map Address (Validators vs))"

lemma vs_ordered_nth: "vs_ordered vs \<Longrightarrow> i < j \<Longrightarrow> j < length (Validators vs) \<Longrightarrow>
    Address (Validators vs ! i) < Address (Validators vs ! j)"
  by (auto simp: vs_ordered_def sorted_wrt_iff_nth_less)

lemma vs_ordered_distinct: "vs_ordered vs \<Longrightarrow> distinct (map Address (Validators vs))"
  unfolding vs_ordered_def by (simp add: strict_sorted_iff)

lemma search_address_least:
  assumes "vs_ordered vs"
  shows "search_address vs a \<le> length (Validators vs)"
    and "k < length (Validators vs) \<Longrightarrow> a \<le> Address (Validators vs ! k) \<longleftrightarrow> search_address vs a \<le> k"
proof -
  have "a \<le> Address (Validators vs ! l)"
    if "k \<le> l" "l < length (Validators vs)" "a \<le> Address (Validators vs ! k)" for k l
    using vs_ordered_nth [OF assms, of k l] that by (cases "k = l") auto
  then have "search_address vs a \<le> length (Validators vs) \<and>
    (\<forall>k < length (Validators vs). a \<le> Address (Validators vs ! k) \<longleftrightarrow> search_address vs a \<le> k)"
    unfolding search_address_def by (rule go_search_least)
  then show "search_address vs a \<le> length (Validators vs)"
    and "k < length (Validators vs) \<Longrightarrow> a \<le> Address (Validators vs ! k) \<longleftrightarrow> search_address vs a \<le> k" by auto
qed

lemma search_address_found:
  assumes vs: "vs_ordered vs" and k: "k < length (Validators vs)"
  shows "search_address vs (Address (Validators vs ! k)) = k"
proof (rule antisym)
  let ?a = "Address (Validators vs ! k)"
  show le: "search_address vs ?a \<le> k" using search_address_least(2) [OF vs k] by auto
  show "k \<le> search_address vs ?a"
  proof (rule ccontr)
    assume *: "\<not> k \<le> search_address vs ?a"
    with le k have "?a \<le> Address (Validators vs ! search_address vs ?a)"
      using search_address_least(2) [OF vs, of "search_address vs ?a"] by auto
    with vs_ordered_nth [OF vs, of "search_address vs ?a" k] * k show False by auto
  qed
qed

section \<open>Membership as a finite map\<close>

text \<open>
  The interface of a keyed table: what a look-up returns after each operation. A set of
  validators is a table from addresses to validators.
\<close>

locale keyed_table =
  fixes invar :: "'t \<Rightarrow> bool" and lookup :: "'t \<Rightarrow> 'k \<Rightarrow> 'v option" and key :: "'v \<Rightarrow> 'k"
    and add :: "'v \<Rightarrow> 't \<Rightarrow> bool \<times> 't" and update :: "'v \<Rightarrow> 't \<Rightarrow> bool \<times> 't"
    and remove :: "'k \<Rightarrow> 't \<Rightarrow> ('v option \<times> bool) \<times> 't"
  assumes lookup_key: "invar t \<Longrightarrow> lookup t k = Some v \<Longrightarrow> key v = k"
    and add_fresh: "invar t \<Longrightarrow> lookup t (key v) = None \<Longrightarrow>
      fst (add v t) \<and> invar (snd (add v t)) \<and> lookup (snd (add v t)) = (lookup t)(key v \<mapsto> v)"
    and add_present: "invar t \<Longrightarrow> lookup t (key v) \<noteq> None \<Longrightarrow> add v t = (False, t)"
    and update_present: "invar t \<Longrightarrow> lookup t (key v) \<noteq> None \<Longrightarrow>
      fst (update v t) \<and> invar (snd (update v t)) \<and> lookup (snd (update v t)) = (lookup t)(key v \<mapsto> v)"
    and update_absent: "invar t \<Longrightarrow> lookup t (key v) = None \<Longrightarrow> update v t = (False, t)"
    and remove_spec: "invar t \<Longrightarrow> fst (remove k t) = (lookup t k, lookup t k \<noteq> None) \<and>
      invar (snd (remove k t)) \<and> lookup (snd (remove k t)) = (lookup t)(k := None)"
begin

lemma add_remove:
  assumes "invar t" "lookup t (key v) = None"
  shows "fst (remove (key v) (snd (add v t))) = (Some v, True)"
    and "lookup (snd (remove (key v) (snd (add v t)))) = lookup t"
  using add_fresh [OF assms] remove_spec [of "snd (add v t)" "key v"] assms(2) by auto

lemma update_idem:
  assumes "invar t" "lookup t (key v) \<noteq> None"
  shows "lookup (snd (update v (snd (update v t)))) = lookup (snd (update v t))"
  using update_present [OF assms] update_present [of "snd (update v t)" v] by auto

lemma add_commute:
  assumes "invar t" "lookup t (key v) = None" "lookup t (key w) = None" "key v \<noteq> key w"
  shows "lookup (snd (add v (snd (add w t)))) = lookup (snd (add w (snd (add v t))))"
  using add_fresh [OF assms(1,2)] add_fresh [OF assms(1,3)] add_fresh [of "snd (add w t)" v]
    add_fresh [of "snd (add v t)" w] assms by (auto simp: fun_upd_twist)

end

definition vs_lookup :: "ValidatorSet \<Rightarrow> bytes \<Rightarrow> Validator option" where
  "vs_lookup vs a = map_of (map (\<lambda>v. (Address v, v)) (Validators vs)) a"

lemma vs_lookup_iff:
  assumes "vs_ordered vs"
  shows "vs_lookup vs a = Some v \<longleftrightarrow> v \<in> set (Validators vs) \<and> Address v = a"
proof -
  have "map fst (map (\<lambda>v. (Address v, v)) (Validators vs)) = map Address (Validators vs)" by simp
  then have "distinct (map fst (map (\<lambda>v. (Address v, v)) (Validators vs)))"
    using vs_ordered_distinct [OF assms] by metis
  then show ?thesis by (auto simp: vs_lookup_def map_of_eq_Some_iff)
qed

lemma vs_lookup_None: "vs_lookup vs a = None \<longleftrightarrow> (\<forall>v \<in> set (Validators vs). Address v \<noteq> a)"
  by (auto simp: vs_lookup_def map_of_eq_None_iff image_image)

lemma search_address_cases:
  assumes "vs_ordered vs"
  obtains k where "k < length (Validators vs)" "search_address vs a = k" "Address (Validators vs ! k) = a"
      "vs_lookup vs a = Some (Validators vs ! k)"
  | "vs_lookup vs a = None" "\<not> (search_address vs a < length (Validators vs) \<and> Address (Validators vs ! search_address vs a) = a)"
proof (cases "vs_lookup vs a")
  case None
  then show ?thesis using that(2) by (auto simp: vs_lookup_None)
next
  case (Some v)
  then obtain k where "k < length (Validators vs)" "Validators vs ! k = v" "Address v = a"
    using vs_lookup_iff [OF assms] by (auto simp: in_set_conv_nth)
  then show ?thesis using that(1) [of k] search_address_found [OF assms, of k] Some by auto
qed

lemma GetByAddress_lookup:
  assumes "vs_ordered vs"
  shows "snd (ValidatorSet_GetByAddress vs a) = vs_lookup vs a"
    and "fst (ValidatorSet_GetByAddress vs a) = (if vs_lookup vs a = None then - 1 else int (search_address vs a))"
  by (rule search_address_cases [OF assms, of a]; force simp: ValidatorSet_GetByAddress_def Let_def)+

lemma invalidate_simps [simp]:
  "Validators (invalidate vs) = Validators vs" "Proposer (invalidate vs) = None" "totalVotingPower (invalidate vs) = 0"
  "vs_ordered (invalidate vs) = vs_ordered vs" "vs_lookup (invalidate vs) = vs_lookup vs"
  by (simp_all add: invalidate_def vs_ordered_def vs_lookup_def fun_eq_iff)

lemma insert_ordered:
  assumes vs: "vs_ordered vs" and new: "vs_lookup vs (Address v) = None"
    and ins: "Validators vs' = take (search_address vs (Address v)) (Validators vs) @ [v] @
      drop (search_address vs (Address v)) (Validators vs)"
  shows "vs_ordered vs'" and "vs_lookup vs' = (vs_lookup vs)(Address v \<mapsto> v)"
proof -
  let ?s = "search_address vs (Address v)" and ?l = "Validators vs"
  have s: "?s \<le> length ?l" by (rule search_address_least(1) [OF vs])
  have lo: "Address x < Address v" if "x \<in> set (take ?s ?l)" for x
  proof -
    obtain k where "k < ?s" "k < length ?l" "x = ?l ! k" using \<open>x \<in> _\<close> by (auto simp: in_set_conv_nth)
    then show ?thesis using search_address_least(2) [OF vs, of k "Address v"] by auto
  qed
  have hi: "Address v < Address x" if "x \<in> set (drop ?s ?l)" for x
  proof -
    obtain k where k: "?s \<le> k" "k < length ?l" "x = ?l ! k"
      using \<open>x \<in> _\<close> s by (auto simp: in_set_conv_nth) (metis add.commute le_add1 less_diff_conv)
    then have "Address v \<le> Address x" using search_address_least(2) [OF vs, of k "Address v"] by auto
    moreover have "Address x \<noteq> Address v" using new k by (auto simp: vs_lookup_None)
    ultimately show ?thesis by simp
  qed
  have "sorted_wrt (<) (map Address (take ?s ?l @ drop ?s ?l))" using vs by (simp add: vs_ordered_def)
  then show ord: "vs_ordered vs'"
    using lo hi unfolding vs_ordered_def ins by (auto simp: sorted_wrt_append simp del: append_take_drop_id)
  have "set (Validators vs') = insert v (set ?l)" unfolding ins
    by (metis (no_types, lifting) append_take_drop_id list.simps(15) set_append Un_insert_right append_Cons append_Nil)
  then have "vs_lookup vs' a = Some w \<longleftrightarrow> ((vs_lookup vs)(Address v \<mapsto> v)) a = Some w" for a w
    using vs_lookup_iff [OF ord] vs_lookup_iff [OF vs] new by (auto simp: vs_lookup_None)
  then show "vs_lookup vs' = (vs_lookup vs)(Address v \<mapsto> v)"
    by (metis (no_types, opaque_lifting) ext not_Some_eq)
qed

lemma Add_fresh:
  assumes "vs_ordered vs" "vs_lookup vs (Address v) = None"
  shows "fst (ValidatorSet_Add (Some v) vs)" "vs_ordered (snd (ValidatorSet_Add (Some v) vs))"
    "vs_lookup (snd (ValidatorSet_Add (Some v) vs)) = (vs_lookup vs)(Address v \<mapsto> v)"
proof -
  let ?s = "search_address vs (Address v)" and ?vs = "snd (ValidatorSet_Add (Some v) vs)"
  have "Address (Validators vs ! ?s) \<noteq> Address v" if "?s < length (Validators vs)"
    using that assms(2) by (auto simp: vs_lookup_None)
  then show "fst (ValidatorSet_Add (Some v) vs)"
    by (auto simp: ValidatorSet_Add_def Let_def)
  have "Validators ?vs = take ?s (Validators vs) @ [v] @ drop ?s (Validators vs)"
    using search_address_least(1) [OF assms(1), of "Address v"] \<open>_ \<Longrightarrow> Address _ \<noteq> _\<close>
    by (auto simp: ValidatorSet_Add_def Let_def)
  from insert_ordered [OF assms this] show "vs_ordered ?vs" "vs_lookup ?vs = (vs_lookup vs)(Address v \<mapsto> v)" .
qed

lemma Add_present:
  assumes "vs_ordered vs" "vs_lookup vs (Address v) \<noteq> None"
  shows "ValidatorSet_Add (Some v) vs = (False, vs)"
  by (rule search_address_cases [OF assms(1), of "Address v"])
    (use assms(2) in \<open>auto simp: ValidatorSet_Add_def Let_def\<close>)

lemma lookup_eqI:
  assumes "vs_ordered vs'"
    and "\<And>w. w \<in> set (Validators vs') \<longleftrightarrow> m (Address w) = Some w" and "\<And>a w. m a = Some w \<Longrightarrow> Address w = a"
  shows "vs_lookup vs' = m"
proof -
  have "vs_lookup vs' a = Some w \<longleftrightarrow> m a = Some w" for a w
    using vs_lookup_iff [OF assms(1)] assms(2,3) by auto
  then show ?thesis by (metis (no_types, opaque_lifting) ext not_Some_eq)
qed

lemma Update_present:
  assumes vs: "vs_ordered vs" and old: "vs_lookup vs (Address v) \<noteq> None"
  shows "fst (ValidatorSet_Update v vs)" "vs_ordered (snd (ValidatorSet_Update v vs))"
    "vs_lookup (snd (ValidatorSet_Update v vs)) = (vs_lookup vs)(Address v \<mapsto> v)"
proof -
  let ?vs = "snd (ValidatorSet_Update v vs)" and ?l = "Validators vs"
  obtain k where k: "k < length ?l" "search_address vs (Address v) = k" "Address (?l ! k) = Address v"
    using search_address_cases [OF vs, of "Address v"] old by metis
  then have V: "Validators ?vs = ?l[k := v]" and fst: "fst (ValidatorSet_Update v vs)"
    by (simp_all add: ValidatorSet_Update_def ValidatorSet_GetByAddress_def)
  show "fst (ValidatorSet_Update v vs)" by (rule fst)
  have "map Address (?l[k := v]) = map Address ?l" using k by (simp add: map_update list_update_id)
    (metis list_update_id nth_map)
  then show ord: "vs_ordered ?vs" using vs V by (simp add: vs_ordered_def)
  have other: "Address w \<noteq> Address v" if "i < length ?l" "i \<noteq> k" "w = ?l ! i" for i w
    using search_address_found [OF vs that(1)] that k by auto
  have mem: "w \<in> set (?l[k := v]) \<longleftrightarrow> w = v \<or> (\<exists>i < length ?l. i \<noteq> k \<and> w = ?l ! i)" for w
    using k(1) by (auto simp: in_set_conv_nth nth_list_update split: if_splits)
  show "vs_lookup ?vs = (vs_lookup vs)(Address v \<mapsto> v)"
  proof (rule lookup_eqI [OF ord])
    fix w
    show "w \<in> set (Validators ?vs) \<longleftrightarrow> ((vs_lookup vs)(Address v \<mapsto> v)) (Address w) = Some w"
      unfolding V mem using vs_lookup_iff [OF vs] other k by (auto simp: in_set_conv_nth)
  qed (use vs_lookup_iff [OF vs] in \<open>auto split: if_splits\<close>)
qed

lemma Update_absent:
  assumes "vs_ordered vs" "vs_lookup vs (Address v) = None"
  shows "ValidatorSet_Update v vs = (False, vs)"
  by (simp add: ValidatorSet_Update_def split_beta GetByAddress_lookup(1) [OF assms(1)] assms(2))

lemma Remove_spec:
  assumes vs: "vs_ordered vs"
  shows "fst (ValidatorSet_Remove a vs) = (vs_lookup vs a, vs_lookup vs a \<noteq> None)"
    "vs_ordered (snd (ValidatorSet_Remove a vs))"
    "vs_lookup (snd (ValidatorSet_Remove a vs)) = (vs_lookup vs)(a := None)"
proof (atomize (full), rule search_address_cases [OF vs, of a], goal_cases)
  case (1 k)
  let ?vs = "snd (ValidatorSet_Remove a vs)" and ?l = "Validators vs"
  have V: "Validators ?vs = take k ?l @ drop (Suc k) ?l"
    and fst: "fst (ValidatorSet_Remove a vs) = (vs_lookup vs a, vs_lookup vs a \<noteq> None)"
    using 1 by (auto simp: ValidatorSet_Remove_def Let_def)
  have split: "?l = take k ?l @ ?l ! k # drop (Suc k) ?l" using 1(1) by (rule id_take_nth_drop)
  have "sorted_wrt (<) (map Address (take k ?l @ ?l ! k # drop (Suc k) ?l))"
    using vs split by (simp add: vs_ordered_def)
  then have ord: "vs_ordered ?vs" unfolding vs_ordered_def V by (auto simp: sorted_wrt_append)
  have rest: "Address w \<noteq> a" if "w \<in> set (take k ?l @ drop (Suc k) ?l)" for w
    using vs_ordered_distinct [OF vs] that 1(3) by (subst (asm) split) (auto simp: rev_image_eqI)
  have mem: "w \<in> set ?l \<longleftrightarrow> w = ?l ! k \<or> w \<in> set (take k ?l @ drop (Suc k) ?l)" for w
    by (subst split) auto
  have "vs_lookup ?vs = (vs_lookup vs)(a := None)"
  proof (rule lookup_eqI [OF ord])
    fix w
    show "w \<in> set (Validators ?vs) \<longleftrightarrow> ((vs_lookup vs)(a := None)) (Address w) = Some w"
      unfolding V using vs_lookup_iff [OF vs, of "Address w" w] mem [of w] rest [of w] 1(3) by auto
  qed (use vs_lookup_iff [OF vs] in \<open>auto split: if_splits\<close>)
  with ord fst show ?case by simp
next
  case 2
  then show ?case using vs by (auto simp: ValidatorSet_Remove_def Let_def not_less)
qed

interpretation vt: keyed_table vs_ordered vs_lookup Address "\<lambda>v. ValidatorSet_Add (Some v)"
  ValidatorSet_Update ValidatorSet_Remove
  by unfold_locales (simp_all add: vs_lookup_iff Add_fresh Add_present Update_present Update_absent Remove_spec)

section \<open>Properties\<close>

text \<open>
  C21: on a set ordered by address the membership operations implement a finite map from
  addresses to validators: \<open>GetByAddress\<close> and \<open>HasAddress\<close> find exactly the members, \<open>Add\<close>
  inserts a new address and refuses a known one, \<open>Update\<close> replaces a known one, \<open>Remove\<close> returns
  and deletes; the order is kept and the cached proposer and total are dropped by each change.
\<close>

theorem membership_is_a_map:
  assumes "vs_ordered vs"
  shows "snd (ValidatorSet_GetByAddress vs a) = vs_lookup vs a \<and>
    (ValidatorSet_HasAddress vs a \<longleftrightarrow> vs_lookup vs a \<noteq> None) \<and>
    ValidatorSet_Add (Some v) vs =
      (if vs_lookup vs (Address v) = None then (True, snd (ValidatorSet_Add (Some v) vs)) else (False, vs)) \<and>
    vs_ordered (snd (ValidatorSet_Add (Some v) vs)) \<and>
    vs_lookup (snd (ValidatorSet_Add (Some v) vs)) =
      (if vs_lookup vs (Address v) = None then (vs_lookup vs)(Address v \<mapsto> v) else vs_lookup vs) \<and>
    fst (ValidatorSet_Update v vs) = (vs_lookup vs (Address v) \<noteq> None) \<and>
    vs_ordered (snd (ValidatorSet_Update v vs)) \<and>
    vs_lookup (snd (ValidatorSet_Update v vs)) =
      (if vs_lookup vs (Address v) = None then vs_lookup vs else (vs_lookup vs)(Address v \<mapsto> v)) \<and>
    fst (ValidatorSet_Remove a vs) = (vs_lookup vs a, vs_lookup vs a \<noteq> None) \<and>
    vs_ordered (snd (ValidatorSet_Remove a vs)) \<and>
    vs_lookup (snd (ValidatorSet_Remove a vs)) = (vs_lookup vs)(a := None) \<and>
    (fst (ValidatorSet_Update v vs) \<longrightarrow> Proposer (snd (ValidatorSet_Update v vs)) = None \<and>
      totalVotingPower (snd (ValidatorSet_Update v vs)) = 0)"
proof -
  have "ValidatorSet_HasAddress vs a \<longleftrightarrow> vs_lookup vs a \<noteq> None"
    by (rule search_address_cases [OF assms, of a]) (auto simp: ValidatorSet_HasAddress_def Let_def)
  moreover have "fst (ValidatorSet_Update v vs) \<longrightarrow> Proposer (snd (ValidatorSet_Update v vs)) = None \<and>
      totalVotingPower (snd (ValidatorSet_Update v vs)) = 0"
    by (auto simp: ValidatorSet_Update_def split_beta)
  ultimately show ?thesis
    using assms vt.add_present [OF assms, of v] vt.add_fresh [OF assms, of v] vt.update_present [OF assms, of v]
      vt.update_absent [OF assms, of v] vt.remove_spec [OF assms, of a]
    by (cases "vs_lookup vs (Address v) = None") (simp_all add: GetByAddress_lookup(1) prod_eq_iff)
qed

theorem membership_is_a_map_witness:
  "vs_lookup (snd (ValidatorSet_Add (Some \<lparr>Address = [2], PubKey = [7], VotingPower = 1, Accum = 0\<rparr>)
      \<lparr>Validators = [\<lparr>Address = [1], PubKey = [8], VotingPower = 1, Accum = 0\<rparr>], Proposer = None, totalVotingPower = 0\<rparr>)) [2]
    = Some \<lparr>Address = [2], PubKey = [7], VotingPower = 1, Accum = 0\<rparr>"
  using membership_is_a_map [of "\<lparr>Validators = [\<lparr>Address = [1], PubKey = [8], VotingPower = 1, Accum = 0\<rparr>],
      Proposer = None, totalVotingPower = 0\<rparr>" "[2]" "\<lparr>Address = [2], PubKey = [7], VotingPower = 1, Accum = 0\<rparr>"]
  by (simp add: vs_ordered_def vs_lookup_def)

text \<open>
  C40: saturation. On 64-bit arguments the three saturating operations return the machine integer nearest to
  the exact result.
\<close>

theorem safe_ops_saturate:
  assumes "int64 a" "int64 b"
  shows "safeAddClip a b = clamp64 (a + b) \<and> safeSubClip a b = clamp64 (a - b) \<and> safeMulClip a b = clamp64 (a * b)"
  using assms by (simp add: safeAddClip_clamp safeSubClip_clamp safeMulClip_clamp)

theorem safe_ops_saturate_witness:
  "safeMulClip MinInt64 (- 1) = MaxInt64 \<and> safeAddClip MinInt64 (- 1) = MinInt64"
  using safe_ops_saturate [of MinInt64 "- 1"] by (simp add: int64_def clamp64_def)

end
