(* ===== verification/Proposer_Rotation.thy ===== *)
theory Proposer_Rotation
  imports Validator_Set
begin

text \<open>
  The proposer rotation \<open>IncrementAccum\<close> of \<^verbatim>\<open>consensus/tbft/types/validator_set.go\<close>: the heap
  implementation picks the same validators as a linear scan for the largest accumulator, never
  panics on a non-empty set with distinct addresses, and conserves the sum of the accumulators.
\<close>

section \<open>Proposer rotation\<close>

text \<open>The priority of the rotation: the larger accumulator, the smaller address on a tie.\<close>

definition higher :: "Validator \<Rightarrow> Validator \<Rightarrow> bool" where
  "higher v w \<longleftrightarrow> Accum v > Accum w \<or> Accum v = Accum w \<and> Address v < Address w"

lemma CompareAccum_higher:
  "Address v \<noteq> Address w \<Longrightarrow> Validator_CompareAccum (Some v) w = Some (if higher v w then v else w)"
  by (auto simp: Validator_CompareAccum_def higher_def)

lemma Less_higher: "Address v \<noteq> Address w \<Longrightarrow> accumComparable_Less v w = Some (higher v w)"
  by (simp add: accumComparable_Less_def CompareAccum_higher)

lemma higher_asym: "higher v w \<Longrightarrow> \<not> higher w v"
  by (auto simp: higher_def)

lemma higher_trans: "\<not> higher u v \<Longrightarrow> \<not> higher v w \<Longrightarrow> \<not> higher u w"
  by (auto simp: higher_def)

definition accum_dom :: "Validator list \<Rightarrow> nat set" where
  "accum_dom vals = (if distinct (map Address vals) then {..<length vals} else {})"

interpretation acc: heap_order "accum_less vals" "\<lambda>i j. higher (vals ! i) (vals ! j)" "accum_dom vals" for vals
proof
  fix x y
  assume "x \<in> accum_dom vals" "y \<in> accum_dom vals" "x \<noteq> y"
  then have "Address (vals ! x) \<noteq> Address (vals ! y)"
    by (auto simp: accum_dom_def distinct_conv_nth split: if_splits)
  then show "accum_less vals x y = Some (higher (vals ! x) (vals ! y))"
    by (simp add: accum_less_def Less_higher)
qed (auto dest: higher_asym higher_trans)

text \<open>A heap of indices, and the reference: the best validator found by a linear scan.\<close>

definition accum_heap :: "Validator list \<Rightarrow> nat list \<Rightarrow> bool" where
  "accum_heap vals h \<longleftrightarrow> (\<forall>k. 0 < k \<longrightarrow> k < length h \<longrightarrow> \<not> higher (vals ! (h ! k)) (vals ! (h ! ((k - 1) div 2))))"

definition select_best :: "Validator list \<Rightarrow> nat" where
  "select_best vals = foldl (\<lambda>m j. if higher (vals ! j) (vals ! m) then j else m) 0 [0..<length vals]"

definition boost :: "int \<Rightarrow> Validator \<Rightarrow> Validator" where
  "boost k v = v\<lparr>Accum := safeAddClip (Accum v) (safeMulClip (VotingPower v) k)\<rparr>"

definition charge :: "int \<Rightarrow> nat \<Rightarrow> Validator list \<Rightarrow> Validator list" where
  "charge p m vals = vals[m := (vals ! m)\<lparr>Accum := safeSubClip (Accum (vals ! m)) p\<rparr>]"

fun rotate_ref :: "int \<Rightarrow> nat \<Rightarrow> Validator list \<Rightarrow> Validator list \<times> Validator option" where
  "rotate_ref p 0 vals = (vals, None)"
| "rotate_ref p (Suc n) vals =
     (let m = select_best vals; vals' = charge p m vals
      in if n = 0 then (vals', Some (vals' ! m)) else rotate_ref p n vals')"

lemma accum_heap_upto: "acc.heap_upto vals (length h) h = accum_heap vals h"
  by (simp add: acc.heap_upto_def acc.heap_at_def accum_heap_def)

lemma select_best_upto:
  "0 < n \<Longrightarrow> foldl (\<lambda>m j. if higher (vals ! j) (vals ! m) then j else m) 0 [0..<n] < n \<and>
    (\<forall>j < n. \<not> higher (vals ! j) (vals ! foldl (\<lambda>m j. if higher (vals ! j) (vals ! m) then j else m) 0 [0..<n]))"
proof (induction n)
  case (Suc n)
  let ?m = "foldl (\<lambda>m j. if higher (vals ! j) (vals ! m) then j else m) 0 [0..<n]"
  have irrefl: "\<not> higher v v" for v using higher_asym by blast
  show ?case
  proof (cases "n = 0")
    case True
    then show ?thesis using irrefl by simp
  next
    case False
    with Suc.IH have m: "?m < n" "\<And>j. j < n \<Longrightarrow> \<not> higher (vals ! j) (vals ! ?m)" by auto
    show ?thesis
    proof (cases "higher (vals ! n) (vals ! ?m)")
      case True
      then have "\<not> higher (vals ! j) (vals ! n)" if "j < n" for j
        using higher_trans [OF m(2) [OF that] higher_asym] by blast
      with True irrefl show ?thesis by (auto simp: less_Suc_eq)
    next
      case False
      with m show ?thesis by (auto simp: less_Suc_eq)
    qed
  qed
qed simp

lemma select_best_best:
  assumes "vals \<noteq> []"
  shows "select_best vals < length vals" "j < length vals \<Longrightarrow> \<not> higher (vals ! j) (vals ! select_best vals)"
  using select_best_upto [of "length vals" vals] assms by (auto simp: select_best_def)

lemma select_best_unique:
  assumes "distinct (map Address vals)" "m < length vals" "\<And>j. j < length vals \<Longrightarrow> \<not> higher (vals ! j) (vals ! m)"
  shows "m = select_best vals"
proof -
  let ?b = "select_best vals"
  have "vals \<noteq> []" using assms(2) by auto
  then have b: "?b < length vals" "\<not> higher (vals ! m) (vals ! ?b)"
    using select_best_best assms(2) by blast+
  with assms(3) [of ?b] have "Address (vals ! m) = Address (vals ! ?b)"
    unfolding higher_def by (metis linorder_neqE)
  then have "map Address vals ! m = map Address vals ! ?b" using b(1) assms(2) by simp
  then show ?thesis using nth_eq_iff_index_eq [OF assms(1)] b(1) assms(2) by simp
qed

lemma heap_peek_best:
  assumes "distinct (map Address vals)" "mset h = mset [0..<length vals]" "accum_heap vals h" "vals \<noteq> []"
  shows "heap_Peek h = Some (select_best vals)"
proof -
  have set: "set h = {..<length vals}" using mset_eq_setD [OF assms(2)] by (simp add: atLeast0LessThan)
  have ne: "h \<noteq> []"
  proof
    assume "h = []"
    with set have "{..<length vals} = {}" by simp
    with assms(4) show False by (simp only: lessThan_empty_iff length_0_conv bot_nat_def)
  qed
  have "\<not> higher (vals ! j) (vals ! (h ! 0))" if j: "j < length vals" for j
  proof -
    from set j obtain k where "k < length h" "h ! k = j" 
      using in_set_conv_nth [of j h] by auto
    moreover have "set h \<subseteq> accum_dom vals" using set assms(1) by (simp add: accum_dom_def)
    ultimately show ?thesis
      using acc.heap_root_least [of h vals k] assms(3) by (simp add: accum_heap_upto)
  qed
  moreover have "h ! 0 < length vals" using nth_mem [of 0 h] ne unfolding set by simp
  ultimately have "h ! 0 = select_best vals" using assms(1) by (intro select_best_unique) auto
  then show ?thesis using ne by (cases h) (simp_all add: heap_Peek_def)
qed

lemma accum_heap_cong:
  "(\<And>i. i \<in> set h \<Longrightarrow> vals ! i = vals' ! i) \<Longrightarrow> accum_heap vals h = accum_heap vals' h"
proof -
  assume eq: "\<And>i. i \<in> set h \<Longrightarrow> vals ! i = vals' ! i"
  have "vals ! (h ! k) = vals' ! (h ! k)" if "k < length h" for k using eq that by simp
  moreover have "(k - 1) div 2 < length h" if "k < length h" for k using that by auto
  ultimately show ?thesis unfolding accum_heap_def by metis
qed

lemma Address_boost [simp]: "Address (boost k v) = Address v"
  by (simp add: boost_def)

lemma nth_list_update': "i < length xs \<Longrightarrow> xs[m := x] ! i = (if i = m then x else xs ! i)"
  by (cases "m < length xs") (auto simp: nth_list_update)

lemma map_Address_charge [simp]: "map Address (charge p m vals) = map Address vals"
  by (rule nth_equalityI) (auto simp: charge_def nth_list_update')

lemma length_charge [simp]: "length (charge p m vals) = length vals"
  by (simp add: charge_def)

text \<open>The first loop: a prefix of the set is boosted and its indices form a heap.\<close>

definition push_inv :: "int \<Rightarrow> Validator list \<Rightarrow> nat \<Rightarrow> Validator list \<times> nat list \<Rightarrow> bool" where
  "push_inv k vals i s \<longleftrightarrow>
     fst s = map (boost k) (take i vals) @ drop i vals \<and> mset (snd s) = mset [0..<i] \<and> accum_heap (fst s) (snd s)"

lemma accum_push_step:
  assumes d: "distinct (map Address vals)" and i: "i < length vals" and inv: "push_inv k vals i s"
  shows "\<exists>t. accum_push k i s = Some t \<and> push_inv k vals (Suc i) t"
proof -
  obtain cur h where s: "s = (cur, h)" by (cases s)
  define cur' where "cur' = cur[i := boost k (cur ! i)]"
  have cur: "cur = map (boost k) (take i vals) @ drop i vals" and mset: "mset h = mset [0..<i]"
    and heap: "accum_heap cur h" using inv by (auto simp: push_inv_def s)
  have set: "set h = {0..<i}" using mset_eq_setD [OF mset] by simp
  have dh: "distinct h" using mset_eq_imp_distinct_iff [OF mset] by simp
  have cur': "cur' = map (boost k) (take (Suc i) vals) @ drop (Suc i) vals"
    unfolding cur'_def cur using i
    by (simp add: list_update_append nth_append take_Suc_conv_app_nth Cons_nth_drop_Suc [symmetric])
  have "map Address cur' = map Address (take (Suc i) vals @ drop (Suc i) vals)"
    unfolding cur' map_append by simp
  then have "map Address cur' = map Address vals" by simp
  then have dom: "accum_dom cur' = {..<length vals}" using d by (metis accum_dom_def length_map)
  have heap': "accum_heap cur' h"
    using heap accum_heap_cong [of h cur cur'] set by (auto simp: cur'_def)
  have "\<exists>h'. heap_Push (accum_less cur') i h = Some h' \<and> acc.heap_upto cur' (length h') h' \<and>
      mset h' = add_mset i (mset h)"
    using dom i set heap' dh by (intro acc.heap_Push_heap) (auto simp: accum_heap_upto)
  then obtain h' where "heap_Push (accum_less cur') i h = Some h'" "accum_heap cur' h'"
    "mset h' = add_mset i (mset h)" by (auto simp: accum_heap_upto)
  then show ?thesis
    using cur' by (simp add: accum_push_def s cur'_def [symmetric] boost_def [symmetric] push_inv_def mset)
qed

lemma accum_push_loop:
  assumes "distinct (map Address vals)"
  obtains h where "go_for (accum_push k) [0..<length vals] (vals, []) = Some (map (boost k) vals, h)"
    "mset h = mset [0..<length vals]" "accum_heap (map (boost k) vals) h"
proof -
  have "\<exists>t. go_for (accum_push k) [0..<length vals] (vals, []) = Some t \<and> push_inv k vals (length vals) t"
    by (rule go_for_upt [where I = "push_inv k vals"])
      (use accum_push_step [OF assms] in \<open>auto simp: push_inv_def accum_heap_def\<close>)
  then show ?thesis using that by (auto simp: push_inv_def)
qed

text \<open>One turn of the second loop charges the best validator and restores the heap.\<close>

lemma charge_fix:
  assumes d: "distinct (map Address vals)" and m: "mset h = mset [0..<length vals]"
    and heap: "accum_heap vals h" and ne: "vals \<noteq> []"
  shows "\<exists>h'. heap_Update (accum_less (charge p (hd h) vals)) (hd h) h = Some h' \<and>
    mset h' = mset h \<and> accum_heap (charge p (hd h) vals) h'"
proof -
  let ?vals = "charge p (hd h) vals"
  have set: "set h = {..<length vals}" using mset_eq_setD [OF m] by (simp add: atLeast0LessThan)
  have dh: "distinct h" using mset_eq_imp_distinct_iff [OF m] by simp
  have hne: "h \<noteq> []" using mset_eq_length [OF m] ne by auto
  have same: "?vals ! (h ! k) = vals ! (h ! k)" if "0 < k" "k < length h" for k
  proof -
    have "h ! k \<noteq> h ! 0" using nth_eq_iff_index_eq [OF dh, of k 0] that by (cases "0 < length h") linarith+
    then show ?thesis using hne by (simp add: charge_def hd_conv_nth)
  qed
  have "heap_order.down_inv (\<lambda>i j. higher (?vals ! i) (?vals ! j)) (length h) 0 h"
    unfolding acc.down_inv_def acc.heap_at_def
  proof (intro conjI allI impI)
    fix k
    assume k: "0 < k" "k < length h" "(k - 1) div 2 \<noteq> 0"
    then have "0 < (k - 1) div 2" "(k - 1) div 2 < length h" by auto
    then show "\<not> higher (?vals ! (h ! k)) (?vals ! (h ! ((k - 1) div 2)))"
      using heap k same by (auto simp: accum_heap_def)
  qed simp
  moreover have "accum_dom ?vals = {..<length vals}" using d by (simp add: accum_dom_def)
  ultimately have "\<exists>h'. heap_Fix (accum_less ?vals) 0 h = Some h' \<and> acc.heap_upto ?vals (length h') h' \<and> mset h' = mset h"
    using set dh hne by (intro acc.heap_Fix_root) auto
  moreover have "h[0 := hd h] = h" using hne by (cases h) auto
  ultimately show ?thesis using hne by (auto simp: heap_Update_def accum_heap_upto)
qed

text \<open>The cached total.\<close>

definition vs_total :: "ValidatorSet \<Rightarrow> int" where
  "vs_total vs = fst (ValidatorSet_TotalVotingPower vs)"

lemma TotalVotingPower_eq: "ValidatorSet_TotalVotingPower vs = (vs_total vs, vs\<lparr>totalVotingPower := vs_total vs\<rparr>)"
  by (auto simp: vs_total_def ValidatorSet_TotalVotingPower_def Let_def)

lemma foldl_powers:
  "map VotingPower vals = map VotingPower vals' \<Longrightarrow>
    foldl (\<lambda>t v. safeAddClip t (VotingPower v)) a vals = foldl (\<lambda>t v. safeAddClip t (VotingPower v)) a vals'"
proof -
  have "foldl (\<lambda>t v. safeAddClip t (VotingPower v)) a vals = foldl safeAddClip a (map VotingPower vals)" for a vals
    by (induction vals arbitrary: a) auto
  then show "map VotingPower vals = map VotingPower vals' \<Longrightarrow> ?thesis" by metis
qed

lemma vs_total_alt: "vs_total vs =
    (if totalVotingPower vs = 0 then foldl (\<lambda>t v. safeAddClip t (VotingPower v)) 0 (Validators vs) else totalVotingPower vs)"
  by (simp add: vs_total_def ValidatorSet_TotalVotingPower_def Let_def)

lemma vs_total_cached:
  assumes "map VotingPower vals = map VotingPower (Validators vs)"
  shows "vs_total (vs\<lparr>Validators := vals, totalVotingPower := vs_total vs\<rparr>) = vs_total vs"
    "vs_total (vs\<lparr>Validators := vals\<rparr>) = vs_total vs"
    "vs_total (vs\<lparr>Validators := vals, Proposer := q, totalVotingPower := vs_total vs\<rparr>) = vs_total vs"
  using foldl_powers [OF assms] by (auto simp: vs_total_alt)

lemma map_VotingPower_charge [simp]: "map VotingPower (charge p m vals) = map VotingPower vals"
  by (rule nth_equalityI) (auto simp: charge_def nth_list_update')

lemma VotingPower_boost [simp]: "VotingPower (boost k v) = VotingPower v"
  by (simp add: boost_def)

lemma accum_round_eq:
  assumes d: "distinct (map Address (Validators vs))" and m: "mset h = mset [0..<length (Validators vs)]"
    and heap: "accum_heap (Validators vs) h" and ne: "Validators vs \<noteq> []"
  defines "b \<equiv> select_best (Validators vs)" and "vals \<equiv> charge (vs_total vs) (select_best (Validators vs)) (Validators vs)"
  defines "vs' \<equiv> vs\<lparr>Validators := vals, totalVotingPower := vs_total vs\<rparr>"
  shows "int i = k - 1 \<Longrightarrow> accum_round k i (vs, h) = Some (vs'\<lparr>Proposer := Some (vals ! b)\<rparr>, h)"
    and "int i \<noteq> k - 1 \<Longrightarrow> \<exists>h'. accum_round k i (vs, h) = Some (vs', h') \<and>
      mset h' = mset [0..<length vals] \<and> accum_heap vals h'"
proof -
  have peek: "heap_Peek h = Some b" unfolding b_def by (rule heap_peek_best [OF d m heap ne])
  have b: "b < length (Validators vs)" unfolding b_def by (rule select_best_best [OF ne])
  have vals: "vals = charge (vs_total vs) b (Validators vs)" by (simp add: vals_def b_def)
  show "int i = k - 1 \<Longrightarrow> accum_round k i (vs, h) = Some (vs'\<lparr>Proposer := Some (vals ! b)\<rparr>, h)"
    using b by (simp add: accum_round_def peek TotalVotingPower_eq vs'_def vals charge_def Let_def)
  assume i: "int i \<noteq> k - 1"
  have "hd h = b" using peek by (cases h) (auto simp: heap_Peek_def)
  with charge_fix [OF d m heap ne] obtain h' where h': "heap_Update (accum_less vals) b h = Some h'"
    "mset h' = mset h" "accum_heap vals h'" unfolding vals by metis
  then have "accum_round k i (vs, h) = Some (vs', h')"
    using i b by (simp add: accum_round_def peek TotalVotingPower_eq vs'_def vals charge_def Let_def)
  then show "\<exists>h'. accum_round k i (vs, h) = Some (vs', h') \<and> mset h' = mset [0..<length vals] \<and> accum_heap vals h'"
    using h' m by (auto simp: vals)
qed

lemma accum_round_loop:
  "distinct (map Address (Validators vs)) \<Longrightarrow> mset h = mset [0..<length (Validators vs)] \<Longrightarrow>
    accum_heap (Validators vs) h \<Longrightarrow> Validators vs \<noteq> [] \<Longrightarrow> k = int (i + Suc n) \<Longrightarrow>
    \<exists>h'. go_for (accum_round k) [i..<i + Suc n] (vs, h) =
      Some (vs\<lparr>Validators := fst (rotate_ref (vs_total vs) (Suc n) (Validators vs)),
               Proposer := snd (rotate_ref (vs_total vs) (Suc n) (Validators vs)),
               totalVotingPower := vs_total vs\<rparr>, h')"
proof (induction n arbitrary: i vs h)
  case 0
  then show ?case
    by (simp add: accum_round_eq(1) Let_def)
next
  case (Suc n)
  let ?vals = "charge (vs_total vs) (select_best (Validators vs)) (Validators vs)"
  let ?vs = "vs\<lparr>Validators := ?vals, totalVotingPower := vs_total vs\<rparr>"
  have i: "int i \<noteq> k - 1" using Suc.prems(5) by simp
  obtain h' where h': "accum_round k i (vs, h) = Some (?vs, h')" "mset h' = mset [0..<length ?vals]" "accum_heap ?vals h'"
    using accum_round_eq(2) [OF Suc.prems(1-4) i] by blast
  have total: "vs_total ?vs = vs_total vs" by (rule vs_total_cached) simp
  have "?vals \<noteq> []" using Suc.prems(4) by (metis length_0_conv length_charge)
  then have "\<exists>h''. go_for (accum_round k) [Suc i..<Suc i + Suc n] (?vs, h') =
      Some (?vs\<lparr>Validators := fst (rotate_ref (vs_total ?vs) (Suc n) (Validators ?vs)),
               Proposer := snd (rotate_ref (vs_total ?vs) (Suc n) (Validators ?vs)),
               totalVotingPower := vs_total ?vs\<rparr>, h'')"
    using Suc.prems h' by (intro Suc.IH) auto
  then obtain h'' where "go_for (accum_round k) [Suc i..<Suc i + Suc n] (?vs, h') =
      Some (?vs\<lparr>Validators := fst (rotate_ref (vs_total vs) (Suc n) ?vals),
               Proposer := snd (rotate_ref (vs_total vs) (Suc n) ?vals), totalVotingPower := vs_total vs\<rparr>, h'')"
    unfolding total by auto
  moreover have "[i..<i + Suc (Suc n)] = i # [Suc i..<Suc i + Suc n]" by (simp add: upt_conv_Cons)
  moreover have "rotate_ref (vs_total vs) (Suc (Suc n)) (Validators vs) = rotate_ref (vs_total vs) (Suc n) ?vals"
    by (subst rotate_ref.simps(2)) (simp add: Let_def del: rotate_ref.simps(2))
  ultimately show ?case using h'(1) by (simp del: rotate_ref.simps)
qed

lemma IncrementAccum_rotates:
  assumes "distinct (map Address (Validators vs))" "Validators vs \<noteq> []" "to_int n = int (Suc k)"
  shows "ValidatorSet_IncrementAccum n vs =
    (let r = rotate_ref (vs_total vs) (Suc k) (map (boost (int (Suc k))) (Validators vs))
     in Some (vs\<lparr>Validators := fst r, Proposer := snd r, totalVotingPower := vs_total vs\<rparr>))"
proof -
  let ?vals = "map (boost (int (Suc k))) (Validators vs)"
  let ?vs = "vs\<lparr>Validators := ?vals\<rparr>"
  obtain h where h: "go_for (accum_push (int (Suc k))) [0..<length (Validators vs)] (Validators vs, []) = Some (?vals, h)"
    "mset h = mset [0..<length (Validators vs)]" "accum_heap ?vals h"
    using accum_push_loop [OF assms(1)] by metis
  have total: "vs_total ?vs = vs_total vs" by (rule vs_total_cached) simp
  have "map Address ?vals = map Address (Validators vs)" by simp
  then have d: "distinct (map Address ?vals)" by (simp only: assms(1))
  have "\<exists>h'. go_for (accum_round (int (Suc k))) [0..<0 + Suc k] (?vs, h) =
      Some (?vs\<lparr>Validators := fst (rotate_ref (vs_total ?vs) (Suc k) (Validators ?vs)),
               Proposer := snd (rotate_ref (vs_total ?vs) (Suc k) (Validators ?vs)),
               totalVotingPower := vs_total ?vs\<rparr>, h')"
    using h assms(2) d by (intro accum_round_loop) (simp_all del: map_map list.map_comp)
  then show ?thesis
    unfolding total using h(1) by (auto simp: ValidatorSet_IncrementAccum_def assms(3) Let_def simp del: rotate_ref.simps upt_Suc of_nat_Suc)
qed

section \<open>Balance and fairness\<close>

text \<open>
  With accumulators that sum to zero and none below minus the total power, one rotation
  saturates nowhere and keeps both facts. The bound on the total is what a set of \<open>n\<close>
  validators needs to stay inside 64 bits.
\<close>

definition power_sum :: "ValidatorSet \<Rightarrow> int" where
  "power_sum vs = sum_list (map VotingPower (Validators vs))"

definition balanced :: "ValidatorSet \<Rightarrow> bool" where
  "balanced vs \<longleftrightarrow>
     Validators vs \<noteq> [] \<and> distinct (map Address (Validators vs)) \<and>
     list_all (\<lambda>v. 0 \<le> VotingPower v) (Validators vs) \<and> vs_total vs = power_sum vs \<and>
     power_sum vs * (int (length (Validators vs)) + 1) \<le> MaxInt64 \<and>
     sum_list (map Accum (Validators vs)) = 0 \<and> list_all (\<lambda>v. - power_sum vs \<le> Accum v) (Validators vs)"

lemma sum_list_map_nth: "sum_list (map f xs) = (\<Sum>i<length xs. f (xs ! i))"
  by (simp add: sum_list_sum_nth atLeast0LessThan)

lemma VotingPower_le_sum:
  assumes "list_all (\<lambda>v. 0 \<le> VotingPower v) (Validators vs)" "i < length (Validators vs)"
  shows "VotingPower (Validators vs ! i) \<le> power_sum vs"
  using assms unfolding power_sum_def
  by (intro member_le_sum_list) (auto simp: list_all_iff)

lemma balanced_upper:
  assumes "balanced vs" "i < length (Validators vs)"
  shows "Accum (Validators vs ! i) \<le> power_sum vs * (int (length (Validators vs)) - 1)"
proof -
  let ?l = "Validators vs" and ?T = "power_sum vs"
  have "0 = (\<Sum>j<length ?l. Accum (?l ! j))" using assms(1) by (simp add: balanced_def sum_list_map_nth)
  also have "\<dots> = Accum (?l ! i) + (\<Sum>j\<in>{..<length ?l} - {i}. Accum (?l ! j))"
    using assms(2) by (simp add: sum.remove)
  finally have "Accum (?l ! i) = - (\<Sum>j\<in>{..<length ?l} - {i}. Accum (?l ! j))" by simp
  also have "\<dots> \<le> - (\<Sum>j\<in>{..<length ?l} - {i}. - ?T)"
    using assms(1) by (intro le_imp_neg_le sum_mono) (auto simp: balanced_def list_all_length)
  also have "\<dots> = ?T * (int (length ?l) - 1)"
    using assms(2) by (simp add: of_nat_diff algebra_simps)
  finally show ?thesis .
qed

lemma boost_exact:
  assumes "balanced vs" "i < length (Validators vs)"
  shows "Accum (boost 1 (Validators vs ! i)) = Accum (Validators vs ! i) + VotingPower (Validators vs ! i)"
proof -
  let ?v = "Validators vs ! i" and ?T = "power_sum vs" and ?n = "int (length (Validators vs))"
  have v: "0 \<le> VotingPower ?v" "- ?T \<le> Accum ?v" "VotingPower ?v \<le> ?T"
    using assms VotingPower_le_sum [OF _ assms(2)] by (auto simp: balanced_def list_all_length)
  have up: "Accum ?v \<le> ?T * (?n - 1)" by (rule balanced_upper [OF assms])
  have T: "?T * (?n + 1) \<le> MaxInt64" using assms(1) by (simp add: balanced_def)
  have n: "1 \<le> ?n" using assms(2) by simp
  then have "?T * 1 \<le> ?T * (?n + 1)" using v by (intro mult_left_mono) auto
  with v up T have "int64 (VotingPower ?v)" "int64 (Accum ?v)" "int64 (Accum ?v + VotingPower ?v)"
    by (auto simp: int64_def algebra_simps)
  then show ?thesis
    by (simp add: boost_def safeMulClip_clamp safeAddClip_clamp clamp64_id)
qed

lemma charge_sum:
  assumes "m < length vals" "Accum (charge p m vals ! m) = Accum (vals ! m) - p"
  shows "sum_list (map Accum (charge p m vals)) = sum_list (map Accum vals) - p"
proof -
  have len: "length (charge p m vals) = length vals" by simp
  have "sum_list (map Accum (charge p m vals)) =
    (\<Sum>i<length vals. if i = m then Accum (vals ! m) - p else Accum (vals ! i))"
    unfolding sum_list_map_nth len using assms by (intro sum.cong) (auto simp: charge_def)
  also have "\<dots> = (\<Sum>i<length vals. Accum (vals ! i)) - p"
    using assms(1) by (simp add: sum.remove [of "{..<length vals}" m])
  finally show ?thesis by (simp add: sum_list_map_nth)
qed

lemma best_nonneg:
  assumes "vals \<noteq> []" "0 \<le> sum_list (map Accum vals)"
  shows "0 \<le> Accum (vals ! select_best vals)"
proof (rule ccontr)
  assume neg: "\<not> 0 \<le> Accum (vals ! select_best vals)"
  have "Accum (vals ! i) < 0" if "i < length vals" for i
    using select_best_best(2) [OF assms(1) that] neg by (auto simp: higher_def)
  then have "(\<Sum>i<length vals. Accum (vals ! i)) < (\<Sum>i<length vals. 0)"
    using assms(1) by (intro sum_strict_mono) auto
  with assms(2) show False by (simp add: sum_list_map_nth)
qed

lemma boosted_facts:
  assumes bal: "balanced vs"
  defines "bs \<equiv> map (boost 1) (Validators vs)"
  shows "sum_list (map Accum bs) = power_sum vs" "0 \<le> Accum (bs ! select_best bs)"
    "safeSubClip (Accum (bs ! select_best bs)) (power_sum vs) = Accum (bs ! select_best bs) - power_sum vs"
proof -
  let ?l = "Validators vs" and ?T = "power_sum vs" and ?b = "select_best bs" and ?n = "int (length (Validators vs))"
  have ne: "bs \<noteq> []" and T0: "0 \<le> ?T" and T: "?T * (?n + 1) \<le> MaxInt64"
    using bal by (auto simp: balanced_def bs_def power_sum_def list_all_iff intro!: sum_list_nonneg)
  show sum: "sum_list (map Accum bs) = ?T"
    using bal boost_exact [OF bal]
    by (simp add: sum_list_map_nth bs_def sum.distrib power_sum_def balanced_def)
  show best: "0 \<le> Accum (bs ! ?b)" by (rule best_nonneg [OF ne]) (simp add: sum T0)
  have b: "?b < length ?l" using select_best_best(1) [OF ne] by (simp add: bs_def)
  then have "Accum (bs ! ?b) = Accum (?l ! ?b) + VotingPower (?l ! ?b)"
    using boost_exact [OF bal b] by (simp add: bs_def)
  also have "\<dots> \<le> ?T * (?n - 1) + ?T"
    using balanced_upper [OF bal b] VotingPower_le_sum [OF _ b] bal by (simp add: balanced_def)
  finally have "Accum (bs ! ?b) \<le> ?T * ?n" by (simp add: algebra_simps)
  moreover have "0 \<le> ?T * ?n" using T0 by simp
  moreover have "?T * ?n + ?T \<le> MaxInt64" using T by (simp add: algebra_simps)
  ultimately have "Accum (bs ! ?b) \<le> MaxInt64" "?T \<le> MaxInt64" using T0 by linarith+
  with best T0 show "safeSubClip (Accum (bs ! ?b)) ?T = Accum (bs ! ?b) - ?T"
    by (simp add: safeSubClip_clamp int64_def clamp64_id)
qed

lemma rotate_balanced:
  assumes bal: "balanced vs"
  obtains b vs' where "b < length (Validators vs)" "ValidatorSet_IncrementAccum 1 vs = Some vs'" "balanced vs'"
    "Proposer vs' = Some (Validators vs' ! b)" "map Address (Validators vs') = map Address (Validators vs)"
    "map VotingPower (Validators vs') = map VotingPower (Validators vs)"
    "\<And>i. i < length (Validators vs) \<Longrightarrow> Accum (Validators vs' ! i) =
      Accum (Validators vs ! i) + VotingPower (Validators vs ! i) - (if i = b then power_sum vs else 0)"
proof -
  let ?l = "Validators vs" and ?T = "power_sum vs"
  define bs where "bs = map (boost 1) ?l"
  define b where "b = select_best bs"
  define vals where "vals = charge ?T b bs"
  define vs' where "vs' = vs\<lparr>Validators := vals, Proposer := Some (vals ! b), totalVotingPower := vs_total vs\<rparr>"
  note facts = boosted_facts [OF bal, folded bs_def b_def]
  have ne: "?l \<noteq> []" and d: "distinct (map Address ?l)" and tot: "vs_total vs = ?T"
    using bal by (auto simp: balanced_def)
  have len: "length vals = length ?l" "length bs = length ?l" by (simp_all add: vals_def bs_def)
  have b: "b < length ?l" using select_best_best(1) [of bs] ne by (simp add: b_def bs_def)
  have inc: "ValidatorSet_IncrementAccum 1 vs = Some vs'"
    using IncrementAccum_rotates [OF d ne, of 1 0] tot
    by (simp add: to_int_def wrap64_def Let_def vs'_def vals_def b_def bs_def)
  have addr: "map Address vals = map Address ?l" and pow: "map VotingPower vals = map VotingPower ?l"
    unfolding vals_def map_Address_charge map_VotingPower_charge bs_def by simp_all
  have chg: "Accum (vals ! b) = Accum (bs ! b) - ?T"
    using facts(3) b by (simp add: vals_def charge_def len)
  have acc: "Accum (vals ! i) = Accum (?l ! i) + VotingPower (?l ! i) - (if i = b then ?T else 0)"
    if i: "i < length ?l" for i
    using chg boost_exact [OF bal i] i by (auto simp: vals_def charge_def bs_def)
  have T0: "0 \<le> ?T" using bal by (auto simp: balanced_def power_sum_def list_all_iff intro!: sum_list_nonneg)
  have psum: "power_sum vs' = ?T" using pow by (simp add: power_sum_def vs'_def)
  have low: "- ?T \<le> Accum (vals ! i)" if i: "i < length ?l" for i
  proof -
    have "0 \<le> VotingPower (?l ! i)" "- ?T \<le> Accum (?l ! i)" using bal i by (auto simp: balanced_def list_all_length)
    then show ?thesis using acc [OF i] chg facts(2) by (cases "i = b") simp_all
  qed
  have "sum_list (map Accum vals) = 0"
    using charge_sum [of b bs ?T] chg b len facts(1) by (simp add: vals_def)
  moreover have "vs_total vs' = ?T"
    using vs_total_cached(3) [OF pow] tot by (simp add: vs'_def)
  moreover have "0 \<le> VotingPower (vals ! i)" if "i < length ?l" for i
    using bal that arg_cong [OF pow, of "\<lambda>xs. xs ! i"] len by (simp add: balanced_def list_all_length)
  ultimately have "balanced vs'"
    using bal psum low addr len by (auto simp: balanced_def list_all_length vs'_def)
  with b inc acc addr pow show ?thesis by (intro that [of b vs']) (auto simp: vs'_def)
qed

text \<open>A run of single rotations and the addresses it makes proposer.\<close>

fun rotations :: "nat \<Rightarrow> ValidatorSet \<Rightarrow> (ValidatorSet \<times> bytes list) option" where
  "rotations 0 vs = Some (vs, [])"
| "rotations (Suc r) vs = do {
     vs1 \<leftarrow> ValidatorSet_IncrementAccum 1 vs;
     p \<leftarrow> Proposer vs1;
     (vs', ps) \<leftarrow> rotations r vs1;
     Some (vs', Address p # ps)
   }"

lemma rotations_account:
  "balanced vs \<Longrightarrow> \<exists>vs' ps. rotations r vs = Some (vs', ps) \<and> balanced vs' \<and> length ps = r \<and>
    power_sum vs' = power_sum vs \<and> length (Validators vs') = length (Validators vs) \<and>
    (\<forall>i < length (Validators vs). Accum (Validators vs' ! i) = Accum (Validators vs ! i) +
       int r * VotingPower (Validators vs ! i) -
       int (count_list ps (Address (Validators vs ! i))) * power_sum vs)"
proof (induction r arbitrary: vs)
  case (Suc r)
  let ?l = "Validators vs" and ?T = "power_sum vs"
  obtain b vs1 where step: "b < length ?l" "ValidatorSet_IncrementAccum 1 vs = Some vs1" "balanced vs1"
    "Proposer vs1 = Some (Validators vs1 ! b)" "map Address (Validators vs1) = map Address ?l"
    "map VotingPower (Validators vs1) = map VotingPower ?l"
    "\<And>i. i < length ?l \<Longrightarrow> Accum (Validators vs1 ! i) = Accum (?l ! i) + VotingPower (?l ! i) - (if i = b then ?T else 0)"
    using rotate_balanced [OF Suc.prems] by blast
  have len: "length (Validators vs1) = length ?l" using step(5) by (metis length_map)
  have nth: "Address (Validators vs1 ! i) = Address (?l ! i)" "VotingPower (Validators vs1 ! i) = VotingPower (?l ! i)"
    if "i < length ?l" for i
    using that len arg_cong [OF step(5), of "\<lambda>xs. xs ! i"] arg_cong [OF step(6), of "\<lambda>xs. xs ! i"] by auto
  have T: "power_sum vs1 = ?T" by (simp add: power_sum_def step(6))
  obtain vs' ps where IH: "rotations r vs1 = Some (vs', ps)" "balanced vs'" "length ps = r" "power_sum vs' = power_sum vs1"
    "length (Validators vs') = length (Validators vs1)"
    "\<forall>i < length (Validators vs1). Accum (Validators vs' ! i) = Accum (Validators vs1 ! i) +
       int r * VotingPower (Validators vs1 ! i) -
       int (count_list ps (Address (Validators vs1 ! i))) * power_sum vs1"
    using Suc.IH [OF step(3)] by blast
  have hit: "Address (?l ! b) = Address (?l ! i) \<longleftrightarrow> b = i" if "i < length ?l" for i
    using Suc.prems that step(1) by (auto simp: balanced_def distinct_conv_nth)
  have "rotations (Suc r) vs = Some (vs', Address (?l ! b) # ps)"
    using step(1,2,4) IH(1) nth(1) by simp
  moreover have "Accum (Validators vs' ! i) = Accum (?l ! i) + int (Suc r) * VotingPower (?l ! i) -
       int (count_list (Address (?l ! b) # ps) (Address (?l ! i))) * ?T" if i: "i < length ?l" for i
    using IH(6) step(7) [OF i] nth [OF i] i len T hit [OF i] by (auto simp: algebra_simps)
  ultimately show ?case using IH len T by auto
qed auto

text \<open>
  Proportional fairness: in \<open>r\<close> rotations a validator is proposer within \<open>n\<close> turns of its
  share \<open>r * power / total\<close>.
\<close>

lemma rotations_share:
  assumes "balanced vs" "i < length (Validators vs)"
  shows "\<exists>vs' ps. rotations r vs = Some (vs', ps) \<and> length ps = r \<and>
    \<bar>int (count_list ps (Address (Validators vs ! i))) * power_sum vs - int r * VotingPower (Validators vs ! i)\<bar>
      \<le> int (length (Validators vs)) * power_sum vs"
proof -
  let ?l = "Validators vs" and ?T = "power_sum vs"
  obtain vs' ps where r: "rotations r vs = Some (vs', ps)" "balanced vs'" "length ps = r" "power_sum vs' = ?T"
    "length (Validators vs') = length ?l"
    "Accum (Validators vs' ! i) = Accum (?l ! i) + int r * VotingPower (?l ! i) -
       int (count_list ps (Address (?l ! i))) * ?T"
    using rotations_account [OF assms(1), of r] assms(2) by blast
  have "- ?T \<le> Accum (?l ! i)" "- ?T \<le> Accum (Validators vs' ! i)"
    using assms r(2,4,5) by (auto simp: balanced_def list_all_length)
  moreover have "Accum (?l ! i) \<le> ?T * (int (length ?l) - 1)"
    "Accum (Validators vs' ! i) \<le> ?T * (int (length ?l) - 1)"
    using balanced_upper [OF assms] balanced_upper [OF r(2), of i] assms(2) r(4,5) by auto
  ultimately show ?thesis using r(1,3,6) by (auto simp: algebra_simps abs_le_iff)
qed

lemma foldl_power_exact:
  "list_all (\<lambda>v. 0 \<le> VotingPower v) vals \<Longrightarrow> 0 \<le> a \<Longrightarrow> a + sum_list (map VotingPower vals) \<le> MaxInt64 \<Longrightarrow>
    foldl (\<lambda>t v. safeAddClip t (VotingPower v)) a vals = a + sum_list (map VotingPower vals)"
proof (induction vals arbitrary: a)
  case (Cons v vals)
  have "0 \<le> sum_list (map VotingPower vals)" using Cons.prems(1) by (auto simp: list_all_iff intro!: sum_list_nonneg)
  then have "safeAddClip a (VotingPower v) = a + VotingPower v"
    using Cons.prems by (simp add: safeAddClip_clamp int64_def clamp64_id)
  with Cons show ?case by simp
qed simp

lemma vs_total_exact:
  assumes "totalVotingPower vs = 0" "list_all (\<lambda>v. 0 \<le> VotingPower v) (Validators vs)" "power_sum vs \<le> MaxInt64"
  shows "vs_total vs = power_sum vs"
  using foldl_power_exact [OF assms(2), of 0] assms by (simp add: vs_total_alt power_sum_def)

lemma sort_key_Address:
  assumes "distinct (map Address vals)"
  shows "sorted_wrt (<) (map Address (sort_key Address vals))"
  using assms by (simp add: strict_sorted_iff distinct_map)

lemma NewValidatorSet_balanced:
  assumes "vals \<noteq> []" "distinct (map Address vals)" "list_all (\<lambda>v. 0 \<le> VotingPower v \<and> Accum v = 0) vals"
    and bound: "sum_list (map VotingPower vals) * (int (length vals) + 1) \<le> MaxInt64"
  obtains vs where "NewValidatorSet vals = Some vs" "balanced vs" "vs_ordered vs"
    "map Address (Validators vs) = map Address (sort_key Address vals)"
    "map VotingPower (Validators vs) = map VotingPower (sort_key Address vals)"
proof -
  define vs0 where "vs0 = \<lparr>Validators = sort_key Address vals, Proposer = None, totalVotingPower = 0\<rparr>"
  have mset: "sum_list (map f (sort_key Address vals)) = sum_list (map f vals)" for f :: "Validator \<Rightarrow> int"
    by (metis mset_map mset_sort sum_mset_sum_list)
  have T: "power_sum vs0 = sum_list (map VotingPower vals)" by (simp add: power_sum_def vs0_def mset)
  have T0: "0 \<le> sum_list (map VotingPower vals)" using assms(3) by (auto simp: list_all_iff intro!: sum_list_nonneg)
  then have "sum_list (map VotingPower vals) * 1 \<le> sum_list (map VotingPower vals) * (int (length vals) + 1)"
    by (intro mult_left_mono) auto
  with bound have le: "power_sum vs0 \<le> MaxInt64" by (simp add: T)
  have "vs_total vs0 = power_sum vs0"
    by (rule vs_total_exact) (use assms(3) le in \<open>auto simp: vs0_def list_all_iff\<close>)
  moreover have "sum_list (map Accum vals) = 0" using assms(3) by (induction vals) auto
  moreover have "sort_key Address vals \<noteq> []" by (metis assms(1) mset_sort mset_zero_iff)
  moreover have "distinct (map Address (sort_key Address vals))"
    using sort_key_Address [OF assms(2)] by (simp add: strict_sorted_iff)
  ultimately have "balanced vs0"
    using assms(3) bound T T0 by (auto simp: balanced_def vs0_def list_all_iff mset power_sum_def)
  then obtain vs where vs: "ValidatorSet_IncrementAccum 1 vs0 = Some vs" "balanced vs"
    "map Address (Validators vs) = map Address (Validators vs0)"
    "map VotingPower (Validators vs) = map VotingPower (Validators vs0)"
    by (rule rotate_balanced)
  show ?thesis
  proof (rule that)
    show "NewValidatorSet vals = Some vs" using vs(1) assms(1) by (simp add: NewValidatorSet_def Let_def vs0_def)
    show "vs_ordered vs" using vs(3) sort_key_Address [OF assms(2)] by (simp add: vs_ordered_def vs0_def)
  qed (use vs in \<open>auto simp: vs0_def\<close>)
qed

section \<open>Properties\<close>

text \<open>
  C17: \<open>IncrementAccum\<close> on its heap of pointers computes the reference rotation: add
  \<open>times * power\<close> to every accumulator, then \<open>times\<close> times charge the total power to the
  validator with the largest accumulator (the smallest address on a tie), the last one charged
  being the proposer. It does not panic on a non-empty set with distinct addresses.
\<close>

theorem IncrementAccum_is_rotation:
  assumes "distinct (map Address (Validators vs))" "Validators vs \<noteq> []" "to_int n = int (Suc k)"
  shows "ValidatorSet_IncrementAccum n vs =
    (let r = rotate_ref (vs_total vs) (Suc k) (map (boost (int (Suc k))) (Validators vs))
     in Some (vs\<lparr>Validators := fst r, Proposer := snd r, totalVotingPower := vs_total vs\<rparr>))"
  using assms by (rule IncrementAccum_rotates)

theorem IncrementAccum_is_rotation_witness:
  "ValidatorSet_IncrementAccum 1 \<lparr>Validators = [\<lparr>Address = [1], PubKey = [], VotingPower = 5, Accum = 2\<rparr>,
       \<lparr>Address = [2], PubKey = [], VotingPower = 3, Accum = 4\<rparr>], Proposer = None, totalVotingPower = 0\<rparr> =
     Some \<lparr>Validators = [\<lparr>Address = [1], PubKey = [], VotingPower = 5, Accum = - 1\<rparr>,
       \<lparr>Address = [2], PubKey = [], VotingPower = 3, Accum = 7\<rparr>],
       Proposer = Some \<lparr>Address = [1], PubKey = [], VotingPower = 5, Accum = - 1\<rparr>, totalVotingPower = 8\<rparr>"
  by (subst IncrementAccum_is_rotation [of _ _ 0])
    (simp_all add: to_int_def wrap64_def vs_total_alt boost_def charge_def select_best_def higher_def upt_rec
      safeAddClip_clamp safeMulClip_clamp safeSubClip_clamp clamp64_def int64_def Let_def)

text \<open>
  C18: a set built by \<open>NewValidatorSet\<close> from validators with distinct addresses and no
  accumulated priority, whose total power leaves room for the accumulators, rotates without
  panic for ever, and in every \<open>r\<close> rotations each validator is proposer within \<open>n\<close> turns of
  its share of the voting power.
\<close>

theorem NewValidatorSet_fair:
  assumes "vals \<noteq> []" "distinct (map Address vals)" "list_all (\<lambda>v. 0 \<le> VotingPower v \<and> Accum v = 0) vals"
    and "sum_list (map VotingPower vals) * (int (length vals) + 1) \<le> MaxInt64"
  shows "\<exists>vs. NewValidatorSet vals = Some vs \<and> vs_ordered vs \<and>
    (\<forall>r i. i < length (Validators vs) \<longrightarrow>
      (\<exists>vs' ps. rotations r vs = Some (vs', ps) \<and> length ps = r \<and>
        \<bar>int (count_list ps (Address (Validators vs ! i))) * power_sum vs - int r * VotingPower (Validators vs ! i)\<bar>
          \<le> int (length (Validators vs)) * power_sum vs))"
proof -
  obtain vs where "NewValidatorSet vals = Some vs" "balanced vs" "vs_ordered vs"
    using NewValidatorSet_balanced [OF assms] by blast
  then show ?thesis using rotations_share by blast
qed

theorem NewValidatorSet_fair_witness:
  "\<exists>vs. NewValidatorSet [\<lparr>Address = [2], PubKey = [], VotingPower = 3, Accum = 0\<rparr>,
      \<lparr>Address = [1], PubKey = [], VotingPower = 1, Accum = 0\<rparr>] = Some vs \<and> vs_ordered vs"
  using NewValidatorSet_fair [of "[\<lparr>Address = [2], PubKey = [], VotingPower = 3, Accum = 0\<rparr>,
      \<lparr>Address = [1], PubKey = [], VotingPower = 1, Accum = 0\<rparr>]"] by auto

end
