(* ===== verification/Vote.thy ===== *)
theory Vote
  imports Bit_Array Proposer_Rotation
begin

text \<open>
  Block identifiers, votes, proposals and commits: \<^verbatim>\<open>consensus/tbft/types/vote.go\<close>,
  \<^verbatim>\<open>proposal.go\<close>, \<^verbatim>\<open>canonical_json.go\<close>, the first part of \<^verbatim>\<open>datas.go\<close>, the key operations
  of \<^verbatim>\<open>crypto/truekey.go\<close>, and what more than two thirds of the voting power means in 64 bits.
  What the code calls outside the repository (the amino codec, hexadecimal encoding, time
  formatting, RLP hashing and elliptic curve recovery) is the record \<open>env\<close>, an argument of the
  definitions. A public key is the byte string \<open>FromECDSAPub\<close> gives for it; a time is an integer.
\<close>

section \<open>Data\<close>

record PartSetHeader =
  Total :: u64
  psh_Hash :: bytes

record BlockID =
  Hash :: bytes
  PartsHeader :: PartSetHeader

record Vote =
  ValidatorAddress :: bytes
  ValidatorIndex :: u64
  Height :: u64
  Round :: u64
  Result :: u64
  Timestamp :: int
  Type :: byte
  vBlockID :: BlockID
  Signature :: bytes
  ResultSign :: bytes

record Proposal =
  pHeight :: u64
  pRound :: u64
  pTimestamp :: int
  BlockPartsHeader :: PartSetHeader
  POLRound :: u64
  POLBlockID :: BlockID
  pSignature :: bytes

record CanonicalJSONPartSetHeader =
  canon_Hash :: bytes
  canon_Total :: u64

record CanonicalJSONBlockID =
  cb_Hash :: bytes
  cb_PartsHeader :: CanonicalJSONPartSetHeader

record CanonicalJSONVote =
  cv_ChainID :: string
  cv_Type :: string
  cv_BlockID :: CanonicalJSONBlockID
  cv_Height :: u64
  cv_Round :: u64
  cv_Timestamp :: string
  cv_VoteType :: byte

record CanonicalJSONProposal =
  cp_ChainID :: string
  cp_Type :: string
  cp_BlockPartsHeader :: CanonicalJSONPartSetHeader
  cp_Height :: u64
  cp_POLBlockID :: CanonicalJSONBlockID
  cp_POLRound :: u64
  cp_Round :: u64
  cp_Timestamp :: string

text \<open>What the repository imports.\<close>

record env =
  hexEncode :: "bytes \<Rightarrow> string"
  aminoHeader :: "PartSetHeader \<Rightarrow> bytes"
  jsonVote :: "CanonicalJSONVote \<Rightarrow> bytes"
  jsonProposal :: "CanonicalJSONProposal \<Rightarrow> bytes"
  formatTime :: "int \<Rightarrow> string"
  rlpHash :: "bytes \<Rightarrow> bytes"
  sigToPub :: "bytes \<Rightarrow> bytes \<Rightarrow> pubkey option"
  keyAddress :: "pubkey \<Rightarrow> bytes"

abbreviation VoteTypePrevote :: byte where "VoteTypePrevote \<equiv> 1"
abbreviation VoteTypePrecommit :: byte where "VoteTypePrecommit \<equiv> 2"
abbreviation VoteAgreeAgainst :: u64 where "VoteAgreeAgainst \<equiv> 0"
abbreviation VoteAgree :: u64 where "VoteAgree \<equiv> 1"

definition IsVoteTypeValid :: "byte \<Rightarrow> bool" where
  "IsVoteTypeValid typeB \<longleftrightarrow> typeB = VoteTypePrevote \<or> typeB = VoteTypePrecommit"

section \<open>Headers and block identifiers\<close>

definition PartSetHeader_IsZero :: "PartSetHeader \<Rightarrow> bool" where
  "PartSetHeader_IsZero psh \<longleftrightarrow> Total psh = 0"

definition PartSetHeader_Equals :: "PartSetHeader \<Rightarrow> PartSetHeader \<Rightarrow> bool" where
  "PartSetHeader_Equals psh other \<longleftrightarrow> Total psh = Total other \<and> psh_Hash psh = psh_Hash other"

definition zero_header :: PartSetHeader where
  "zero_header = \<lparr>Total = 0, psh_Hash = []\<rparr>"

definition zero_BlockID :: BlockID where
  "zero_BlockID = \<lparr>Hash = [], PartsHeader = zero_header\<rparr>"

definition BlockID_IsZero :: "BlockID \<Rightarrow> bool" where
  "BlockID_IsZero blockID \<longleftrightarrow> length (Hash blockID) = 0 \<and> PartSetHeader_IsZero (PartsHeader blockID)"

definition BlockID_Equals :: "BlockID \<Rightarrow> BlockID \<Rightarrow> bool" where
  "BlockID_Equals blockID other \<longleftrightarrow>
     Hash blockID = Hash other \<and> PartSetHeader_Equals (PartsHeader blockID) (PartsHeader other)"

definition BlockID_Key :: "env \<Rightarrow> BlockID \<Rightarrow> string" where
  "BlockID_Key E blockID = hexEncode E (Hash blockID) @ hexEncode E (aminoHeader E (PartsHeader blockID))"

section \<open>Keys\<close>

definition PubKeyTrue_Equals :: "pubkey \<Rightarrow> pubkey \<Rightarrow> bool" where
  "PubKeyTrue_Equals pub other \<longleftrightarrow> (if other = [] \<or> pub = [] then False else other = pub)"

definition PubKeyTrue_VerifyBytes :: "env \<Rightarrow> pubkey \<Rightarrow> bytes \<Rightarrow> bytes \<Rightarrow> bool" where
  "PubKeyTrue_VerifyBytes E pub msg sig =
     (case sigToPub E msg sig of
        Some pub1 \<Rightarrow> PubKeyTrue_Equals pub pub1
      | None \<Rightarrow> False)"

section \<open>Sign bytes\<close>

definition CanonicalPartSetHeader :: "PartSetHeader \<Rightarrow> CanonicalJSONPartSetHeader" where
  "CanonicalPartSetHeader psh = \<lparr>canon_Hash = psh_Hash psh, canon_Total = Total psh\<rparr>"

definition CanonicalBlockID :: "BlockID \<Rightarrow> CanonicalJSONBlockID" where
  "CanonicalBlockID blockID =
     \<lparr>cb_Hash = Hash blockID, cb_PartsHeader = CanonicalPartSetHeader (PartsHeader blockID)\<rparr>"

definition CanonicalTime :: "env \<Rightarrow> int \<Rightarrow> string" where
  "CanonicalTime E t = formatTime E t"

definition CanonicalVote :: "env \<Rightarrow> string \<Rightarrow> Vote \<Rightarrow> CanonicalJSONVote" where
  "CanonicalVote E chainID vote =
     \<lparr>cv_ChainID = chainID, cv_Type = ''vote'', cv_BlockID = CanonicalBlockID (vBlockID vote),
      cv_Height = Height vote, cv_Round = Round vote, cv_Timestamp = CanonicalTime E (Timestamp vote),
      cv_VoteType = Type vote\<rparr>"

definition CanonicalProposal :: "env \<Rightarrow> string \<Rightarrow> Proposal \<Rightarrow> CanonicalJSONProposal" where
  "CanonicalProposal E chainID p =
     \<lparr>cp_ChainID = chainID, cp_Type = ''proposal'',
      cp_BlockPartsHeader = CanonicalPartSetHeader (BlockPartsHeader p), cp_Height = pHeight p,
      cp_POLBlockID = CanonicalBlockID (POLBlockID p), cp_POLRound = POLRound p, cp_Round = pRound p,
      cp_Timestamp = CanonicalTime E (pTimestamp p)\<rparr>"

definition Vote_SignBytes :: "env \<Rightarrow> string \<Rightarrow> Vote \<Rightarrow> bytes" where
  "Vote_SignBytes E chainID vote = rlpHash E (jsonVote E (CanonicalVote E chainID vote))"

definition Proposal_SignBytes :: "env \<Rightarrow> string \<Rightarrow> Proposal \<Rightarrow> bytes" where
  "Proposal_SignBytes E chainID p = rlpHash E (jsonProposal E (CanonicalProposal E chainID p))"

definition NewProposal :: "int \<Rightarrow> u64 \<Rightarrow> int \<Rightarrow> PartSetHeader \<Rightarrow> u64 \<Rightarrow> BlockID \<Rightarrow> Proposal" where
  "NewProposal now height rnd blockPartsHeader polRound polBlockID =
     \<lparr>pHeight = height, pRound = to_uint rnd, pTimestamp = now, BlockPartsHeader = blockPartsHeader,
      POLRound = polRound, POLBlockID = polBlockID, pSignature = []\<rparr>"

datatype vote_error =
    ErrVoteUnexpectedStep
  | ErrVoteInvalidValidatorIndex
  | ErrVoteInvalidValidatorAddress
  | ErrVoteInvalidSignature
  | ErrVoteNonDeterministicSignature
  | ErrVoteConflictingVotes
  | ErrVoteNil

definition Vote_Verify :: "env \<Rightarrow> string \<Rightarrow> pubkey \<Rightarrow> Vote \<Rightarrow> vote_error go_error" where
  "Vote_Verify E chainID pubKey vote =
     (if keyAddress E pubKey \<noteq> ValidatorAddress vote then Err ErrVoteInvalidValidatorAddress
      else if \<not> PubKeyTrue_VerifyBytes E pubKey (Vote_SignBytes E chainID vote) (Signature vote)
      then Err ErrVoteInvalidSignature
      else NoError)"

section \<open>Commits\<close>

text \<open>The volatile fields cache what the methods computed.\<close>

record Commit =
  cBlockID :: BlockID
  Precommits :: "Vote option list"
  firstPrecommit :: "Vote option"
  bitArray :: "BitArray option"

definition empty_precommit :: Vote where
  "empty_precommit =
     \<lparr>ValidatorAddress = [], ValidatorIndex = 0, Height = 0, Round = 0, Result = 0, Timestamp = 0,
      Type = VoteTypePrecommit, vBlockID = zero_BlockID, Signature = [], ResultSign = []\<rparr>"

definition first_vote :: "Vote option list \<Rightarrow> Vote option" where
  "first_vote vs = Option.bind (find (\<lambda>v. v \<noteq> None) vs) id"

definition Commit_FirstPrecommit :: "Commit \<Rightarrow> Vote option \<times> Commit" where
  "Commit_FirstPrecommit commit =
     (if length (Precommits commit) = 0 then (None, commit)
      else case firstPrecommit commit of
             Some v \<Rightarrow> (Some v, commit)
           | None \<Rightarrow> (case first_vote (Precommits commit) of
                        Some v \<Rightarrow> (Some v, commit\<lparr>firstPrecommit := Some v\<rparr>)
                      | None \<Rightarrow> (Some empty_precommit, commit)))"

definition Commit_Height :: "Commit \<Rightarrow> (u64 \<times> Commit) option" where
  "Commit_Height commit =
     (if length (Precommits commit) = 0 then Some (0, commit)
      else case Commit_FirstPrecommit commit of
             (Some v, commit') \<Rightarrow> Some (Height v, commit')
           | (None, _) \<Rightarrow> None)"

definition Commit_Round :: "Commit \<Rightarrow> (int \<times> Commit) option" where
  "Commit_Round commit =
     (if length (Precommits commit) = 0 then Some (0, commit)
      else case Commit_FirstPrecommit commit of
             (Some v, commit') \<Rightarrow> Some (to_int (Round v), commit')
           | (None, _) \<Rightarrow> None)"

definition Commit_Type :: "Commit \<Rightarrow> byte" where
  "Commit_Type commit = VoteTypePrecommit"

definition Commit_Size :: "Commit option \<Rightarrow> u64" where
  "Commit_Size commit = (case commit of None \<Rightarrow> 0 | Some c \<Rightarrow> of_nat (length (Precommits c)))"

definition Commit_BitArray :: "Commit \<Rightarrow> (BitArray option \<times> Commit) option" where
  "Commit_BitArray commit =
     (case bitArray commit of
        Some b \<Rightarrow> Some (Some b, commit)
      | None \<Rightarrow> do {
          b \<leftarrow> go_for (\<lambda>i b. map_option snd (BitArray_SetIndex b (of_nat i) (Precommits commit ! i \<noteq> None)))
                 [0..<length (Precommits commit)] (NewBitArray (of_nat (length (Precommits commit))));
          Some (b, commit\<lparr>bitArray := b\<rparr>)
        })"

definition Commit_GetByIndex :: "Commit \<Rightarrow> u64 \<Rightarrow> Vote option option" where
  "Commit_GetByIndex commit index = go_nth (Precommits commit) (unat index)"

definition Commit_IsCommit :: "Commit \<Rightarrow> bool" where
  "Commit_IsCommit commit \<longleftrightarrow> length (Precommits commit) \<noteq> 0"

datatype commit_error =
    ErrNilBlock | ErrNoPrecommits | ErrWrongSetSize | ErrWrongHeight | ErrWrongRound | ErrNotPrecommit
  | ErrCommitSignature | ErrInsufficientPower | ErrInsufficientOldPower | ErrInsufficientNewPower

fun first_error :: "('a \<Rightarrow> 'e go_error) \<Rightarrow> 'a list \<Rightarrow> 'e go_error" where
  "first_error f [] = NoError"
| "first_error f (x # xs) = (case f x of NoError \<Rightarrow> first_error f xs | Err e \<Rightarrow> Err e)"

definition Commit_ValidateBasic :: "Commit \<Rightarrow> commit_error go_error option" where
  "Commit_ValidateBasic commit =
     (if BlockID_IsZero (cBlockID commit) then Some (Err ErrNilBlock)
      else if length (Precommits commit) = 0 then Some (Err ErrNoPrecommits)
      else do {
        (height, commit) \<leftarrow> Commit_Height commit;
        (rnd, commit) \<leftarrow> Commit_Round commit;
        Some (first_error (\<lambda>precommit. case precommit of
            None \<Rightarrow> NoError
          | Some v \<Rightarrow> if Type v \<noteq> VoteTypePrecommit then Err ErrNotPrecommit
                      else if Height v \<noteq> height then Err ErrWrongHeight
                      else if to_int (Round v) \<noteq> rnd then Err ErrWrongRound
                      else NoError) (Precommits commit))
      })"

section \<open>Voting power\<close>

text \<open>\<open>TotalVotingPower()*2/3\<close>, in 64 bits.\<close>

definition two_thirds :: "ValidatorSet \<Rightarrow> int" where
  "two_thirds valSet = wrap64 (vs_total valSet * 2) sdiv 3"

text \<open>A set whose total power, doubled, still fits 64 bits, with a coherent cache.\<close>

definition powers_ok :: "ValidatorSet \<Rightarrow> bool" where
  "powers_ok vs \<longleftrightarrow>
     list_all (\<lambda>v. 0 \<le> VotingPower v) (Validators vs) \<and> power_sum vs * 2 \<le> MaxInt64 \<and>
     vs_total vs = power_sum vs \<and> length (Validators vs) < 2 ^ 63"

definition vpow :: "ValidatorSet \<Rightarrow> nat \<Rightarrow> int" where
  "vpow vs i = (if powers_ok vs then VotingPower (Validators vs ! i) else 0)"

abbreviation vnum :: "ValidatorSet \<Rightarrow> nat" where
  "vnum vs \<equiv> length (Validators vs)"

interpretation wv: weighted_voters "vnum vs" "vpow vs" for vs
  by unfold_locales (auto simp: vpow_def powers_ok_def list_all_length)

lemma wv_total: "powers_ok vs \<Longrightarrow> wv.total vs = vs_total vs"
  by (simp add: wv.total_def wsum_def vpow_def powers_ok_def power_sum_def sum_list_map_nth)

lemma two_thirds_eq: "powers_ok vs \<Longrightarrow> two_thirds vs = wv.total vs * 2 div 3"
proof -
  assume ok: "powers_ok vs"
  then have "vs_total vs = wv.total vs" by (simp add: wv_total)
  moreover have "0 \<le> wv.total vs" by (rule wv.total_nonneg)
  moreover have "int64 (wv.total vs * 2)"
    using ok calculation by (simp add: powers_ok_def int64_def)
  ultimately show ?thesis
    by (simp add: two_thirds_def signed_divide_int_def sgn_if abs_mult)
qed

text \<open>The two comparisons with \<open>TotalVotingPower()*2/3\<close> mean more than two thirds.\<close>

lemma two_thirds_less: "powers_ok vs \<Longrightarrow> two_thirds vs < p \<longleftrightarrow> 2 * wv.total vs < 3 * p"
  unfolding two_thirds_eq using div_mult_mod_eq [of "wv.total vs * 2" 3] pos_mod_bound [of 3 "wv.total vs * 2"]
    pos_mod_sign [of 3 "wv.total vs * 2"] by linarith

lemma two_thirds_range: "powers_ok vs \<Longrightarrow> 0 \<le> two_thirds vs \<and> two_thirds vs < MaxInt64"
proof -
  assume ok: "powers_ok vs"
  have "0 \<le> wv.total vs" "wv.total vs * 2 \<le> MaxInt64"
    using wv.total_nonneg [of vs] wv_total [OF ok] ok by (simp_all add: powers_ok_def)
  then show ?thesis unfolding two_thirds_eq [OF ok] by auto
qed

lemma wsum_int64: "powers_ok vs \<Longrightarrow> int64 (wsum (vnum vs) P (vpow vs))"
  using wv.wsum_le_total [of vs P] wsum_nonneg [of "vnum vs" "vpow vs" P] wv.w_nonneg [of _ vs] wv_total [of vs]
  by (force simp: powers_ok_def int64_def)

section \<open>The codec\<close>

text \<open>
  What the code relies on of the imported encoders: hexadecimal text is prefixed by \<open>0x\<close>, holds
  no further \<open>x\<close> and determines the bytes; the binary encoding of a header determines the header.
\<close>

definition codec_ok :: "env \<Rightarrow> bool" where
  "codec_ok E \<longleftrightarrow>
     inj (hexEncode E) \<and> (\<forall>b. \<exists>ds. hexEncode E b = ''0x'' @ ds \<and> CHR ''x'' \<notin> set ds) \<and> inj (aminoHeader E)"

lemma split_at_x:
  assumes "CHR ''x'' \<notin> set a" "CHR ''x'' \<notin> set c" "a @ ''0x'' @ b = c @ ''0x'' @ d"
  shows "a = c \<and> b = d"
proof -
  have "takeWhile (\<lambda>z. z \<noteq> CHR ''x'') (a @ ''0x'' @ b) = a @ ''0''" for b
    using assms(1) by (subst takeWhile_append2) auto
  moreover have "takeWhile (\<lambda>z. z \<noteq> CHR ''x'') (c @ ''0x'' @ d) = c @ ''0''" for d
    using assms(2) by (subst takeWhile_append2) auto
  ultimately have "a = c" using assms(3) by (metis append_same_eq)
  with assms(3) show ?thesis by simp
qed

lemma BlockID_Key_inj:
  assumes "codec_ok E"
  shows "BlockID_Key E a = BlockID_Key E b \<longleftrightarrow> a = b"
proof
  assume eq: "BlockID_Key E a = BlockID_Key E b"
  let ?h = "hexEncode E"
  obtain a1 b1 a2 b2 where d: "?h (Hash a) = ''0x'' @ a1" "CHR ''x'' \<notin> set a1" "?h (Hash b) = ''0x'' @ b1" "CHR ''x'' \<notin> set b1"
    "?h (aminoHeader E (PartsHeader a)) = ''0x'' @ a2" "?h (aminoHeader E (PartsHeader b)) = ''0x'' @ b2"
    using assms unfolding codec_ok_def by metis
  have "a1 @ ''0x'' @ a2 = b1 @ ''0x'' @ b2" using eq d by (simp add: BlockID_Key_def)
  then have "a1 = b1 \<and> a2 = b2" by (rule split_at_x [OF d(2,4)])
  then have "?h (Hash a) = ?h (Hash b)" "?h (aminoHeader E (PartsHeader a)) = ?h (aminoHeader E (PartsHeader b))"
    using d by simp_all
  then have "Hash a = Hash b" "PartsHeader a = PartsHeader b" using assms by (auto simp: codec_ok_def dest: injD)
  then show "a = b" by (intro BlockID.equality) simp_all
qed simp

text \<open>A concrete environment with these properties, in which a key signs by its own bytes.\<close>

definition hex_digit :: "nat \<Rightarrow> char" where
  "hex_digit n = (if n < 10 then char_of (48 + n) else char_of (87 + n))"

definition hex_encode :: "bytes \<Rightarrow> string" where
  "hex_encode b = ''0x'' @ concat (map (\<lambda>x. [hex_digit (unat x div 16), hex_digit (unat x mod 16)]) b)"

definition demo_env :: env where
  "demo_env =
     \<lparr>hexEncode = hex_encode, aminoHeader = (\<lambda>h. replicate (unat (Total h)) 1 @ 0 # psh_Hash h),
      jsonVote = (\<lambda>v. cb_Hash (cv_BlockID v)), jsonProposal = (\<lambda>p. cb_Hash (cp_POLBlockID p)), formatTime = (\<lambda>t. []),
      rlpHash = (\<lambda>b. b), sigToPub = (\<lambda>msg sig. Some sig), keyAddress = (\<lambda>k. k)\<rparr>"

lemma hex_digit_inj: "m < 16 \<Longrightarrow> n < 16 \<Longrightarrow> hex_digit m = hex_digit n \<longleftrightarrow> m = n"
proof
  assume mn: "m < 16" "n < 16" and "hex_digit m = hex_digit n"
  then have "of_char (hex_digit m) = (of_char (hex_digit n) :: nat)" by simp
  then show "m = n" using mn by (auto simp: hex_digit_def split: if_splits)
qed simp

lemma hex_digit_not_x: "n < 16 \<Longrightarrow> hex_digit n \<noteq> CHR ''x''"
proof
  assume n: "n < 16" and "hex_digit n = CHR ''x''"
  then have "of_char (hex_digit n) = (of_char CHR ''x'' :: nat)" by simp
  then show False using n by (auto simp: hex_digit_def split: if_splits)
qed

lemma hex_digits_inj:
  "concat (map (\<lambda>x. [hex_digit (unat x div 16), hex_digit (unat x mod 16)]) (b :: bytes)) =
   concat (map (\<lambda>x. [hex_digit (unat x div 16), hex_digit (unat x mod 16)]) c) \<Longrightarrow> b = c"
proof (induction b arbitrary: c)
  case (Cons x b)
  then obtain y c' where c: "c = y # c'" by (cases c) auto
  have lt: "unat z < 256" for z :: byte using unsigned_less [of z, where 'a = nat] by simp
  have "unat x div 16 = unat y div 16" "unat x mod 16 = unat y mod 16"
    using Cons.prems lt [of x] lt [of y] by (auto simp: c hex_digit_inj)
  then have "unat x = unat y" by (metis div_mult_mod_eq)
  then have "x = y" by (simp add: word_unat_eq_iff)
  with Cons c show ?case by auto
qed auto

lemma codec_ok_demo: "codec_ok demo_env"
proof -
  have "inj hex_encode" by (rule injI) (auto simp: hex_encode_def dest: hex_digits_inj)
  moreover have "\<exists>ds. hex_encode b = ''0x'' @ ds \<and> CHR ''x'' \<notin> set ds" for b
  proof -
    have lt: "unat z < 256" for z :: byte using unsigned_less [of z, where 'a = nat] by simp
    have "hex_digit (unat z div 16) \<noteq> CHR ''x''" "hex_digit (unat z mod 16) \<noteq> CHR ''x''" for z :: byte
      using hex_digit_not_x lt [of z] by auto
    then show ?thesis by (auto simp: hex_encode_def) metis+
  qed
  moreover have "inj (\<lambda>h :: PartSetHeader. replicate (unat (Total h)) (1 :: byte) @ 0 # psh_Hash h)"
  proof (rule injI)
    fix g h :: PartSetHeader
    assume eq: "replicate (unat (Total g)) (1 :: byte) @ 0 # psh_Hash g = replicate (unat (Total h)) 1 @ 0 # psh_Hash h"
    have tw: "takeWhile (\<lambda>z. z = 1) (replicate n (1 :: byte) @ 0 # xs) = replicate n 1" for n xs
      by (subst takeWhile_append2) auto
    have "unat (Total g) = unat (Total h)"
      using arg_cong [OF eq, of "takeWhile (\<lambda>z. z = 1)"] unfolding tw by (metis length_replicate)
    with eq show "g = h" by (intro PartSetHeader.equality) (simp_all add: word_unat_eq_iff)
  qed
  ultimately show ?thesis by (simp add: codec_ok_def demo_env_def)
qed

end
