(* ===== verification/Commit_Verify.thy ===== *)
theory Commit_Verify
  imports Vote
begin

text \<open>
  The two methods of \<^verbatim>\<open>consensus/tbft/types/validator_set.go\<close> that check a commit,
  \<open>VerifyCommit\<close> and \<open>VerifyCommitAny\<close>, and what an accepted commit proves.
\<close>

section \<open>Checking a commit\<close>

fun verify_loop ::
  "env \<Rightarrow> ValidatorSet \<Rightarrow> string \<Rightarrow> BlockID \<Rightarrow> u64 \<Rightarrow> int \<Rightarrow> nat \<Rightarrow> Vote option list \<Rightarrow> int \<Rightarrow>
   (commit_error + int) option" where
  "verify_loop E valSet chainID blockID height rnd idx [] tallied = Some (Inr tallied)"
| "verify_loop E valSet chainID blockID height rnd idx (None # ps) tallied =
     verify_loop E valSet chainID blockID height rnd (Suc idx) ps tallied"
| "verify_loop E valSet chainID blockID height rnd idx (Some precommit # ps) tallied =
     (if Height precommit \<noteq> height then Some (Inl ErrWrongHeight)
      else if to_int (Round precommit) \<noteq> rnd then Some (Inl ErrWrongRound)
      else if Type precommit \<noteq> VoteTypePrecommit then Some (Inl ErrNotPrecommit)
      else case snd (ValidatorSet_GetByIndex valSet (of_nat idx)) of
             None \<Rightarrow> None
           | Some val \<Rightarrow>
               if \<not> PubKeyTrue_VerifyBytes E (PubKey val) (Vote_SignBytes E chainID precommit) (Signature precommit)
               then Some (Inl ErrCommitSignature)
               else if \<not> BlockID_Equals blockID (vBlockID precommit)
               then verify_loop E valSet chainID blockID height rnd (Suc idx) ps tallied
               else verify_loop E valSet chainID blockID height rnd (Suc idx) ps
                      (if Result precommit = VoteAgree then wrap64 (tallied + VotingPower val) else tallied))"

definition ValidatorSet_VerifyCommit ::
  "env \<Rightarrow> ValidatorSet \<Rightarrow> string \<Rightarrow> BlockID \<Rightarrow> u64 \<Rightarrow> Commit \<Rightarrow> commit_error go_error option" where
  "ValidatorSet_VerifyCommit E valSet chainID blockID height commit =
     (if ValidatorSet_Size valSet \<noteq> of_nat (length (Precommits commit)) then Some (Err ErrWrongSetSize)
      else do {
        (h, commit) \<leftarrow> Commit_Height commit;
        if height \<noteq> h then Some (Err ErrWrongHeight)
        else do {
          (rnd, commit) \<leftarrow> Commit_Round commit;
          r \<leftarrow> verify_loop E valSet chainID blockID height rnd 0 (Precommits commit) 0;
          Some (case r of
                  Inl e \<Rightarrow> Err e
                | Inr tallied \<Rightarrow> if tallied > two_thirds valSet then NoError else Err ErrInsufficientPower)
        }
      })"

text \<open>\<open>VerifyCommitAny\<close> keeps the indices it has seen and two tallies.\<close>

fun verify_any_loop ::
  "env \<Rightarrow> ValidatorSet \<Rightarrow> ValidatorSet \<Rightarrow> string \<Rightarrow> BlockID \<Rightarrow> u64 \<Rightarrow> int \<Rightarrow> nat \<Rightarrow> Vote option list \<Rightarrow>
   (u64 set \<times> int \<times> int) \<Rightarrow> (commit_error + int \<times> int) option" where
  "verify_any_loop E valSet newSet chainID blockID height rnd idx [] s = Some (Inr (snd s))"
| "verify_any_loop E valSet newSet chainID blockID height rnd idx (None # ps) s =
     verify_any_loop E valSet newSet chainID blockID height rnd (Suc idx) ps s"
| "verify_any_loop E valSet newSet chainID blockID height rnd idx (Some precommit # ps) s =
     (let (seen, oldPower, newPower) = s
      in if Height precommit \<noteq> height then Some (Inl ErrWrongHeight)
         else if to_int (Round precommit) \<noteq> rnd then Some (Inl ErrWrongRound)
         else if Type precommit \<noteq> VoteTypePrecommit then Some (Inl ErrNotPrecommit)
         else if \<not> BlockID_Equals blockID (vBlockID precommit)
         then verify_any_loop E valSet newSet chainID blockID height rnd (Suc idx) ps s
         else (case ValidatorSet_GetByAddress valSet (ValidatorAddress precommit) of
                 (_, None) \<Rightarrow> verify_any_loop E valSet newSet chainID blockID height rnd (Suc idx) ps s
               | (vi, Some ov) \<Rightarrow>
                   if to_uint vi \<in> seen
                   then verify_any_loop E valSet newSet chainID blockID height rnd (Suc idx) ps s
                   else if \<not> PubKeyTrue_VerifyBytes E (PubKey ov) (Vote_SignBytes E chainID precommit) (Signature precommit)
                   then Some (Inl ErrCommitSignature)
                   else (case snd (ValidatorSet_GetByIndex newSet (of_nat idx)) of
                           None \<Rightarrow> None
                         | Some cv \<Rightarrow>
                             verify_any_loop E valSet newSet chainID blockID height rnd (Suc idx) ps
                               (insert (to_uint vi) seen,
                                if Result precommit = VoteAgree then wrap64 (oldPower + VotingPower ov) else oldPower,
                                if PubKeyTrue_Equals (PubKey cv) (PubKey ov) \<and> Result precommit = VoteAgree
                                then wrap64 (newPower + VotingPower cv) else newPower))))"

definition ValidatorSet_VerifyCommitAny ::
  "env \<Rightarrow> ValidatorSet \<Rightarrow> ValidatorSet \<Rightarrow> string \<Rightarrow> BlockID \<Rightarrow> u64 \<Rightarrow> Commit \<Rightarrow> commit_error go_error option" where
  "ValidatorSet_VerifyCommitAny E valSet newSet chainID blockID height commit =
     (if ValidatorSet_Size newSet \<noteq> of_nat (length (Precommits commit)) then Some (Err ErrWrongSetSize)
      else do {
        (h, commit) \<leftarrow> Commit_Height commit;
        if height \<noteq> h then Some (Err ErrWrongHeight)
        else do {
          (rnd, commit) \<leftarrow> Commit_Round commit;
          r \<leftarrow> verify_any_loop E valSet newSet chainID blockID height rnd 0 (Precommits commit) ({}, 0, 0);
          Some (case r of
                  Inl e \<Rightarrow> Err e
                | Inr (oldPower, newPower) \<Rightarrow>
                    if oldPower \<le> two_thirds valSet then Err ErrInsufficientOldPower
                    else if newPower \<le> two_thirds newSet then Err ErrInsufficientNewPower
                    else NoError)
        }
      })"

section \<open>What an accepted commit proves\<close>

definition good_precommit :: "env \<Rightarrow> ValidatorSet \<Rightarrow> string \<Rightarrow> u64 \<Rightarrow> int \<Rightarrow> nat \<Rightarrow> Vote \<Rightarrow> bool" where
  "good_precommit E vs chainID height rnd i v \<longleftrightarrow>
     Height v = height \<and> to_int (Round v) = rnd \<and> Type v = VoteTypePrecommit \<and>
     PubKeyTrue_VerifyBytes E (PubKey (Validators vs ! i)) (Vote_SignBytes E chainID v) (Signature v)"

definition agrees :: "BlockID \<Rightarrow> Vote option \<Rightarrow> bool" where
  "agrees blockID p = (case p of None \<Rightarrow> False | Some v \<Rightarrow> BlockID_Equals blockID (vBlockID v) \<and> Result v = VoteAgree)"

lemma BlockID_Equals_iff [simp]: "BlockID_Equals a b \<longleftrightarrow> a = b"
  by (auto simp: BlockID_Equals_def PartSetHeader_Equals_def intro: BlockID.equality PartSetHeader.equality)

lemma GetByIndex_nth:
  "i < vnum vs \<Longrightarrow> vnum vs < 2 ^ 63 \<Longrightarrow>
    ValidatorSet_GetByIndex vs (of_nat i) = (Address (Validators vs ! i), Some (Validators vs ! i))"
  by (simp add: ValidatorSet_GetByIndex_def ValidatorSet_Size_def word_le_nat_alt unat_of_nat64 Let_def)

lemma wsum_upto_Suc:
  "i < n \<Longrightarrow> wsum n (\<lambda>j. j < Suc i \<and> P j) w = wsum n (\<lambda>j. j < i \<and> P j) w + (if P i then w i else 0)"
proof (cases "P i")
  case True
  assume "i < n"
  have "wsum n (\<lambda>j. j < Suc i \<and> P j) w = wsum n (\<lambda>j. j = i \<or> j < i \<and> P j) w"
    by (rule wsum_cong) (use True in auto)
  then show ?thesis using wsum_insert [OF \<open>i < n\<close>, of "\<lambda>j. j < i \<and> P j" w] True by simp
next
  case False
  then have "wsum n (\<lambda>j. j < Suc i \<and> P j) w = wsum n (\<lambda>j. j < i \<and> P j) w"
    by (intro wsum_cong) (auto simp: less_Suc_eq)
  with False show ?thesis by simp
qed

lemma verify_loop_good:
  assumes ok: "powers_ok vs" and len: "length ps = vnum vs"
    and good: "\<And>i v. i < vnum vs \<Longrightarrow> ps ! i = Some v \<Longrightarrow> good_precommit E vs chainID height rnd i v"
  shows "idx \<le> vnum vs \<Longrightarrow>
    verify_loop E vs chainID blockID height rnd idx (drop idx ps) (wsum (vnum vs) (\<lambda>i. i < idx \<and> agrees blockID (ps ! i)) (vpow vs)) =
      Some (Inr (wsum (vnum vs) (\<lambda>i. agrees blockID (ps ! i)) (vpow vs)))"
proof (induction "vnum vs - idx" arbitrary: idx)
  case 0
  then have "idx = vnum vs" by simp
  then show ?case using len by (auto intro!: wsum_cong)
next
  case (Suc d)
  let ?s = "\<lambda>idx. wsum (vnum vs) (\<lambda>i. i < idx \<and> agrees blockID (ps ! i)) (vpow vs)"
  have i: "idx < vnum vs" using Suc by simp
  have IH: "verify_loop E vs chainID blockID height rnd (Suc idx) (drop (Suc idx) ps) (?s (Suc idx)) =
      Some (Inr (wsum (vnum vs) (\<lambda>i. agrees blockID (ps ! i)) (vpow vs)))"
    using Suc i by (intro Suc.hyps(1)) auto
  have dr: "drop idx ps = ps ! idx # drop (Suc idx) ps" using i len by (simp add: Cons_nth_drop_Suc)
  have step: "?s (Suc idx) = ?s idx + (if agrees blockID (ps ! idx) then vpow vs idx else 0)"
    using i by (rule wsum_upto_Suc)
  show ?case
  proof (cases "ps ! idx")
    case None
    then show ?thesis using IH step by (simp add: dr agrees_def)
  next
    case (Some v)
    have n63: "vnum vs < 2 ^ 63" using ok by (simp add: powers_ok_def)
    have "wrap64 (?s idx + VotingPower (Validators vs ! idx)) = ?s (Suc idx)" if "agrees blockID (ps ! idx)"
      using step that wsum_int64 [OF ok, of "\<lambda>i. i < Suc idx \<and> agrees blockID (ps ! i)"] ok by (simp add: vpow_def)
    then show ?thesis
      using IH step good [OF i Some] GetByIndex_nth [OF i n63]
      by (auto simp: dr Some good_precommit_def agrees_def)
  qed
qed

lemma verify_loop_bad:
  assumes n63: "vnum vs < 2 ^ 63" and len: "length ps = vnum vs"
  shows "idx \<le> vnum vs \<Longrightarrow> idx \<le> i \<Longrightarrow> i < vnum vs \<Longrightarrow> ps ! i = Some v \<Longrightarrow>
    \<not> good_precommit E vs chainID height rnd i v \<Longrightarrow>
    \<exists>e. verify_loop E vs chainID blockID height rnd idx (drop idx ps) t = Some (Inl e)"
proof (induction "vnum vs - idx" arbitrary: idx t)
  case (Suc d)
  have idx: "idx < vnum vs" using Suc by simp
  have dr: "drop idx ps = ps ! idx # drop (Suc idx) ps" using idx len by (simp add: Cons_nth_drop_Suc)
  have IH: "\<exists>e. verify_loop E vs chainID blockID height rnd (Suc idx) (drop (Suc idx) ps) t = Some (Inl e)"
    if "idx \<noteq> i" for t
    using Suc.prems Suc.hyps(2) that by (intro Suc.hyps(1)) auto
  show ?case
  proof (cases "idx = i")
    case True
    then show ?thesis using Suc.prems GetByIndex_nth [OF idx n63] dr by (auto simp: good_precommit_def)
  next
    case False
    then show ?thesis
      using IH [OF False] GetByIndex_nth [OF idx n63] dr by (cases "ps ! idx") auto
  qed
qed simp

text \<open>The caches of a commit agree with its precommits.\<close>

definition commit_ok :: "Commit \<Rightarrow> bool" where
  "commit_ok c \<longleftrightarrow> firstPrecommit c = None \<or> firstPrecommit c = first_vote (Precommits c)"

definition commit_first :: "Commit \<Rightarrow> Vote" where
  "commit_first c = (case first_vote (Precommits c) of None \<Rightarrow> empty_precommit | Some v \<Rightarrow> v)"

lemma first_vote_Nil [simp]: "first_vote [] = None"
  by (simp add: first_vote_def)

lemma Commit_Height_eq:
  assumes "commit_ok c"
  shows "\<exists>c'. Commit_Height c = Some (Height (commit_first c), c') \<and> commit_ok c' \<and> Precommits c' = Precommits c \<and>
    commit_first c' = commit_first c"
  using assms
  by (cases "Precommits c = []"; cases "firstPrecommit c"; cases "first_vote (Precommits c)")
    (auto simp: Commit_Height_def Commit_FirstPrecommit_def commit_ok_def commit_first_def empty_precommit_def)

lemma Commit_Round_eq:
  assumes "commit_ok c"
  shows "\<exists>c'. Commit_Round c = Some (to_int (Round (commit_first c)), c') \<and> Precommits c' = Precommits c"
  using assms
  by (cases "Precommits c = []"; cases "firstPrecommit c"; cases "first_vote (Precommits c)")
    (auto simp: Commit_Round_def Commit_FirstPrecommit_def commit_ok_def commit_first_def empty_precommit_def)

lemma VerifyCommit_unfold:
  assumes "commit_ok c"
  shows "ValidatorSet_VerifyCommit E vs chainID blockID height c =
    (if ValidatorSet_Size vs \<noteq> of_nat (length (Precommits c)) then Some (Err ErrWrongSetSize)
     else if height \<noteq> Height (commit_first c) then Some (Err ErrWrongHeight)
     else map_option (\<lambda>r. case r of Inl e \<Rightarrow> Err e
            | Inr tallied \<Rightarrow> if tallied > two_thirds vs then NoError else Err ErrInsufficientPower)
          (verify_loop E vs chainID blockID height (to_int (Round (commit_first c))) 0 (Precommits c) 0))"
proof -
  obtain c1 where c1: "Commit_Height c = Some (Height (commit_first c), c1)" "commit_ok c1"
    "Precommits c1 = Precommits c" "commit_first c1 = commit_first c" using Commit_Height_eq [OF assms] by blast
  obtain c2 where "Commit_Round c1 = Some (to_int (Round (commit_first c1)), c2)" "Precommits c2 = Precommits c1"
    using Commit_Round_eq [OF c1(2)] by blast
  with c1 show ?thesis
    by (simp add: ValidatorSet_VerifyCommit_def map_option_case split: option.splits)
qed

definition precommits_good :: "env \<Rightarrow> ValidatorSet \<Rightarrow> string \<Rightarrow> u64 \<Rightarrow> Commit \<Rightarrow> bool" where
  "precommits_good E vs chainID height c \<longleftrightarrow>
     (\<forall>i < vnum vs. case Precommits c ! i of
        None \<Rightarrow> True
      | Some v \<Rightarrow> good_precommit E vs chainID height (to_int (Round (commit_first c))) i v)"

lemma VerifyCommit_cases:
  assumes ok: "powers_ok vs" and c: "commit_ok c" and n: "length (Precommits c) < 2 ^ 63"
  obtains "ValidatorSet_VerifyCommit E vs chainID blockID height c = Some NoError"
      "length (Precommits c) = vnum vs" "height = Height (commit_first c)" "precommits_good E vs chainID height c"
      "2 * wv.total vs < 3 * wsum (vnum vs) (\<lambda>i. agrees blockID (Precommits c ! i)) (vpow vs)"
  | e where "ValidatorSet_VerifyCommit E vs chainID blockID height c = Some (Err e)"
      "\<not> (length (Precommits c) = vnum vs \<and> height = Height (commit_first c) \<and> precommits_good E vs chainID height c \<and>
        2 * wv.total vs < 3 * wsum (vnum vs) (\<lambda>i. agrees blockID (Precommits c ! i)) (vpow vs))"
proof -
  let ?r = "to_int (Round (commit_first c))"
  let ?w = "wsum (vnum vs) (\<lambda>i. agrees blockID (Precommits c ! i)) (vpow vs)"
  have n63: "vnum vs < 2 ^ 63" using ok by (simp add: powers_ok_def)
  have size: "ValidatorSet_Size vs = of_nat (length (Precommits c)) \<longleftrightarrow> length (Precommits c) = vnum vs"
    using unat_of_nat64 [OF n] unat_of_nat64 [OF n63] by (metis ValidatorSet_Size_def)
  show thesis
  proof (cases "length (Precommits c) = vnum vs \<and> height = Height (commit_first c)")
    case False
    then show thesis using that(2) size by (auto simp: VerifyCommit_unfold [OF c])
  next
    case True
    show thesis
    proof (cases "precommits_good E vs chainID height c")
      case g: True
      have "verify_loop E vs chainID blockID height ?r 0 (drop 0 (Precommits c))
          (wsum (vnum vs) (\<lambda>i. i < 0 \<and> agrees blockID (Precommits c ! i)) (vpow vs)) = Some (Inr ?w)"
        using True g by (intro verify_loop_good [OF ok]) (auto simp: precommits_good_def split: option.splits)
      then have "ValidatorSet_VerifyCommit E vs chainID blockID height c =
          Some (if two_thirds vs < ?w then NoError else Err ErrInsufficientPower)"
        using True size by (simp add: VerifyCommit_unfold [OF c])
      then show thesis using that True g two_thirds_less [OF ok] by (cases "two_thirds vs < ?w") auto
    next
      case g: False
      then obtain i v where "i < vnum vs" "Precommits c ! i = Some v" "\<not> good_precommit E vs chainID height ?r i v"
        by (auto simp: precommits_good_def split: option.splits)
      then have "\<exists>e. verify_loop E vs chainID blockID height ?r 0 (drop 0 (Precommits c)) 0 = Some (Inl e)"
        using True by (intro verify_loop_bad [OF n63]) auto
      then show thesis using that(2) True g size by (auto simp: VerifyCommit_unfold [OF c])
    qed
  qed
qed

lemma VerifyCommit_iff:
  assumes "powers_ok vs" "commit_ok c" "length (Precommits c) < 2 ^ 63"
  shows "ValidatorSet_VerifyCommit E vs chainID blockID height c \<noteq> None"
    "ValidatorSet_VerifyCommit E vs chainID blockID height c = Some NoError \<longleftrightarrow>
      length (Precommits c) = vnum vs \<and> height = Height (commit_first c) \<and> precommits_good E vs chainID height c \<and>
      2 * wv.total vs < 3 * wsum (vnum vs) (\<lambda>i. agrees blockID (Precommits c ! i)) (vpow vs)"
  by (rule VerifyCommit_cases [OF assms, where E = E and chainID = chainID and blockID = blockID and height = height]; auto)+

text \<open>A precommit for the block that a validator of the old set signed.\<close>

definition counts_old :: "env \<Rightarrow> ValidatorSet \<Rightarrow> string \<Rightarrow> BlockID \<Rightarrow> Vote option list \<Rightarrow> nat \<Rightarrow> bool" where
  "counts_old E old chainID blockID ps i \<longleftrightarrow>
     (\<exists>j < length ps. agrees blockID (ps ! j) \<and> ValidatorAddress (the (ps ! j)) = Address (Validators old ! i) \<and>
        PubKeyTrue_VerifyBytes E (PubKey (Validators old ! i)) (Vote_SignBytes E chainID (the (ps ! j))) (Signature (the (ps ! j))))"

definition counts_new :: "env \<Rightarrow> ValidatorSet \<Rightarrow> string \<Rightarrow> BlockID \<Rightarrow> Vote option list \<Rightarrow> nat \<Rightarrow> bool" where
  "counts_new E new chainID blockID ps j \<longleftrightarrow>
     j < length ps \<and> agrees blockID (ps ! j) \<and>
     PubKeyTrue_VerifyBytes E (PubKey (Validators new ! j)) (Vote_SignBytes E chainID (the (ps ! j))) (Signature (the (ps ! j)))"

lemma PubKeyTrue_Equals_eq: "PubKeyTrue_Equals a b \<Longrightarrow> a = b"
  by (auto simp: PubKeyTrue_Equals_def split: if_splits)

lemma wsum_add_wrap:
  assumes ok: "powers_ok vs" and i: "i < vnum vs" "\<not> P i"
  shows "wrap64 (wsum (vnum vs) P (vpow vs) + VotingPower (Validators vs ! i)) = wsum (vnum vs) (\<lambda>j. j = i \<or> P j) (vpow vs)"
proof -
  have "wsum (vnum vs) (\<lambda>j. j = i \<or> P j) (vpow vs) = wsum (vnum vs) P (vpow vs) + VotingPower (Validators vs ! i)"
    using wsum_insert [of i "vnum vs" P "vpow vs"] i ok by (simp add: vpow_def)
  with wsum_int64 [OF ok, of "\<lambda>j. j = i \<or> P j"] show ?thesis by (metis wrap64_id)
qed

definition any_inv ::
  "env \<Rightarrow> ValidatorSet \<Rightarrow> ValidatorSet \<Rightarrow> string \<Rightarrow> BlockID \<Rightarrow> Vote option list \<Rightarrow> nat \<Rightarrow> u64 set \<times> int \<times> int \<Rightarrow> bool" where
  "any_inv E old new chainID blockID ps idx s \<longleftrightarrow>
     (\<exists>P Q. fst (snd s) = wsum (vnum old) P (vpow old) \<and> snd (snd s) = wsum (vnum new) Q (vpow new) \<and>
        (\<forall>i. P i \<longrightarrow> i < vnum old \<and> of_nat i \<in> fst s \<and> counts_old E old chainID blockID ps i) \<and>
        (\<forall>j. Q j \<longrightarrow> j < idx \<and> counts_new E new chainID blockID ps j))"

lemma any_inv_Suc: "any_inv E old new chainID blockID ps idx s \<Longrightarrow> any_inv E old new chainID blockID ps (Suc idx) s"
proof -
  assume "any_inv E old new chainID blockID ps idx s"
  then obtain P Q where "fst (snd s) = wsum (vnum old) P (vpow old)" "snd (snd s) = wsum (vnum new) Q (vpow new)"
    "\<forall>i. P i \<longrightarrow> i < vnum old \<and> of_nat i \<in> fst s \<and> counts_old E old chainID blockID ps i"
    "\<forall>j. Q j \<longrightarrow> j < idx \<and> counts_new E new chainID blockID ps j"
    unfolding any_inv_def by blast
  then show ?thesis unfolding any_inv_def by (intro exI [of _ P] exI [of _ Q]) auto
qed

lemma any_inv_step:
  assumes old: "powers_ok old" and new: "powers_ok new" and len: "length ps = vnum new"
    and inv: "any_inv E old new chainID blockID ps idx (seen, o', n')" and idx: "idx < vnum new"
    and p: "ps ! idx = Some v" "vBlockID v = blockID"
    and k: "k < vnum old" "Address (Validators old ! k) = ValidatorAddress v" "of_nat k \<notin> seen"
    and sig: "PubKeyTrue_VerifyBytes E (PubKey (Validators old ! k)) (Vote_SignBytes E chainID v) (Signature v)"
  shows "any_inv E old new chainID blockID ps (Suc idx)
    (insert (of_nat k) seen,
     if Result v = VoteAgree then wrap64 (o' + VotingPower (Validators old ! k)) else o',
     if PubKeyTrue_Equals (PubKey (Validators new ! idx)) (PubKey (Validators old ! k)) \<and> Result v = VoteAgree
     then wrap64 (n' + VotingPower (Validators new ! idx)) else n')"
proof -
  let ?same = "PubKeyTrue_Equals (PubKey (Validators new ! idx)) (PubKey (Validators old ! k))"
  from inv obtain P Q where o': "o' = wsum (vnum old) P (vpow old)" and n': "n' = wsum (vnum new) Q (vpow new)"
    and P: "\<And>i. P i \<Longrightarrow> i < vnum old \<and> of_nat i \<in> seen \<and> counts_old E old chainID blockID ps i"
    and Q: "\<And>j. Q j \<Longrightarrow> j < idx \<and> counts_new E new chainID blockID ps j"
    by (auto simp: any_inv_def)
  show ?thesis
  proof (cases "Result v = VoteAgree")
    case False
    with o' n' P Q show ?thesis unfolding any_inv_def
      by (intro exI [of _ P] exI [of _ Q]) (auto intro: less_SucI)
  next
    case True
    have a: "agrees blockID (ps ! idx)" using p True by (simp add: agrees_def)
    have ck: "counts_old E old chainID blockID ps k"
      unfolding counts_old_def using a p k sig idx len by (intro exI [of _ idx]) auto
    have cn: "counts_new E new chainID blockID ps idx" if ?same
      using a p sig idx len PubKeyTrue_Equals_eq [OF that] by (simp add: counts_new_def)
    have "\<not> P k" "\<not> Q idx" using P Q k by auto
    then have "wrap64 (o' + VotingPower (Validators old ! k)) = wsum (vnum old) (\<lambda>j. j = k \<or> P j) (vpow old)"
      "wrap64 (n' + VotingPower (Validators new ! idx)) = wsum (vnum new) (\<lambda>j. j = idx \<or> Q j) (vpow new)"
      using wsum_add_wrap [OF old k(1)] wsum_add_wrap [OF new idx] o' n' by auto
    then show ?thesis using P Q n' k(1) ck cn True unfolding any_inv_def
      by (intro exI [of _ "\<lambda>j. j = k \<or> P j"] exI [of _ "if ?same then \<lambda>j. j = idx \<or> Q j else Q"])
        (auto intro: less_SucI)
  qed
qed

lemma verify_any_loop_sound:
  assumes old: "powers_ok old" "vs_ordered old" and new: "powers_ok new" and len: "length ps = vnum new"
  shows "idx \<le> vnum new \<Longrightarrow> any_inv E old new chainID blockID ps idx s \<Longrightarrow>
    verify_any_loop E old new chainID blockID height rnd idx (drop idx ps) s = Some (Inr r) \<Longrightarrow>
    \<exists>seen. any_inv E old new chainID blockID ps (vnum new) (seen, r)"
proof (induction "vnum new - idx" arbitrary: idx s)
  case 0
  then have "idx = vnum new" by simp
  with 0 len show ?case by (intro exI [of _ "fst s"]) auto
next
  case (Suc d)
  obtain seen o' n' where s: "s = (seen, o', n')" by (cases s)
  have idx: "idx < vnum new" using Suc by simp
  have n63: "vnum new < 2 ^ 63" using new by (simp add: powers_ok_def)
  have dr: "drop idx ps = ps ! idx # drop (Suc idx) ps" using idx len by (simp add: Cons_nth_drop_Suc)
  have IH: "any_inv E old new chainID blockID ps (Suc idx) t \<Longrightarrow>
    verify_any_loop E old new chainID blockID height rnd (Suc idx) (drop (Suc idx) ps) t = Some (Inr r) \<Longrightarrow>
    \<exists>seen. any_inv E old new chainID blockID ps (vnum new) (seen, r)" for t
    using Suc.hyps idx by (intro Suc.hyps(1)) auto
  note skip = IH [OF any_inv_Suc [OF Suc.prems(2)]]
  show ?case
  proof (cases "ps ! idx")
    case None
    then show ?thesis using skip Suc.prems(3) by (simp add: dr)
  next
    case (Some v)
    note run = Suc.prems(3) [unfolded dr Some s, simplified]
    show ?thesis
    proof (cases rule: search_address_cases [OF old(2), of "ValidatorAddress v"])
      case (1 k)
      have gba: "ValidatorSet_GetByAddress old (ValidatorAddress v) = (int k, Some (Validators old ! k))"
        using 1 by (simp add: ValidatorSet_GetByAddress_def)
      have tu: "to_uint (int k) = of_nat k" by (simp add: to_uint_def)
      show ?thesis
      proof (cases "blockID = vBlockID v \<and> of_nat k \<notin> seen")
        case True
        then show ?thesis
          using run any_inv_step [OF old(1) new len Suc.prems(2) [unfolded s] idx Some _ 1(1) 1(3)] IH
            GetByIndex_nth [OF idx n63] by (auto simp: gba tu split: if_splits)
      next
        case False
        then show ?thesis using run skip by (auto simp: gba tu s split: if_splits)
      qed
    next
      case 2
      then have "ValidatorSet_GetByAddress old (ValidatorAddress v) = (- 1, None)"
        by (auto simp: ValidatorSet_GetByAddress_def Let_def)
      then show ?thesis using run skip by (auto simp: s split: if_splits)
    qed
  qed
qed

lemma VerifyCommitAny_unfold:
  assumes "commit_ok c"
  shows "ValidatorSet_VerifyCommitAny E old new chainID blockID height c =
    (if ValidatorSet_Size new \<noteq> of_nat (length (Precommits c)) then Some (Err ErrWrongSetSize)
     else if height \<noteq> Height (commit_first c) then Some (Err ErrWrongHeight)
     else map_option (\<lambda>r. case r of Inl e \<Rightarrow> Err e
            | Inr (oldPower, newPower) \<Rightarrow>
                if oldPower \<le> two_thirds old then Err ErrInsufficientOldPower
                else if newPower \<le> two_thirds new then Err ErrInsufficientNewPower else NoError)
          (verify_any_loop E old new chainID blockID height (to_int (Round (commit_first c))) 0 (Precommits c) ({}, 0, 0)))"
proof -
  obtain c1 where c1: "Commit_Height c = Some (Height (commit_first c), c1)" "commit_ok c1"
    "Precommits c1 = Precommits c" "commit_first c1 = commit_first c" using Commit_Height_eq [OF assms] by blast
  obtain c2 where "Commit_Round c1 = Some (to_int (Round (commit_first c1)), c2)" "Precommits c2 = Precommits c1"
    using Commit_Round_eq [OF c1(2)] by blast
  with c1 show ?thesis
    by (simp add: ValidatorSet_VerifyCommitAny_def map_option_case split: option.splits)
qed

section \<open>Properties\<close>

text \<open>
  C16: \<open>VerifyCommit\<close> never panics, and it accepts a commit exactly when the commit has one slot
  per validator, the given height, only precommits of that height and of one round that carry a
  valid signature of the validator of their slot, and the validators that agree to the block
  hold more than two thirds of the voting power. The total power must fit 62 bits.
\<close>

theorem VerifyCommit_exact:
  assumes "powers_ok vs" "commit_ok c" "length (Precommits c) < 2 ^ 63"
  shows "ValidatorSet_VerifyCommit E vs chainID blockID height c \<noteq> None \<and>
    (ValidatorSet_VerifyCommit E vs chainID blockID height c = Some NoError \<longleftrightarrow>
      length (Precommits c) = vnum vs \<and> height = Height (commit_first c) \<and> precommits_good E vs chainID height c \<and>
      2 * wv.total vs < 3 * wsum (vnum vs) (\<lambda>i. agrees blockID (Precommits c ! i)) (vpow vs))"
  using VerifyCommit_iff [OF assms] by blast

text \<open>One validator, one precommit.\<close>

definition demo_vs :: ValidatorSet where
  "demo_vs = \<lparr>Validators = [\<lparr>Address = [7], PubKey = [7], VotingPower = 1, Accum = 0\<rparr>], Proposer = None, totalVotingPower = 0\<rparr>"

definition demo_vote :: "byte \<Rightarrow> Vote" where
  "demo_vote t = \<lparr>ValidatorAddress = [7], ValidatorIndex = 0, Height = 1, Round = 0, Result = VoteAgree, Timestamp = 0,
     Type = t, vBlockID = \<lparr>Hash = [3], PartsHeader = zero_header\<rparr>, Signature = [7], ResultSign = []\<rparr>"

definition demo_commit :: Commit where
  "demo_commit = \<lparr>cBlockID = \<lparr>Hash = [3], PartsHeader = zero_header\<rparr>, Precommits = [Some (demo_vote VoteTypePrecommit)],
     firstPrecommit = None, bitArray = None\<rparr>"

lemma powers_ok_demo: "powers_ok demo_vs"
  by (simp add: powers_ok_def demo_vs_def power_sum_def vs_total_alt safeAddClip_def safeAdd_def wrap64_def)

theorem VerifyCommit_exact_witness:
  "ValidatorSet_VerifyCommit demo_env demo_vs [] \<lparr>Hash = [3], PartsHeader = zero_header\<rparr> 1 demo_commit = Some NoError"
proof -
  have "precommits_good demo_env demo_vs [] 1 demo_commit"
    by (simp add: precommits_good_def demo_vs_def demo_commit_def commit_first_def first_vote_def good_precommit_def
        demo_vote_def PubKeyTrue_VerifyBytes_def PubKeyTrue_Equals_def demo_env_def)
  moreover have "2 * wv.total demo_vs < 3 * wsum (vnum demo_vs)
      (\<lambda>i. agrees \<lparr>Hash = [3], PartsHeader = zero_header\<rparr> (Precommits demo_commit ! i)) (vpow demo_vs)"
    unfolding wv.total_def wsum_def vpow_def using powers_ok_demo
    by (simp add: agrees_def demo_commit_def demo_vote_def demo_vs_def)
  ultimately show ?thesis
    using VerifyCommit_exact [OF powers_ok_demo, of demo_commit demo_env "[]" "\<lparr>Hash = [3], PartsHeader = zero_header\<rparr>" 1]
    by (simp add: commit_ok_def commit_first_def first_vote_def demo_commit_def demo_vote_def demo_vs_def)
qed

text \<open>
  C22: a commit that \<open>VerifyCommitAny\<close> accepts was signed by more than two thirds of the voting
  power of the known set and by more than two thirds of the power of the new set; no validator of
  the known set is counted twice.
\<close>

theorem VerifyCommitAny_sound:
  assumes "powers_ok old" "vs_ordered old" "powers_ok new" "commit_ok c" "length (Precommits c) < 2 ^ 63"
    and "ValidatorSet_VerifyCommitAny E old new chainID blockID height c = Some NoError"
  shows "2 * wv.total old < 3 * wsum (vnum old) (counts_old E old chainID blockID (Precommits c)) (vpow old) \<and>
    2 * wv.total new < 3 * wsum (vnum new) (counts_new E new chainID blockID (Precommits c)) (vpow new)"
proof -
  let ?r = "to_int (Round (commit_first c))"
  let ?loop = "verify_any_loop E old new chainID blockID height ?r 0 (Precommits c) ({}, 0, 0)"
  have n63: "vnum new < 2 ^ 63" using assms(3) by (simp add: powers_ok_def)
  note run = assms(6) [unfolded VerifyCommitAny_unfold [OF assms(4)]]
  have size: "ValidatorSet_Size new = of_nat (length (Precommits c))" and h: "height = Height (commit_first c)"
    using run by (auto split: if_splits)
  have loop: "\<exists>o' n'. ?loop = Some (Inr (o', n')) \<and> two_thirds old < o' \<and> two_thirds new < n'"
  proof (cases ?loop)
    case None
    then show ?thesis using run size h by simp
  next
    case (Some r)
    then show ?thesis using run size h by (cases r) (auto split: if_splits)
  qed
  from size have len: "length (Precommits c) = vnum new"
    using unat_of_nat64 [OF n63] unat_of_nat64 [OF assms(5)] by (metis ValidatorSet_Size_def)
  from loop obtain o' n' where loop: "verify_any_loop E old new chainID blockID height ?r 0 (drop 0 (Precommits c)) ({}, 0, 0) =
      Some (Inr (o', n'))" and q: "two_thirds old < o'" "two_thirds new < n'" by auto
  have "any_inv E old new chainID blockID (Precommits c) 0 ({}, 0, 0)"
    unfolding any_inv_def by (intro exI [of _ "\<lambda>_. False"]) simp
  from verify_any_loop_sound [OF assms(1-3) len _ this loop] obtain P Q where
    "o' = wsum (vnum old) P (vpow old)" "n' = wsum (vnum new) Q (vpow new)"
    "\<And>i. P i \<Longrightarrow> counts_old E old chainID blockID (Precommits c) i"
    "\<And>i. Q i \<Longrightarrow> counts_new E new chainID blockID (Precommits c) i"
    by (auto simp: any_inv_def)
  moreover from calculation have "o' \<le> wsum (vnum old) (counts_old E old chainID blockID (Precommits c)) (vpow old)"
    "n' \<le> wsum (vnum new) (counts_new E new chainID blockID (Precommits c)) (vpow new)"
    by (auto intro!: wsum_mono wv.w_nonneg)
  ultimately show ?thesis using q two_thirds_less [OF assms(1), of o'] two_thirds_less [OF assms(3), of n'] by linarith
qed

lemma GetByAddress_demo: "ValidatorSet_GetByAddress demo_vs [7] = (0, Some (hd (Validators demo_vs)))"
proof -
  have "search_address demo_vs (Address (Validators demo_vs ! 0)) = 0"
    by (rule search_address_found) (simp_all add: demo_vs_def vs_ordered_def)
  then show ?thesis by (simp add: ValidatorSet_GetByAddress_def demo_vs_def)
qed

theorem VerifyCommitAny_sound_witness:
  "2 * wv.total demo_vs < 3 * wsum (vnum demo_vs)
    (counts_old demo_env demo_vs [] \<lparr>Hash = [3], PartsHeader = zero_header\<rparr> (Precommits demo_commit)) (vpow demo_vs)"
proof -
  have "ValidatorSet_VerifyCommitAny demo_env demo_vs demo_vs [] \<lparr>Hash = [3], PartsHeader = zero_header\<rparr> 1 demo_commit = Some NoError"
    by (simp add: ValidatorSet_VerifyCommitAny_def ValidatorSet_Size_def Commit_Height_def Commit_Round_def
        Commit_FirstPrecommit_def first_vote_def demo_commit_def demo_vs_def demo_vote_def
        GetByAddress_demo [unfolded demo_vs_def] ValidatorSet_GetByIndex_def PubKeyTrue_VerifyBytes_def PubKeyTrue_Equals_def demo_env_def two_thirds_def
        vs_total_alt safeAddClip_def safeAdd_def wrap64_def Let_def)
  moreover have "vs_ordered demo_vs" "commit_ok demo_commit" "length (Precommits demo_commit) < 2 ^ 63"
    by (simp_all add: vs_ordered_def commit_ok_def demo_commit_def demo_vs_def)
  ultimately show ?thesis
    using VerifyCommitAny_sound [OF powers_ok_demo _ powers_ok_demo] by blast
qed

end
