(* ===== verification/Vote_Set.thy ===== *)
theory Vote_Set
  imports Commit_Verify
begin

text \<open>
  Vote sets, \<^verbatim>\<open>consensus/tbft/types/vote_set.go\<close>: the votes of one type for one height and
  round, the votes kept per block, and the detection of a two thirds majority. A map is a partial
  function; a mutex has no counterpart, an operation being one step.
\<close>

section \<open>The operations\<close>

record blockVotes =
  bv_peerMaj23 :: bool
  bv_bitArray :: "BitArray option"
  bv_votes :: "Vote option list"
  bv_sum :: int

record VoteSet =
  vs_chainID :: string
  vs_height :: u64
  vs_round :: u64
  vs_typeB :: byte
  vs_valSet :: ValidatorSet
  vs_votesBitArray :: "BitArray option"
  vs_votes :: "Vote option list"
  vs_sum :: int
  vs_vsum :: int
  vs_maj23 :: "BlockID option"
  vs_votesByBlock :: "string \<rightharpoonup> blockVotes"
  vs_peerMaj23s :: "string \<rightharpoonup> BlockID"

definition newBlockVotes :: "bool \<Rightarrow> u64 \<Rightarrow> blockVotes" where
  "newBlockVotes peerMaj23 numValidators =
     \<lparr>bv_peerMaj23 = peerMaj23, bv_bitArray = NewBitArray numValidators,
      bv_votes = replicate (unat numValidators) None, bv_sum = 0\<rparr>"

definition blockVotes_addVerifiedVote :: "Vote \<Rightarrow> int \<Rightarrow> blockVotes \<Rightarrow> blockVotes option" where
  "blockVotes_addVerifiedVote vote votingPower vs = do {
     let valIndex = ValidatorIndex vote;
     existing \<leftarrow> go_nth (bv_votes vs) (unat valIndex);
     if existing = None then do {
       (_, b) \<leftarrow> BitArray_SetIndex (bv_bitArray vs) valIndex True;
       Some (vs\<lparr>bv_bitArray := b, bv_votes := (bv_votes vs)[unat valIndex := Some vote],
                bv_sum := (if Result vote = VoteAgree then wrap64 (bv_sum vs + votingPower) else bv_sum vs)\<rparr>)
     }
     else Some vs
   }"

definition blockVotes_getByIndex :: "blockVotes option \<Rightarrow> u64 \<Rightarrow> Vote option option" where
  "blockVotes_getByIndex vs index =
     (case vs of None \<Rightarrow> Some None | Some vs \<Rightarrow> go_nth (bv_votes vs) (unat index))"

definition NewVoteSet :: "string \<Rightarrow> u64 \<Rightarrow> int \<Rightarrow> byte \<Rightarrow> ValidatorSet \<Rightarrow> VoteSet option" where
  "NewVoteSet chainID height rnd typeB valSet =
     (if height = 0 then None
      else Some \<lparr>vs_chainID = chainID, vs_height = height, vs_round = to_uint rnd, vs_typeB = typeB,
        vs_valSet = valSet, vs_votesBitArray = NewBitArray (ValidatorSet_Size valSet),
        vs_votes = replicate (unat (ValidatorSet_Size valSet)) None, vs_sum = 0, vs_vsum = 0,
        vs_maj23 = None, vs_votesByBlock = (\<lambda>_. None), vs_peerMaj23s = (\<lambda>_. None)\<rparr>)"

definition VoteSet_ChainID :: "VoteSet \<Rightarrow> string" where
  "VoteSet_ChainID voteSet = vs_chainID voteSet"

definition VoteSet_Height :: "VoteSet option \<Rightarrow> u64" where
  "VoteSet_Height voteSet = (case voteSet of None \<Rightarrow> 0 | Some s \<Rightarrow> vs_height s)"

definition VoteSet_Round :: "VoteSet option \<Rightarrow> int" where
  "VoteSet_Round voteSet = (case voteSet of None \<Rightarrow> - 1 | Some s \<Rightarrow> to_int (vs_round s))"

definition VoteSet_Type :: "VoteSet option \<Rightarrow> byte" where
  "VoteSet_Type voteSet = (case voteSet of None \<Rightarrow> 0 | Some s \<Rightarrow> vs_typeB s)"

definition VoteSet_Size :: "VoteSet option \<Rightarrow> u64" where
  "VoteSet_Size voteSet = (case voteSet of None \<Rightarrow> 0 | Some s \<Rightarrow> ValidatorSet_Size (vs_valSet s))"

definition VoteSet_getVote :: "env \<Rightarrow> VoteSet \<Rightarrow> u64 \<Rightarrow> string \<Rightarrow> Vote option option" where
  "VoteSet_getVote E voteSet valIndex blockKey = do {
     existing \<leftarrow> go_nth (vs_votes voteSet) (unat valIndex);
     case existing of
       Some v \<Rightarrow> if BlockID_Key E (vBlockID v) = blockKey then Some (Some v)
                 else blockVotes_getByIndex (vs_votesByBlock voteSet blockKey) valIndex
     | None \<Rightarrow> blockVotes_getByIndex (vs_votesByBlock voteSet blockKey) valIndex
   }"

text \<open>The parts of \<open>addVerifiedVote\<close>: the canonical list, then the votes of the block.\<close>

definition store_vote :: "Vote \<Rightarrow> VoteSet \<Rightarrow> VoteSet option" where
  "store_vote vote voteSet = do {
     (_, b) \<leftarrow> BitArray_SetIndex (vs_votesBitArray voteSet) (ValidatorIndex vote) True;
     Some (voteSet\<lparr>vs_votes := (vs_votes voteSet)[unat (ValidatorIndex vote) := Some vote], vs_votesBitArray := b\<rparr>)
   }"

definition add_canonical :: "env \<Rightarrow> Vote \<Rightarrow> string \<Rightarrow> int \<Rightarrow> VoteSet \<Rightarrow> (Vote option \<times> VoteSet) option" where
  "add_canonical E vote blockKey votingPower voteSet = do {
     existing \<leftarrow> go_nth (vs_votes voteSet) (unat (ValidatorIndex vote));
     case existing of
       Some ex \<Rightarrow>
         if BlockID_Equals (vBlockID ex) (vBlockID vote) then None
         else if (case vs_maj23 voteSet of None \<Rightarrow> False | Some b \<Rightarrow> BlockID_Key E b = blockKey)
         then do { s \<leftarrow> store_vote vote voteSet; Some (Some ex, s) }
         else Some (Some ex, voteSet)
     | None \<Rightarrow> do {
         s \<leftarrow> store_vote vote voteSet;
         Some (None, s\<lparr>vs_sum := wrap64 (vs_sum s + votingPower),
                       vs_vsum := (if Result vote = VoteAgree then wrap64 (vs_vsum s + votingPower) else vs_vsum s)\<rparr>)
       }
   }"

definition copy_votes :: "Vote option list \<Rightarrow> Vote option list \<Rightarrow> Vote option list" where
  "copy_votes from to = foldl (\<lambda>vs i. if from ! i \<noteq> None then vs[i := from ! i] else vs) to [0..<length from]"

definition vs_quorum :: "VoteSet \<Rightarrow> int" where
  "vs_quorum voteSet = wrap64 (two_thirds (vs_valSet voteSet) + 1)"

definition add_to_block :: "Vote \<Rightarrow> string \<Rightarrow> int \<Rightarrow> blockVotes \<Rightarrow> VoteSet \<Rightarrow> VoteSet option" where
  "add_to_block vote blockKey votingPower votesByBlock voteSet = do {
     let origSum = bv_sum votesByBlock;
     let quorum = vs_quorum voteSet;
     votesByBlock \<leftarrow> blockVotes_addVerifiedVote vote votingPower votesByBlock;
     let voteSet = voteSet\<lparr>vs_votesByBlock := (vs_votesByBlock voteSet)(blockKey \<mapsto> votesByBlock)\<rparr>;
     if origSum < quorum \<and> quorum \<le> bv_sum votesByBlock \<and> vs_maj23 voteSet = None
     then Some (voteSet\<lparr>vs_maj23 := Some (vBlockID vote), vs_votes := copy_votes (bv_votes votesByBlock) (vs_votes voteSet)\<rparr>)
     else Some voteSet
   }"

definition VoteSet_addVerifiedVote ::
  "env \<Rightarrow> Vote \<Rightarrow> string \<Rightarrow> int \<Rightarrow> VoteSet \<Rightarrow> ((bool \<times> Vote option) \<times> VoteSet) option" where
  "VoteSet_addVerifiedVote E vote blockKey votingPower voteSet = do {
     (conflicting, voteSet) \<leftarrow> add_canonical E vote blockKey votingPower voteSet;
     case vs_votesByBlock voteSet blockKey of
       Some votesByBlock \<Rightarrow>
         if conflicting \<noteq> None \<and> \<not> bv_peerMaj23 votesByBlock then Some ((False, conflicting), voteSet)
         else do { s \<leftarrow> add_to_block vote blockKey votingPower votesByBlock voteSet; Some ((True, conflicting), s) }
     | None \<Rightarrow>
         if conflicting \<noteq> None then Some ((False, conflicting), voteSet)
         else do {
           s \<leftarrow> add_to_block vote blockKey votingPower
                  (newBlockVotes False (ValidatorSet_Size (vs_valSet voteSet))) voteSet;
           Some ((True, conflicting), s)
         }
   }"

definition VoteSet_addVote ::
  "env \<Rightarrow> Vote option \<Rightarrow> VoteSet \<Rightarrow> ((bool \<times> vote_error go_error) \<times> VoteSet) option" where
  "VoteSet_addVote E vote voteSet =
     (case vote of
        None \<Rightarrow> Some ((False, Err ErrVoteNil), voteSet)
      | Some vote \<Rightarrow>
          let valIndex = ValidatorIndex vote; valAddr = ValidatorAddress vote; blockKey = BlockID_Key E (vBlockID vote)
          in if length valAddr = 0 then Some ((False, Err ErrVoteInvalidValidatorAddress), voteSet)
             else if Height vote \<noteq> vs_height voteSet \<or> Round vote \<noteq> vs_round voteSet \<or> Type vote \<noteq> vs_typeB voteSet
             then Some ((False, Err ErrVoteUnexpectedStep), voteSet)
             else (case ValidatorSet_GetByIndex (vs_valSet voteSet) valIndex of
                     (_, None) \<Rightarrow> Some ((False, Err ErrVoteInvalidValidatorIndex), voteSet)
                   | (lookupAddr, Some val) \<Rightarrow>
                       if valAddr \<noteq> lookupAddr then Some ((False, Err ErrVoteInvalidValidatorAddress), voteSet)
                       else do {
                         known \<leftarrow> VoteSet_getVote E voteSet valIndex blockKey;
                         case known of
                           Some existing \<Rightarrow>
                             if Signature existing = Signature vote then Some ((False, NoError), voteSet)
                             else Some ((False, Err ErrVoteNonDeterministicSignature), voteSet)
                         | None \<Rightarrow>
                             (case Vote_Verify E (vs_chainID voteSet) (PubKey val) vote of
                                Err e \<Rightarrow> Some ((False, Err e), voteSet)
                              | NoError \<Rightarrow> do {
                                  ((added, conflicting), s) \<leftarrow>
                                    VoteSet_addVerifiedVote E vote blockKey (VotingPower val) voteSet;
                                  if conflicting \<noteq> None then Some ((added, Err ErrVoteConflictingVotes), s)
                                  else if \<not> added then None
                                  else Some ((added, NoError), s)
                                })
                       }))"

definition VoteSet_AddVote ::
  "env \<Rightarrow> Vote option \<Rightarrow> VoteSet option \<Rightarrow> ((bool \<times> vote_error go_error) \<times> VoteSet) option" where
  "VoteSet_AddVote E vote voteSet = (case voteSet of None \<Rightarrow> None | Some s \<Rightarrow> VoteSet_addVote E vote s)"

datatype peer_error = ErrConflictingBlockID

definition VoteSet_SetPeerMaj23 ::
  "env \<Rightarrow> string \<Rightarrow> BlockID \<Rightarrow> VoteSet option \<Rightarrow> (peer_error go_error \<times> VoteSet) option" where
  "VoteSet_SetPeerMaj23 E peerID blockID voteSet =
     (case voteSet of
        None \<Rightarrow> None
      | Some s \<Rightarrow>
          let blockKey = BlockID_Key E blockID
          in (case vs_peerMaj23s s peerID of
                Some existing \<Rightarrow>
                  if BlockID_Equals existing blockID then Some (NoError, s) else Some (Err ErrConflictingBlockID, s)
              | None \<Rightarrow>
                  let s = s\<lparr>vs_peerMaj23s := (vs_peerMaj23s s)(peerID \<mapsto> blockID)\<rparr>
                  in (case vs_votesByBlock s blockKey of
                        Some votesByBlock \<Rightarrow>
                          if bv_peerMaj23 votesByBlock then Some (NoError, s)
                          else Some (NoError, s\<lparr>vs_votesByBlock := (vs_votesByBlock s)(blockKey \<mapsto> votesByBlock\<lparr>bv_peerMaj23 := True\<rparr>)\<rparr>)
                      | None \<Rightarrow>
                          Some (NoError, s\<lparr>vs_votesByBlock := (vs_votesByBlock s)(blockKey \<mapsto>
                            newBlockVotes True (ValidatorSet_Size (vs_valSet s)))\<rparr>))))"

section \<open>The queries\<close>

definition VoteSet_BitArray :: "VoteSet option \<Rightarrow> BitArray option" where
  "VoteSet_BitArray voteSet = (case voteSet of None \<Rightarrow> None | Some s \<Rightarrow> BitArray_Copy (vs_votesBitArray s))"

definition VoteSet_BitArrayByBlockID :: "env \<Rightarrow> VoteSet option \<Rightarrow> BlockID \<Rightarrow> BitArray option" where
  "VoteSet_BitArrayByBlockID E voteSet blockID =
     (case voteSet of
        None \<Rightarrow> None
      | Some s \<Rightarrow> (case vs_votesByBlock s (BlockID_Key E blockID) of
                     Some votesByBlock \<Rightarrow> BitArray_Copy (bv_bitArray votesByBlock)
                   | None \<Rightarrow> None))"

definition VoteSet_GetByIndex :: "VoteSet option \<Rightarrow> u64 \<Rightarrow> Vote option option" where
  "VoteSet_GetByIndex voteSet valIndex =
     (case voteSet of None \<Rightarrow> Some None | Some s \<Rightarrow> go_nth (vs_votes s) (unat valIndex))"

definition VoteSet_GetByAddress :: "VoteSet option \<Rightarrow> bytes \<Rightarrow> Vote option option" where
  "VoteSet_GetByAddress voteSet address =
     (case voteSet of
        None \<Rightarrow> Some None
      | Some s \<Rightarrow> (case ValidatorSet_GetByAddress (vs_valSet s) address of
                     (_, None) \<Rightarrow> None
                   | (valIndex, Some _) \<Rightarrow> go_nth (vs_votes s) (nat valIndex)))"

definition VoteSet_HasTwoThirdsMajority :: "VoteSet option \<Rightarrow> bool" where
  "VoteSet_HasTwoThirdsMajority voteSet = (case voteSet of None \<Rightarrow> False | Some s \<Rightarrow> vs_maj23 s \<noteq> None)"

definition VoteSet_IsCommit :: "VoteSet option \<Rightarrow> bool" where
  "VoteSet_IsCommit voteSet =
     (case voteSet of None \<Rightarrow> False | Some s \<Rightarrow> if vs_typeB s \<noteq> VoteTypePrecommit then False else vs_maj23 s \<noteq> None)"

definition VoteSet_HasTwoThirdsAny :: "VoteSet option \<Rightarrow> bool" where
  "VoteSet_HasTwoThirdsAny voteSet =
     (case voteSet of None \<Rightarrow> False | Some s \<Rightarrow> vs_sum s > two_thirds (vs_valSet s))"

definition VoteSet_HasAll :: "VoteSet \<Rightarrow> bool" where
  "VoteSet_HasAll voteSet \<longleftrightarrow> vs_sum voteSet = vs_total (vs_valSet voteSet)"

definition VoteSet_TwoThirdsMajority :: "VoteSet option \<Rightarrow> BlockID \<times> bool" where
  "VoteSet_TwoThirdsMajority voteSet =
     (case voteSet of
        None \<Rightarrow> (zero_BlockID, False)
      | Some s \<Rightarrow> (case vs_maj23 s of Some b \<Rightarrow> (b, True) | None \<Rightarrow> (zero_BlockID, False)))"

definition VoteSet_sumTotalFrac :: "VoteSet \<Rightarrow> int \<times> int \<times> int" where
  "VoteSet_sumTotalFrac voteSet = (vs_vsum voteSet, vs_sum voteSet, vs_total (vs_valSet voteSet))"

definition EqualHashes :: "bytes \<Rightarrow> bytes \<Rightarrow> bool" where
  "EqualHashes hash1 hash2 = (if length hash1 = 0 \<or> length hash2 = 0 then False else hash1 = hash2)"

text \<open>A \<open>PbftSign\<close> keeps 32 bits of the result; a \<open>common.Hash\<close> has 32 bytes.\<close>

record PbftSign =
  FastHash :: bytes
  FastHeight :: nat
  sResult :: "32 word"
  Sign :: bytes

definition to_hash :: "bytes \<Rightarrow> bytes" where
  "to_hash b = go_copy (replicate 32 0) b"

datatype sign_error = ErrNoVoteSet | ErrNoMajority | ErrOtherHash | ErrNoBlockVotes

definition VoteSet_MakePbftSigns ::
  "env \<Rightarrow> VoteSet option \<Rightarrow> bytes \<Rightarrow> (sign_error + PbftSign list) option" where
  "VoteSet_MakePbftSigns E voteSet thash =
     (case voteSet of
        None \<Rightarrow> Some (Inl ErrNoVoteSet)
      | Some s \<Rightarrow>
          (case vs_maj23 s of
             None \<Rightarrow> Some (Inl ErrNoMajority)
           | Some blockid \<Rightarrow>
               if \<not> EqualHashes thash (Hash blockid) then Some (Inl ErrOtherHash)
               else (case vs_votesByBlock s (BlockID_Key E blockid) of
                       None \<Rightarrow> Some (Inl ErrNoBlockVotes)
                     | Some bv \<Rightarrow>
                         map_option Inr (go_for (\<lambda>i signs. do {
                           res \<leftarrow> BitArray_GetIndex (bv_bitArray bv) (of_nat i);
                           if res then do {
                             vote \<leftarrow> bv_votes bv ! i;
                             Some (signs @ [\<lparr>FastHash = to_hash (Hash blockid), FastHeight = unat (Height vote),
                               sResult = ucast (Result vote), Sign = ResultSign vote\<rparr>])
                           }
                           else Some signs }) [0..<length (bv_votes bv)] []))))"

record KeepBlockSign =
  kResult :: u64
  kSign :: bytes
  kHash :: bytes

definition VoteSet_GetSignByAddress :: "VoteSet option \<Rightarrow> bytes \<Rightarrow> KeepBlockSign option option" where
  "VoteSet_GetSignByAddress voteSet addr =
     map_option (map_option (\<lambda>vote. \<lparr>kResult = Result vote, kSign = ResultSign vote, kHash = to_hash (Hash (vBlockID vote))\<rparr>))
       (VoteSet_GetByAddress voteSet addr)"

definition VoteSet_MakeCommit :: "VoteSet \<Rightarrow> Commit option" where
  "VoteSet_MakeCommit voteSet =
     (if vs_typeB voteSet \<noteq> VoteTypePrecommit then None
      else (case vs_maj23 voteSet of
              None \<Rightarrow> None
            | Some b \<Rightarrow> Some \<lparr>cBlockID = b, Precommits = go_copy (replicate (length (vs_votes voteSet)) None) (vs_votes voteSet),
                firstPrecommit = None, bitArray = None\<rparr>))"

end
