(* ===== verification/Vote_Set_Invariant.thy ===== *)
theory Vote_Set_Invariant
  imports Vote_Set
begin

text \<open>
  The invariant of a vote set and its consequences: the tallies are the voting power of the
  recorded votes, a majority is detected exactly when a block has one, the operations never
  panic, and the commit made from a majority of precommits passes \<open>VerifyCommit\<close>.
\<close>

section \<open>The invariant\<close>

text \<open>A vote accepted for slot \<open>i\<close>.\<close>

definition vote_ok :: "env \<Rightarrow> VoteSet \<Rightarrow> nat \<Rightarrow> Vote \<Rightarrow> bool" where
  "vote_ok E S i v \<longleftrightarrow>
     ValidatorIndex v = of_nat i \<and> ValidatorAddress v = Address (Validators (vs_valSet S) ! i) \<and>
     Height v = vs_height S \<and> Round v = vs_round S \<and> Type v = vs_typeB S \<and>
     Vote_Verify E (vs_chainID S) (PubKey (Validators (vs_valSet S) ! i)) v = NoError"

definition agree :: "Vote option \<Rightarrow> bool" where
  "agree p = (case p of None \<Rightarrow> False | Some v \<Rightarrow> Result v = VoteAgree)"

abbreviation vs_num :: "VoteSet \<Rightarrow> nat" where
  "vs_num S \<equiv> vnum (vs_valSet S)"

definition block_ok :: "env \<Rightarrow> VoteSet \<Rightarrow> string \<Rightarrow> blockVotes \<Rightarrow> bool" where
  "block_ok E S k bv \<longleftrightarrow>
     length (bv_votes bv) = vs_num S \<and> ba.tracks (bv_bitArray bv) (bv_votes bv) \<and>
     (\<forall>i v. i < vs_num S \<longrightarrow> bv_votes bv ! i = Some v \<longrightarrow>
        vote_ok E S i v \<and> BlockID_Key E (vBlockID v) = k \<and> vs_votes S ! i \<noteq> None) \<and>
     bv_sum bv = wsum (vs_num S) (\<lambda>i. agree (bv_votes bv ! i)) (vpow (vs_valSet S))"

definition has_quorum :: "VoteSet \<Rightarrow> blockVotes \<Rightarrow> bool" where
  "has_quorum S bv \<longleftrightarrow> 2 * wv.total (vs_valSet S) < 3 * wsum (vs_num S) (\<lambda>i. agree (bv_votes bv ! i)) (vpow (vs_valSet S))"

definition majority_ok :: "env \<Rightarrow> VoteSet \<Rightarrow> bool" where
  "majority_ok E S \<longleftrightarrow>
     (case vs_maj23 S of
        Some b \<Rightarrow> \<exists>bv. vs_votesByBlock S (BlockID_Key E b) = Some bv \<and> has_quorum S bv \<and>
                   (\<forall>i < vs_num S. bv_votes bv ! i \<noteq> None \<longrightarrow> vs_votes S ! i = bv_votes bv ! i)
      | None \<Rightarrow> \<forall>k bv. vs_votesByBlock S k = Some bv \<longrightarrow> \<not> has_quorum S bv)"

definition votes_ok :: "env \<Rightarrow> VoteSet \<Rightarrow> bool" where
  "votes_ok E S \<longleftrightarrow>
     length (vs_votes S) = vs_num S \<and> ba.tracks (vs_votesBitArray S) (vs_votes S) \<and>
     (\<forall>i v. i < vs_num S \<longrightarrow> vs_votes S ! i = Some v \<longrightarrow> vote_ok E S i v) \<and>
     vs_sum S = wsum (vs_num S) (\<lambda>i. vs_votes S ! i \<noteq> None) (vpow (vs_valSet S))"

definition blocks_ok :: "env \<Rightarrow> VoteSet \<Rightarrow> bool" where
  "blocks_ok E S \<longleftrightarrow> (\<forall>k bv. vs_votesByBlock S k = Some bv \<longrightarrow> block_ok E S k bv)"

definition vset_inv :: "env \<Rightarrow> VoteSet \<Rightarrow> bool" where
  "vset_inv E S \<longleftrightarrow> powers_ok (vs_valSet S) \<and> vs_height S \<noteq> 0 \<and> votes_ok E S \<and> blocks_ok E S \<and> majority_ok E S"

text \<open>What no operation changes.\<close>

definition same_frame :: "VoteSet \<Rightarrow> VoteSet \<Rightarrow> bool" where
  "same_frame S T \<longleftrightarrow> vs_chainID T = vs_chainID S \<and> vs_height T = vs_height S \<and> vs_round T = vs_round S \<and>
     vs_typeB T = vs_typeB S \<and> vs_valSet T = vs_valSet S"

lemma same_frame_refl [simp]: "same_frame S S"
  by (simp add: same_frame_def)

lemma same_frame_trans: "same_frame S T \<Longrightarrow> same_frame T U \<Longrightarrow> same_frame S U"
  by (simp add: same_frame_def)

lemma vote_ok_frame: "same_frame S T \<Longrightarrow> vote_ok E T i v = vote_ok E S i v"
  by (simp add: same_frame_def vote_ok_def)

lemma has_quorum_frame: "same_frame S T \<Longrightarrow> has_quorum T bv = has_quorum S bv"
  by (simp add: same_frame_def has_quorum_def)

lemma block_ok_frame:
  assumes "same_frame S T" "\<And>i. i < vs_num S \<Longrightarrow> vs_votes S ! i \<noteq> None \<Longrightarrow> vs_votes T ! i \<noteq> None" "block_ok E S k bv"
  shows "block_ok E T k bv"
  using assms vote_ok_frame [OF assms(1)] by (simp add: block_ok_def same_frame_def)

lemma Size_unat: "powers_ok vs \<Longrightarrow> unat (ValidatorSet_Size vs) = vnum vs"
  by (simp add: ValidatorSet_Size_def powers_ok_def unat_of_nat64)

lemma agree_None [simp]: "\<not> agree None"
  by (simp add: agree_def)

lemma newBlockVotes_ok:
  assumes "powers_ok (vs_valSet S)"
  shows "block_ok E S k (newBlockVotes p (ValidatorSet_Size (vs_valSet S)))"
    "\<not> has_quorum S (newBlockVotes p (ValidatorSet_Size (vs_valSet S)))"
proof -
  have n: "unat (ValidatorSet_Size (vs_valSet S)) = vs_num S" "vs_num S < 2 ^ 63"
    using Size_unat [OF assms] assms by (auto simp: powers_ok_def)
  have tr: "ba.tracks (NewBitArray (ValidatorSet_Size (vs_valSet S))) (replicate (vs_num S) (None :: Vote option))"
    using ba.tracks_new [of "ValidatorSet_Size (vs_valSet S)"] n by simp
  show "block_ok E S k (newBlockVotes p (ValidatorSet_Size (vs_valSet S)))"
    using tr n by (simp add: block_ok_def newBlockVotes_def wsum_none)
  show "\<not> has_quorum S (newBlockVotes p (ValidatorSet_Size (vs_valSet S)))"
    using n wv.total_nonneg [of "vs_valSet S"] by (simp add: has_quorum_def newBlockVotes_def wsum_none)
qed

lemma NewVoteSet_inv:
  assumes "powers_ok valSet" "NewVoteSet chainID height rnd typeB valSet = Some S"
  shows "vset_inv E S"
proof -
  have n: "unat (ValidatorSet_Size valSet) = vnum valSet" "vnum valSet < 2 ^ 63"
    using Size_unat [OF assms(1)] assms(1) by (auto simp: powers_ok_def)
  have tr: "ba.tracks (NewBitArray (ValidatorSet_Size valSet)) (replicate (vnum valSet) (None :: Vote option))"
    using ba.tracks_new [of "ValidatorSet_Size valSet"] n by simp
  show ?thesis
    using assms tr n
    by (auto simp: NewVoteSet_def vset_inv_def votes_ok_def blocks_ok_def majority_ok_def wsum_none split: if_splits)
qed

section \<open>Adding a vote\<close>

definition recorded :: "env \<Rightarrow> VoteSet \<Rightarrow> nat \<Rightarrow> Vote \<Rightarrow> bool" where
  "recorded E S i v \<longleftrightarrow>
     (case vs_votesByBlock S (BlockID_Key E (vBlockID v)) of None \<Rightarrow> False | Some bv \<Rightarrow> bv_votes bv ! i = Some v)"

text \<open>The quorum in the code's arithmetic.\<close>

lemma vs_quorum_le:
  assumes "powers_ok (vs_valSet S)"
  shows "vs_quorum S \<le> p \<longleftrightarrow> 2 * wv.total (vs_valSet S) < 3 * p"
proof -
  have "vs_quorum S = two_thirds (vs_valSet S) + 1"
    using two_thirds_range [OF assms] by (simp add: vs_quorum_def int64_def)
  then show ?thesis using two_thirds_less [OF assms, of p] by linarith
qed

text \<open>A slot for which the set holds no vote of the block.\<close>

definition fresh_for :: "env \<Rightarrow> VoteSet \<Rightarrow> nat \<Rightarrow> Vote \<Rightarrow> bool" where
  "fresh_for E S i v \<longleftrightarrow>
     i < vs_num S \<and> vote_ok E S i v \<and>
     (case vs_votes S ! i of None \<Rightarrow> True | Some x \<Rightarrow> BlockID_Key E (vBlockID x) \<noteq> BlockID_Key E (vBlockID v)) \<and>
     (case vs_votesByBlock S (BlockID_Key E (vBlockID v)) of None \<Rightarrow> True | Some bv \<Rightarrow> bv_votes bv ! i = None)"

lemma store_vote_spec:
  assumes len: "length (vs_votes S) = vs_num S" and n: "vs_num S < 2 ^ 63"
    and tr: "ba.tracks (vs_votesBitArray S) (vs_votes S)" and i: "i < vs_num S" "ValidatorIndex v = of_nat i"
  obtains T where "store_vote v S = Some T" "same_frame S T" "vs_votes T = (vs_votes S)[i := Some v]"
    "ba.tracks (vs_votesBitArray T) (vs_votes T)" "vs_sum T = vs_sum S" "vs_vsum T = vs_vsum S" "vs_maj23 T = vs_maj23 S"
    "vs_votesByBlock T = vs_votesByBlock S" "vs_peerMaj23s T = vs_peerMaj23s S"
proof -
  have u: "unat (of_nat i :: u64) = i" using i n by (intro unat_of_nat64) simp
  obtain b where "BitArray_SetIndex (vs_votesBitArray S) (of_nat i) True = Some (True, b)"
    "ba.tracks b ((vs_votes S)[unat (of_nat i :: u64) := Some v])"
    by (rule ba.tracks_set [OF tr, of "of_nat i" v]) (use i len u in auto)
  then show thesis
    using that [of "S\<lparr>vs_votes := (vs_votes S)[i := Some v], vs_votesBitArray := b\<rparr>"] i(2) u
    by (simp add: store_vote_def same_frame_def)
qed

lemma votes_ok_store:
  assumes ok: "votes_ok E S" "powers_ok (vs_valSet S)" and i: "i < vs_num S" and v: "vote_ok E S i v"
  obtains T where "store_vote v S = Some T" "same_frame S T" "vs_votes T = (vs_votes S)[i := Some v]"
    "ba.tracks (vs_votesBitArray T) (vs_votes T)" "vs_sum T = vs_sum S" "vs_vsum T = vs_vsum S" "vs_maj23 T = vs_maj23 S"
    "vs_votesByBlock T = vs_votesByBlock S" "vs_peerMaj23s T = vs_peerMaj23s S"
    "\<And>j w. j < vs_num S \<Longrightarrow> vs_votes T ! j = Some w \<Longrightarrow> vote_ok E T j w"
proof -
  have len: "length (vs_votes S) = vs_num S" and n: "vs_num S < 2 ^ 63" and ix: "ValidatorIndex v = of_nat i"
    and tr: "ba.tracks (vs_votesBitArray S) (vs_votes S)"
    using assms by (auto simp: votes_ok_def powers_ok_def vote_ok_def)
  obtain T where T: "store_vote v S = Some T" "same_frame S T" "vs_votes T = (vs_votes S)[i := Some v]"
    "ba.tracks (vs_votesBitArray T) (vs_votes T)" "vs_sum T = vs_sum S" "vs_vsum T = vs_vsum S" "vs_maj23 T = vs_maj23 S"
    "vs_votesByBlock T = vs_votesByBlock S" "vs_peerMaj23s T = vs_peerMaj23s S"
    by (rule store_vote_spec [OF len n tr i ix]) blast
  have "vote_ok E T j w" if "j < vs_num S" "vs_votes T ! j = Some w" for j w
    using that ok(1) v len unfolding vote_ok_frame [OF T(2)] T(3)
    by (cases "j = i") (auto simp: votes_ok_def)
  with T show thesis by (rule that)
qed

lemma majority_ok_frame:
  assumes "same_frame S T" "vs_maj23 T = vs_maj23 S" "vs_votesByBlock T = vs_votesByBlock S"
    and "\<And>b bv j. vs_maj23 S = Some b \<Longrightarrow> vs_votesByBlock S (BlockID_Key E b) = Some bv \<Longrightarrow> j < vs_num S \<Longrightarrow>
      bv_votes bv ! j \<noteq> None \<Longrightarrow> vs_votes S ! j = bv_votes bv ! j \<Longrightarrow> vs_votes T ! j = vs_votes S ! j"
    and "majority_ok E S"
  shows "majority_ok E T"
proof (cases "vs_maj23 S")
  case None
  then show ?thesis using assms has_quorum_frame [OF assms(1)] by (simp add: majority_ok_def)
next
  case (Some b)
  then obtain bv where bv: "vs_votesByBlock S (BlockID_Key E b) = Some bv" "has_quorum S bv"
    "\<forall>i < vs_num S. bv_votes bv ! i \<noteq> None \<longrightarrow> vs_votes S ! i = bv_votes bv ! i"
    using assms(5) by (auto simp: majority_ok_def)
  have "vs_num T = vs_num S" using assms(1) by (simp add: same_frame_def)
  then show ?thesis using bv Some assms(2,3) assms(4) [OF Some bv(1)] has_quorum_frame [OF assms(1)]
    by (simp add: majority_ok_def)
qed

lemma add_canonical_inv:
  assumes inv: "vset_inv E S" and f: "fresh_for E S i v"
  obtains conf T where
    "add_canonical E v (BlockID_Key E (vBlockID v)) (VotingPower (Validators (vs_valSet S) ! i)) S = Some (conf, T)"
    "same_frame S T" "vset_inv E T" "vs_votesByBlock T = vs_votesByBlock S" "vs_maj23 T = vs_maj23 S"
    "vs_votes T ! i \<noteq> None" "conf = vs_votes S ! i" "conf = None \<longrightarrow> vs_votes T ! i = Some v"
    "\<forall>b. vs_maj23 T = Some b \<longrightarrow> BlockID_Key E b = BlockID_Key E (vBlockID v) \<longrightarrow> vs_votes T ! i = Some v"
proof -
  let ?k = "BlockID_Key E (vBlockID v)" and ?n = "vs_num S" and ?w = "vpow (vs_valSet S)"
  have ok: "votes_ok E S" "powers_ok (vs_valSet S)" "blocks_ok E S" "majority_ok E S" "vs_height S \<noteq> 0"
    using inv by (auto simp: vset_inv_def)
  have i: "i < ?n" and v: "vote_ok E S i v" using f by (auto simp: fresh_for_def)
  have len: "length (vs_votes S) = ?n" using ok(1) by (simp add: votes_ok_def)
  have u: "unat (ValidatorIndex v) = i" using v i ok(2) by (auto simp: vote_ok_def powers_ok_def unat_of_nat64)
  have nth: "go_nth (vs_votes S) (unat (ValidatorIndex v)) = Some (vs_votes S ! i)" using u i len by (simp add: go_nth_in)
  obtain T where T: "store_vote v S = Some T" "same_frame S T" "vs_votes T = (vs_votes S)[i := Some v]"
    "ba.tracks (vs_votesBitArray T) (vs_votes T)" "vs_sum T = vs_sum S" "vs_vsum T = vs_vsum S" "vs_maj23 T = vs_maj23 S"
    "vs_votesByBlock T = vs_votesByBlock S" "vs_peerMaj23s T = vs_peerMaj23s S"
    "\<And>j w. j < vs_num S \<Longrightarrow> vs_votes T ! j = Some w \<Longrightarrow> vote_ok E T j w"
    by (rule votes_ok_store [OF ok(1,2) i v]) blast
  have vsT: "vs_valSet T = vs_valSet S" and hT: "vs_height T = vs_height S" using T(2) by (auto simp: same_frame_def)
  have lenT: "length (vs_votes T) = ?n" using T(3) len by simp
  have present: "vs_votes T ! j \<noteq> None" if "vs_votes S ! j \<noteq> None" "j < ?n" for j
    using that T(3) len by (cases "j = i") auto
  have blocksT: "blocks_ok E T"
    using ok(3) block_ok_frame [OF T(2) present] T(8) by (simp add: blocks_ok_def)
  show thesis
  proof (cases "vs_votes S ! i")
    case None
    define U where "U = T\<lparr>vs_sum := wrap64 (vs_sum T + VotingPower (Validators (vs_valSet S) ! i)),
      vs_vsum := (if Result v = VoteAgree then wrap64 (vs_vsum T + VotingPower (Validators (vs_valSet S) ! i)) else vs_vsum T)\<rparr>"
    have fr: "same_frame S U" "same_frame T U" using T(2) by (simp_all add: U_def same_frame_def)
    have "wrap64 (vs_sum S + VotingPower (Validators (vs_valSet S) ! i)) = wsum ?n (\<lambda>j. j = i \<or> vs_votes S ! j \<noteq> None) ?w"
      using wsum_add_wrap [OF ok(2) i, of "\<lambda>j. vs_votes S ! j \<noteq> None"] None ok(1) by (simp add: votes_ok_def)
    also have "\<dots> = wsum ?n (\<lambda>j. vs_votes T ! j \<noteq> None) ?w"
      by (rule wsum_cong) (auto simp: T(3) nth_list_update' len)
    finally have sum: "vs_sum U = wsum ?n (\<lambda>j. vs_votes T ! j \<noteq> None) ?w" by (simp add: U_def T(5))
    have "votes_ok E U"
      using sum T(4,10) lenT vsT vote_ok_frame [OF fr(2)] by (simp add: votes_ok_def U_def)
    moreover have "blocks_ok E U"
      using blocksT block_ok_frame [OF fr(2)] by (simp add: blocks_ok_def U_def)
    moreover have "majority_ok E U"
    proof (rule majority_ok_frame [OF fr(1) _ _ _ ok(4)])
      fix b bv j
      assume "vs_votesByBlock S (BlockID_Key E b) = Some bv" "j < ?n" "bv_votes bv ! j \<noteq> None" "vs_votes S ! j = bv_votes bv ! j"
      then show "vs_votes U ! j = vs_votes S ! j" using None by (cases "j = i") (auto simp: U_def T(3) len)
    qed (simp_all add: U_def T)
    ultimately have "vset_inv E U" using ok(2,5) vsT hT by (simp add: vset_inv_def U_def)
    moreover have "add_canonical E v ?k (VotingPower (Validators (vs_valSet S) ! i)) S = Some (None, U)"
      using T(1) None by (simp add: add_canonical_def nth U_def)
    ultimately show thesis by (intro that [of None U]) (use fr(1) T None len i in \<open>simp_all add: U_def\<close>)
  next
    case (Some x)
    have ne: "BlockID_Key E (vBlockID x) \<noteq> ?k" using f Some by (simp add: fresh_for_def)
    then have neq: "vBlockID x \<noteq> vBlockID v" by auto
    show thesis
    proof (cases "\<exists>b. vs_maj23 S = Some b \<and> BlockID_Key E b = ?k")
      case False
      then have "add_canonical E v ?k (VotingPower (Validators (vs_valSet S) ! i)) S = Some (Some x, S)"
        using neq Some by (auto simp: add_canonical_def nth split: option.splits)
      then show thesis by (rule that) (use inv Some False in auto)
    next
      case True
      have "vs_sum T = wsum ?n (\<lambda>j. vs_votes T ! j \<noteq> None) ?w"
        using ok(1) Some unfolding votes_ok_def T(5)
        by (auto simp: T(3) nth_list_update' len intro!: wsum_cong split: if_splits)
      then have "votes_ok E T" using T(4,10) lenT vsT by (simp add: votes_ok_def)
      moreover have "majority_ok E T"
      proof (rule majority_ok_frame [OF T(2) T(7,8) _ ok(4)])
        fix b bv j
        assume b: "vs_maj23 S = Some b" "vs_votesByBlock S (BlockID_Key E b) = Some bv" "j < ?n" "bv_votes bv ! j \<noteq> None"
        then have "bv_votes bv ! i = None" using True f by (auto simp: fresh_for_def)
        with b show "vs_votes T ! j = vs_votes S ! j" by (cases "j = i") (auto simp: T(3))
      qed
      ultimately have "vset_inv E T" using ok(2,5) vsT hT blocksT by (simp add: vset_inv_def)
      moreover have "add_canonical E v ?k (VotingPower (Validators (vs_valSet S) ! i)) S = Some (Some x, T)"
        using neq Some True T(1) by (auto simp: add_canonical_def nth)
      ultimately show thesis by (intro that [of "Some x" T]) (use T Some len i in simp_all)
    qed
  qed
qed

lemma nth_copy_votes:
  assumes "length from = length to"
  shows "length (copy_votes from to) = length to"
    "j < length to \<Longrightarrow> copy_votes from to ! j = (if from ! j \<noteq> None then from ! j else to ! j)"
proof -
  let ?f = "\<lambda>vs i. if from ! i \<noteq> None then vs[i := from ! i] else vs"
  have "length (foldl ?f to [0..<m]) = length to \<and>
    (\<forall>j < length to. foldl ?f to [0..<m] ! j = (if j < m \<and> from ! j \<noteq> None then from ! j else to ! j))" for m
    by (induction m) (auto simp: nth_list_update' less_Suc_eq)
  then show "length (copy_votes from to) = length to"
    "j < length to \<Longrightarrow> copy_votes from to ! j = (if from ! j \<noteq> None then from ! j else to ! j)"
    using assms by (auto simp: copy_votes_def)
qed

lemma block_add_ok:
  assumes ok: "powers_ok (vs_valSet S)" and bv: "block_ok E S (BlockID_Key E (vBlockID v)) bv" "bv_votes bv ! i = None"
    and i: "i < vs_num S" and v: "vote_ok E S i v" and present: "vs_votes S ! i \<noteq> None"
  obtains bv' where "blockVotes_addVerifiedVote v (VotingPower (Validators (vs_valSet S) ! i)) bv = Some bv'"
    "block_ok E S (BlockID_Key E (vBlockID v)) bv'" "bv_votes bv' = (bv_votes bv)[i := Some v]"
    "bv_peerMaj23 bv' = bv_peerMaj23 bv"
proof -
  let ?n = "vs_num S" and ?w = "vpow (vs_valSet S)" and ?p = "VotingPower (Validators (vs_valSet S) ! i)"
  have len: "length (bv_votes bv) = ?n" and tr: "ba.tracks (bv_bitArray bv) (bv_votes bv)"
    and sum: "bv_sum bv = wsum ?n (\<lambda>j. agree (bv_votes bv ! j)) ?w" using bv(1) by (auto simp: block_ok_def)
  have ix: "ValidatorIndex v = of_nat i" using v by (simp add: vote_ok_def)
  have u: "unat (of_nat i :: u64) = i" using i ok by (auto simp: powers_ok_def unat_of_nat64)
  obtain b where b: "BitArray_SetIndex (bv_bitArray bv) (of_nat i) True = Some (True, b)"
    "ba.tracks b ((bv_votes bv)[unat (of_nat i :: u64) := Some v])"
    by (rule ba.tracks_set [OF tr, of "of_nat i" v]) (use i len u in auto)
  define bv' where "bv' = bv\<lparr>bv_bitArray := b, bv_votes := (bv_votes bv)[i := Some v],
    bv_sum := (if Result v = VoteAgree then wrap64 (bv_sum bv + ?p) else bv_sum bv)\<rparr>"
  have add: "blockVotes_addVerifiedVote v ?p bv = Some bv'"
    using b(1) i len bv(2) by (simp add: blockVotes_addVerifiedVote_def ix u go_nth_in bv'_def)
  have "bv_sum bv' = wsum ?n (\<lambda>j. agree (bv_votes bv' ! j)) ?w"
  proof (cases "Result v = VoteAgree")
    case True
    then have "bv_sum bv' = wsum ?n (\<lambda>j. j = i \<or> agree (bv_votes bv ! j)) ?w"
      using wsum_add_wrap [OF ok i, of "\<lambda>j. agree (bv_votes bv ! j)"] bv(2) sum by (simp add: bv'_def)
    also have "\<dots> = wsum ?n (\<lambda>j. agree (bv_votes bv' ! j)) ?w"
      using True by (intro wsum_cong) (auto simp: bv'_def nth_list_update' len agree_def)
    finally show ?thesis .
  next
    case False
    then show ?thesis
      using sum bv(2) by (auto simp: bv'_def nth_list_update' len agree_def intro!: wsum_cong split: if_splits)
  qed
  moreover have "vote_ok E S j w \<and> BlockID_Key E (vBlockID w) = BlockID_Key E (vBlockID v) \<and> vs_votes S ! j \<noteq> None"
    if "j < ?n" "bv_votes bv' ! j = Some w" for j w
    using that bv(1) v present len by (cases "j = i") (auto simp: bv'_def block_ok_def)
  ultimately have "block_ok E S (BlockID_Key E (vBlockID v)) bv'"
    using b(2) u len unfolding block_ok_def by (auto simp: bv'_def)
  with add show thesis by (rule that) (simp_all add: bv'_def)
qed

lemma add_to_block_inv:
  assumes inv: "vset_inv E S" and v: "vote_ok E S i v" and i: "i < vs_num S"
    and bv: "block_ok E S (BlockID_Key E (vBlockID v)) bv" "bv_votes bv ! i = None" and present: "vs_votes S ! i \<noteq> None"
    and none: "vs_maj23 S = None \<Longrightarrow> \<not> has_quorum S bv"
    and maj: "\<And>b. vs_maj23 S = Some b \<Longrightarrow> BlockID_Key E b = BlockID_Key E (vBlockID v) \<Longrightarrow>
      vs_votes S ! i = Some v \<and> vs_votesByBlock S (BlockID_Key E b) = Some bv"
  obtains T where "add_to_block v (BlockID_Key E (vBlockID v)) (VotingPower (Validators (vs_valSet S) ! i)) bv S = Some T"
    "vset_inv E T" "same_frame S T" "recorded E T i v" "vs_maj23 S \<noteq> None \<longrightarrow> vs_maj23 T = vs_maj23 S"
proof -
  let ?k = "BlockID_Key E (vBlockID v)" and ?n = "vs_num S" and ?w = "vpow (vs_valSet S)"
  have ok: "votes_ok E S" "powers_ok (vs_valSet S)" "blocks_ok E S" "majority_ok E S" "vs_height S \<noteq> 0"
    using inv by (auto simp: vset_inv_def)
  have len: "length (vs_votes S) = ?n" using ok(1) by (simp add: votes_ok_def)
  have lb: "length (bv_votes bv) = ?n" using bv(1) by (simp add: block_ok_def)
  obtain bv' where bv': "blockVotes_addVerifiedVote v (VotingPower (Validators (vs_valSet S) ! i)) bv = Some bv'"
    "block_ok E S ?k bv'" "bv_votes bv' = (bv_votes bv)[i := Some v]"
    by (rule block_add_ok [OF ok(2) bv i v present]) blast
  define U where "U = S\<lparr>vs_votesByBlock := (vs_votesByBlock S)(?k \<mapsto> bv')\<rparr>"
  have frU: "same_frame S U" by (simp add: U_def same_frame_def)
  have sums: "vs_quorum S \<le> bv_sum bv \<longleftrightarrow> has_quorum S bv" "vs_quorum S \<le> bv_sum bv' \<longleftrightarrow> has_quorum S bv'"
    using bv(1) bv'(2) by (auto simp: vs_quorum_le [OF ok(2)] block_ok_def has_quorum_def)
  have votesU: "votes_ok E U" using ok(1) vote_ok_frame [OF frU] by (simp add: votes_ok_def U_def)
  have blocksU: "blocks_ok E U"
    using ok(3) bv'(2) block_ok_frame [OF frU] by (auto simp: blocks_ok_def U_def)
  have valU: "vs_valSet U = vs_valSet S" "vs_height U = vs_height S" "vs_votes U = vs_votes S" by (simp_all add: U_def)
  show thesis
  proof (cases "vs_maj23 S = None \<and> has_quorum S bv'")
    case True
    define T where "T = U\<lparr>vs_maj23 := Some (vBlockID v), vs_votes := copy_votes (bv_votes bv') (vs_votes U)\<rparr>"
    have fr: "same_frame S T" "same_frame U T" using frU by (simp_all add: T_def same_frame_def)
    have lb': "length (bv_votes bv') = length (vs_votes S)" using bv'(3) lb len by simp
    have nth: "vs_votes T ! j = (if bv_votes bv' ! j \<noteq> None then bv_votes bv' ! j else vs_votes S ! j)" if "j < ?n" for j
      using nth_copy_votes(2) [OF lb'] that len by (simp add: T_def valU)
    have lenT: "length (vs_votes T) = ?n" using nth_copy_votes(1) [OF lb'] len by (simp add: T_def valU)
    have pres: "(vs_votes T ! j = None) = (vs_votes S ! j = None)" if "j < ?n" for j
      using nth [OF that] bv'(2) that by (cases "bv_votes bv' ! j") (auto simp: block_ok_def)
    have "ba.tracks (vs_votesBitArray T) (vs_votes T)"
      by (rule ba.tracks_same_presence [of _ "vs_votes S"])
        (use ok(1) lenT len pres in \<open>auto simp: votes_ok_def T_def U_def\<close>)
    moreover have "vs_sum T = wsum ?n (\<lambda>j. vs_votes T ! j \<noteq> None) ?w"
    proof -
      have "vs_sum T = wsum ?n (\<lambda>j. vs_votes S ! j \<noteq> None) ?w" using ok(1) by (simp add: votes_ok_def T_def U_def)
      also have "\<dots> = wsum ?n (\<lambda>j. vs_votes T ! j \<noteq> None) ?w" using pres by (intro wsum_cong) auto
      finally show ?thesis .
    qed
    moreover have "vote_ok E T j w" if "j < ?n" "vs_votes T ! j = Some w" for j w
      using that nth [OF that(1)] bv'(2) ok(1) unfolding vote_ok_frame [OF fr(1)]
      by (auto simp: block_ok_def votes_ok_def split: if_splits)
    ultimately have "votes_ok E T" using lenT valU by (simp add: votes_ok_def T_def)
    moreover have "blocks_ok E T"
    proof -
      have "vs_votes T ! j \<noteq> None" if "j < vs_num U" "vs_votes U ! j \<noteq> None" for j
        using that pres valU by auto
      then show ?thesis using blocksU block_ok_frame [OF fr(2)] by (auto simp: blocks_ok_def T_def)
    qed
    moreover have "majority_ok E T"
      using True nth has_quorum_frame [OF fr(1)] by (simp add: majority_ok_def T_def U_def)
    ultimately have "vset_inv E T" using ok(2,5) valU by (simp add: vset_inv_def T_def)
    moreover have "add_to_block v ?k (VotingPower (Validators (vs_valSet S) ! i)) bv S = Some T"
      using bv'(1) True sums none by (simp add: add_to_block_def Let_def not_le [symmetric] T_def U_def)
    moreover have "recorded E T i v" using bv'(3) lb i by (simp add: recorded_def T_def U_def)
    ultimately show thesis using fr(1) True by (intro that) simp_all
  next
    case False
    have "majority_ok E U"
    proof (cases "vs_maj23 S")
      case None
      then show ?thesis using False ok(4) has_quorum_frame [OF frU] by (auto simp: majority_ok_def U_def)
    next
      case (Some b)
      then obtain bb where bb: "vs_votesByBlock S (BlockID_Key E b) = Some bb" "has_quorum S bb"
        "\<forall>j < ?n. bv_votes bb ! j \<noteq> None \<longrightarrow> vs_votes S ! j = bv_votes bb ! j"
        using ok(4) by (auto simp: majority_ok_def)
      show ?thesis
      proof (cases "BlockID_Key E b = ?k")
        case other: False
        then show ?thesis using Some bb has_quorum_frame [OF frU] by (auto simp: majority_ok_def U_def)
      next
        case True
        with maj [OF Some] bb have eq: "bb = bv" "vs_votes S ! i = Some v" by auto
        have "wsum ?n (\<lambda>j. agree (bv_votes bv ! j)) ?w \<le> wsum ?n (\<lambda>j. agree (bv_votes bv' ! j)) ?w"
          using bv(2) by (intro wsum_mono wv.w_nonneg) (auto simp: bv'(3) nth_list_update' lb)
        then have "has_quorum U bv'" using bb(2) eq(1) has_quorum_frame [OF frU] by (auto simp: has_quorum_def)
        moreover have "vs_votes S ! j = bv_votes bv' ! j" if "j < ?n" "bv_votes bv' ! j \<noteq> None" for j
          using that bb(3) eq by (cases "j = i") (auto simp: bv'(3) lb)
        ultimately show ?thesis using Some True by (auto simp: majority_ok_def U_def)
      qed
    qed
    then have "vset_inv E U" using ok(2,5) votesU blocksU valU by (simp add: vset_inv_def)
    moreover have "add_to_block v ?k (VotingPower (Validators (vs_valSet S) ! i)) bv S = Some U"
      using bv'(1) False sums by (auto simp: add_to_block_def Let_def U_def)
    moreover have "recorded E U i v" using bv'(3) lb i by (simp add: recorded_def U_def)
    moreover have "vs_maj23 U = vs_maj23 S" by (simp add: U_def)
    ultimately show thesis using frU by (intro that) auto
  qed
qed

lemma addVerifiedVote_inv:
  assumes inv: "vset_inv E S" and f: "fresh_for E S i v"
  obtains added conf T where
    "VoteSet_addVerifiedVote E v (BlockID_Key E (vBlockID v)) (VotingPower (Validators (vs_valSet S) ! i)) S = Some ((added, conf), T)"
    "vset_inv E T" "same_frame S T" "conf = vs_votes S ! i" "conf = None \<longrightarrow> added"
    "added \<longrightarrow> recorded E T i v" "vs_maj23 S \<noteq> None \<longrightarrow> vs_maj23 T = vs_maj23 S"
proof -
  let ?k = "BlockID_Key E (vBlockID v)" and ?p = "VotingPower (Validators (vs_valSet S) ! i)"
  have i: "i < vs_num S" and v: "vote_ok E S i v" using f by (auto simp: fresh_for_def)
  obtain conf T where T: "add_canonical E v ?k ?p S = Some (conf, T)" "same_frame S T" "vset_inv E T"
    "vs_votesByBlock T = vs_votesByBlock S" "vs_maj23 T = vs_maj23 S"
    "vs_votes T ! i \<noteq> None" "conf = vs_votes S ! i" "conf = None \<longrightarrow> vs_votes T ! i = Some v"
    "\<forall>b. vs_maj23 T = Some b \<longrightarrow> BlockID_Key E b = ?k \<longrightarrow> vs_votes T ! i = Some v"
    by (rule add_canonical_inv [OF inv f]) (rule that; assumption)
  have val: "vs_valSet T = vs_valSet S" using T(2) by (simp add: same_frame_def)
  have iT: "i < vs_num T" and vT: "vote_ok E T i v" using i v val vote_ok_frame [OF T(2)] by simp_all
  have pT: "powers_ok (vs_valSet T)" using T(3) by (simp add: vset_inv_def)
  show thesis
  proof (cases "vs_votesByBlock S ?k")
    case (Some bv)
    have bv: "block_ok E T ?k bv" "bv_votes bv ! i = None"
      using T(3,4) Some f by (auto simp: vset_inv_def blocks_ok_def fresh_for_def)
    show thesis
    proof (cases "conf \<noteq> None \<and> \<not> bv_peerMaj23 bv")
      case True
      then have "VoteSet_addVerifiedVote E v ?k ?p S = Some ((False, conf), T)"
        using T(1,4) Some by (simp add: VoteSet_addVerifiedVote_def)
      then show thesis by (rule that) (use T True in auto)
    next
      case False
      have "\<not> has_quorum T bv" if "vs_maj23 T = None"
        using that T(3,4) Some by (auto simp: vset_inv_def majority_ok_def)
      then obtain U where U: "add_to_block v ?k (VotingPower (Validators (vs_valSet T) ! i)) bv T = Some U"
        "vset_inv E U" "same_frame T U" "recorded E U i v" "vs_maj23 T \<noteq> None \<longrightarrow> vs_maj23 U = vs_maj23 T"
        by (rule add_to_block_inv [OF T(3) vT iT bv T(6)]) (use T(4,9) Some in auto)
      have "VoteSet_addVerifiedVote E v ?k ?p S = Some ((True, conf), U)"
        using T(1,4) Some False U(1) val by (auto simp: VoteSet_addVerifiedVote_def)
      then show thesis by (rule that) (use U T same_frame_trans [OF T(2) U(3)] in auto)
    qed
  next
    case None
    show thesis
    proof (cases "conf = None")
      case c: False
      then have "VoteSet_addVerifiedVote E v ?k ?p S = Some ((False, conf), T)"
        using T(1,4) None by (simp add: VoteSet_addVerifiedVote_def)
      then show thesis by (rule that) (use T c in auto)
    next
      case c: True
      let ?bv = "newBlockVotes False (ValidatorSet_Size (vs_valSet T))"
      have bv: "block_ok E T ?k ?bv" "\<not> has_quorum T ?bv" by (rule newBlockVotes_ok [OF pT])+
      have "bv_votes ?bv ! i = None" using iT Size_unat [OF pT] by (simp add: newBlockVotes_def)
      moreover have "BlockID_Key E b \<noteq> ?k" if "vs_maj23 T = Some b" for b
        using that T(3,4) None by (auto simp: vset_inv_def majority_ok_def)
      ultimately obtain U where U: "add_to_block v ?k (VotingPower (Validators (vs_valSet T) ! i)) ?bv T = Some U"
        "vset_inv E U" "same_frame T U" "recorded E U i v" "vs_maj23 T \<noteq> None \<longrightarrow> vs_maj23 U = vs_maj23 T"
        using add_to_block_inv [OF T(3) vT iT bv(1) _ T(6)] bv(2) by blast
      have "VoteSet_addVerifiedVote E v ?k ?p S = Some ((True, None), U)"
        using T(1,4) None c U(1) val by (simp add: VoteSet_addVerifiedVote_def)
      then show thesis by (rule that) (use U T c same_frame_trans [OF T(2) U(3)] in auto)
    qed
  qed
qed

lemma getVote_cases:
  assumes inv: "vset_inv E S" and i: "i < vs_num S" "ValidatorIndex v = of_nat i"
  obtains x where "VoteSet_getVote E S (of_nat i) (BlockID_Key E (vBlockID v)) = Some (Some x)"
      "BlockID_Key E (vBlockID x) = BlockID_Key E (vBlockID v)" "vote_ok E S i x"
  | "VoteSet_getVote E S (of_nat i) (BlockID_Key E (vBlockID v)) = Some None" "vote_ok E S i v \<Longrightarrow> fresh_for E S i v"
proof -
  let ?k = "BlockID_Key E (vBlockID v)"
  have len: "length (vs_votes S) = vs_num S" and vok: "\<And>x. vs_votes S ! i = Some x \<Longrightarrow> vote_ok E S i x"
    and n: "vs_num S < 2 ^ 63"
    using inv i by (auto simp: vset_inv_def votes_ok_def powers_ok_def)
  have u: "unat (of_nat i :: u64) = i" using i n by (simp add: unat_of_nat64)
  have nth: "go_nth (vs_votes S) i = Some (vs_votes S ! i)" using i len by (simp add: go_nth_in)
  show thesis
  proof (cases "\<exists>x. vs_votes S ! i = Some x \<and> BlockID_Key E (vBlockID x) = ?k")
    case True
    then obtain x where "vs_votes S ! i = Some x" "BlockID_Key E (vBlockID x) = ?k" by blast
    then show thesis using vok by (intro that(1) [of x]) (simp_all add: VoteSet_getVote_def u nth)
  next
    case no: False
    then have get: "VoteSet_getVote E S (of_nat i) ?k = blockVotes_getByIndex (vs_votesByBlock S ?k) (of_nat i)"
      by (auto simp: VoteSet_getVote_def u nth split: option.splits)
    show thesis
    proof (cases "vs_votesByBlock S ?k")
      case None
      show thesis by (rule that(2)) (use None no i get in \<open>auto simp: blockVotes_getByIndex_def fresh_for_def split: option.splits\<close>)
    next
      case (Some bv)
      have bv: "length (bv_votes bv) = vs_num S"
        "\<And>x. bv_votes bv ! i = Some x \<Longrightarrow> vote_ok E S i x \<and> BlockID_Key E (vBlockID x) = ?k"
        using inv Some i by (auto simp: vset_inv_def blocks_ok_def block_ok_def)
      have get': "VoteSet_getVote E S (of_nat i) ?k = Some (bv_votes bv ! i)"
        using get Some u i bv(1) by (simp add: blockVotes_getByIndex_def go_nth_in)
      show thesis
      proof (cases "bv_votes bv ! i")
        case b: None
        show thesis by (rule that(2)) (use b Some no i get' in \<open>auto simp: fresh_for_def split: option.splits\<close>)
      next
        case (Some x)
        then show thesis using bv(2) [OF Some] get' by (intro that(1) [of x]) simp_all
      qed
    qed
  qed
qed

lemma GetByIndex_cases:
  assumes "powers_ok vs"
  obtains i where "idx = of_nat i" "i < vnum vs"
      "ValidatorSet_GetByIndex vs idx = (Address (Validators vs ! i), Some (Validators vs ! i))"
  | "ValidatorSet_GetByIndex vs idx = ([], None)" "vnum vs \<le> unat idx"
proof (cases "unat idx < vnum vs")
  case True
  have "vnum vs < 2 ^ 63" using assms by (simp add: powers_ok_def)
  from GetByIndex_nth [OF True this] show thesis using that(1) [of "unat idx"] True by simp
next
  case False
  then have "ValidatorSet_Size vs \<le> idx" using Size_unat [OF assms] by (simp add: word_le_nat_alt)
  then show thesis using that(2) False by (simp add: ValidatorSet_GetByIndex_def)
qed

text \<open>Every call returns; a vote that is added is recorded under its block; a majority stays.\<close>

lemma addVote_inv:
  assumes inv: "vset_inv E S"
  obtains added err T where "VoteSet_addVote E vote S = Some ((added, err), T)" "vset_inv E T" "same_frame S T"
    "added \<longrightarrow> (\<exists>v i. vote = Some v \<and> i < vs_num S \<and> vote_ok E S i v \<and> recorded E T i v)"
    "err \<noteq> Err ErrVoteConflictingVotes \<and> \<not> added \<longrightarrow> T = S"
    "vs_maj23 S \<noteq> None \<longrightarrow> vs_maj23 T = vs_maj23 S"
proof (cases vote)
  case None
  show thesis by (rule that [of False "Err ErrVoteNil" S]) (use None inv in \<open>simp_all add: VoteSet_addVote_def\<close>)
next
  case (Some v)
  have ok: "powers_ok (vs_valSet S)" using inv by (simp add: vset_inv_def)
  let ?k = "BlockID_Key E (vBlockID v)"
  note result = that
  have rejected: thesis if "VoteSet_addVote E vote S = Some ((False, e), S)" for e
    using that by (rule result) (use inv in simp_all)
  show thesis
  proof (cases "length (ValidatorAddress v) = 0 \<or>
      Height v \<noteq> vs_height S \<or> Round v \<noteq> vs_round S \<or> Type v \<noteq> vs_typeB S")
    case True
    then show thesis
      by (intro rejected [of "Err (if ValidatorAddress v = [] then ErrVoteInvalidValidatorAddress else ErrVoteUnexpectedStep)"])
        (auto simp: VoteSet_addVote_def Some Let_def)
  next
    case hdr: False
    show thesis
    proof (cases rule: GetByIndex_cases [OF ok, of "ValidatorIndex v"])
      case 2
      then show thesis using hdr by (intro rejected) (auto simp: VoteSet_addVote_def Some Let_def)
    next
      case (1 i)
      let ?val = "Validators (vs_valSet S) ! i"
      show thesis
      proof (cases "ValidatorAddress v = Address ?val")
        case False
        then show thesis using hdr 1 by (intro rejected) (auto simp: VoteSet_addVote_def Some Let_def)
      next
        case addr: True
        show thesis
        proof (cases rule: getVote_cases [OF inv 1(2,1)])
          case get: (1 x)
          then show thesis using hdr 1 addr
            by (intro rejected [of "if Signature x = Signature v then NoError else Err ErrVoteNonDeterministicSignature"])
              (auto simp: VoteSet_addVote_def Some Let_def)
        next
          case get: 2
          show thesis
          proof (cases "Vote_Verify E (vs_chainID S) (PubKey ?val) v")
            case (Err e)
            then show thesis using hdr 1 addr get by (intro rejected) (auto simp: VoteSet_addVote_def Some Let_def)
          next
            case NoError
            then have v: "vote_ok E S i v" using hdr 1 addr by (simp add: vote_ok_def)
            obtain added conf T where T: "VoteSet_addVerifiedVote E v ?k (VotingPower ?val) S = Some ((added, conf), T)"
              "vset_inv E T" "same_frame S T" "conf = vs_votes S ! i" "conf = None \<longrightarrow> added" "added \<longrightarrow> recorded E T i v"
              "vs_maj23 S \<noteq> None \<longrightarrow> vs_maj23 T = vs_maj23 S"
              by (rule addVerifiedVote_inv [OF inv get(2) [OF v]]) (rule that; assumption)
            have "VoteSet_addVote E vote S = Some ((added, if conf \<noteq> None then Err ErrVoteConflictingVotes else NoError), T)"
              using hdr 1 addr get(1) NoError T(1,5) by (simp add: VoteSet_addVote_def Some Let_def)
            then show thesis by (rule that) (use T(2,3,5,6,7) v 1(2) Some in auto)
          qed
        qed
      qed
    qed
  qed
qed

lemma SetPeerMaj23_inv:
  assumes inv: "vset_inv E S"
  obtains err T where "VoteSet_SetPeerMaj23 E peerID blockID (Some S) = Some (err, T)" "vset_inv E T" "same_frame S T"
    "vs_maj23 T = vs_maj23 S" "vs_votes T = vs_votes S"
proof -
  let ?k = "BlockID_Key E blockID"
  have ok: "votes_ok E S" "powers_ok (vs_valSet S)" "blocks_ok E S" "majority_ok E S" "vs_height S \<noteq> 0"
    using inv by (auto simp: vset_inv_def)
  have put: "vset_inv E (S\<lparr>vs_peerMaj23s := ps, vs_votesByBlock := (vs_votesByBlock S)(?k \<mapsto> bv)\<rparr>)"
    if bv: "block_ok E S ?k bv" and q: "case vs_votesByBlock S ?k of None \<Rightarrow> \<not> has_quorum S bv | Some c \<Rightarrow> bv_votes bv = bv_votes c"
    for bv ps
  proof -
    let ?T = "S\<lparr>vs_peerMaj23s := ps, vs_votesByBlock := (vs_votesByBlock S)(?k \<mapsto> bv)\<rparr>"
    have fr: "same_frame S ?T" by (simp add: same_frame_def)
    have "votes_ok E ?T" using ok(1) vote_ok_frame [OF fr] by (simp add: votes_ok_def)
    moreover have "blocks_ok E ?T" using ok(3) bv block_ok_frame [OF fr] by (auto simp: blocks_ok_def)
    moreover have "majority_ok E ?T"
      using ok(4) q has_quorum_frame [OF fr]
      by (auto simp: majority_ok_def has_quorum_def split: option.splits)
    ultimately show ?thesis using ok(2,5) by (simp add: vset_inv_def)
  qed
  have put0: "vset_inv E (S\<lparr>vs_peerMaj23s := ps\<rparr>)" for ps
  proof -
    have fr: "same_frame S (S\<lparr>vs_peerMaj23s := ps\<rparr>)" by (simp add: same_frame_def)
    show ?thesis
      using ok vote_ok_frame [OF fr] block_ok_frame [OF fr] has_quorum_frame [OF fr]
      by (cases "vs_maj23 S") (simp_all add: vset_inv_def votes_ok_def blocks_ok_def majority_ok_def)
  qed
  show thesis
  proof (cases "vs_peerMaj23s S peerID")
    case (Some b)
    show thesis by (rule that [of "if b = blockID then NoError else Err ErrConflictingBlockID" S])
        (use Some inv in \<open>auto simp: VoteSet_SetPeerMaj23_def Let_def\<close>)
  next
    case None
    let ?ps = "(vs_peerMaj23s S)(peerID \<mapsto> blockID)"
    show thesis
    proof (cases "vs_votesByBlock S ?k")
      case k: None
      let ?bv = "newBlockVotes True (ValidatorSet_Size (vs_valSet S))"
      let ?T = "S\<lparr>vs_peerMaj23s := ?ps, vs_votesByBlock := (vs_votesByBlock S)(?k \<mapsto> ?bv)\<rparr>"
      have "vset_inv E ?T" using newBlockVotes_ok [OF ok(2)] k by (intro put) auto
      then show thesis using None k
        by (intro that [of NoError ?T]) (auto simp: VoteSet_SetPeerMaj23_def Let_def same_frame_def)
    next
      case k: (Some bv)
      show thesis
      proof (cases "bv_peerMaj23 bv")
        case True
        then show thesis using None k put0 [of ?ps]
          by (intro that [of NoError "S\<lparr>vs_peerMaj23s := ?ps\<rparr>"]) (auto simp: VoteSet_SetPeerMaj23_def Let_def same_frame_def)
      next
        case False
        let ?T = "S\<lparr>vs_peerMaj23s := ?ps, vs_votesByBlock := (vs_votesByBlock S)(?k \<mapsto> bv\<lparr>bv_peerMaj23 := True\<rparr>)\<rparr>"
        have "block_ok E S ?k bv" using ok(3) k by (simp add: blocks_ok_def)
        then have "vset_inv E ?T" using k by (intro put) (auto simp: block_ok_def)
        then show thesis using None k False
          by (intro that [of NoError ?T]) (auto simp: VoteSet_SetPeerMaj23_def Let_def same_frame_def)
      qed
    qed
  qed
qed

end
