(* ===== verification/Vote_Set_Properties.thy ===== *)
theory Vote_Set_Properties
  imports Vote_Set_Invariant
begin

text \<open>
  What the invariant of a vote set gives: the operations are steps of a transition system, and
  every vote set reached from a new one counts correctly, yields commits that verify, and agrees
  with every other vote set of the same height, round and type on the block with a majority.
\<close>

section \<open>Vote sets as a transition system\<close>

inductive vset_step :: "env \<Rightarrow> VoteSet \<Rightarrow> VoteSet \<Rightarrow> bool" for E where
  step_vote: "VoteSet_AddVote E vote (Some S) = Some (r, T) \<Longrightarrow> vset_step E S T"
| step_claim: "VoteSet_SetPeerMaj23 E peerID blockID (Some S) = Some (e, T) \<Longrightarrow> vset_step E S T"

inductive_cases vset_stepE: "vset_step E S T"

lemma vset_step_facts:
  assumes "vset_inv E S" "vset_step E S T"
  shows "vset_inv E T" "same_frame S T" "vs_maj23 S \<noteq> None \<longrightarrow> vs_maj23 T = vs_maj23 S"
proof (atomize (full), use assms(2) in cases)
  case (step_vote vote r)
  obtain added err T' where "VoteSet_addVote E vote S = Some ((added, err), T')" "vset_inv E T'" "same_frame S T'"
    "vs_maj23 S \<noteq> None \<longrightarrow> vs_maj23 T' = vs_maj23 S"
    by (rule addVote_inv [OF assms(1), of vote])
  then show "vset_inv E T \<and> same_frame S T \<and> (vs_maj23 S \<noteq> None \<longrightarrow> vs_maj23 T = vs_maj23 S)"
    using step_vote by (simp add: VoteSet_AddVote_def)
next
  case (step_claim peerID blockID e)
  obtain err T' where "VoteSet_SetPeerMaj23 E peerID blockID (Some S) = Some (err, T')" "vset_inv E T'" "same_frame S T'"
    "vs_maj23 T' = vs_maj23 S"
    by (rule SetPeerMaj23_inv [OF assms(1), of peerID blockID])
  then show "vset_inv E T \<and> same_frame S T \<and> (vs_maj23 S \<noteq> None \<longrightarrow> vs_maj23 T = vs_maj23 S)"
    using step_claim by simp
qed

interpretation vsi: invariant_system "vset_step E" "vset_inv E" for E
  by unfold_locales (rule vset_step_facts(1))

interpretation vsf: invariant_system "vset_step E" "\<lambda>T. vset_inv E T \<and> same_frame S T" for E S
  by unfold_locales (auto dest: vset_step_facts same_frame_trans)

interpretation vsm: invariant_system "vset_step E" "\<lambda>T. vset_inv E T \<and> vs_maj23 T = Some b" for E b
  by unfold_locales (auto dest: vset_step_facts)

section \<open>Every counted vote is tallied\<close>

text \<open>
  As long as no majority is found, each vote of the canonical list is also among the votes of its
  block. (Afterwards a conflicting vote for the majority block may replace one in the list only.)
\<close>

definition tallied :: "env \<Rightarrow> VoteSet \<Rightarrow> bool" where
  "tallied E S \<longleftrightarrow> (vs_maj23 S = None \<longrightarrow>
     (\<forall>i v. i < length (vs_votes S) \<longrightarrow> vs_votes S ! i = Some v \<longrightarrow> recorded E S i v))"

lemma recorded_iff: "recorded E S i v \<longleftrightarrow> (\<exists>bv. vs_votesByBlock S (BlockID_Key E (vBlockID v)) = Some bv \<and> bv_votes bv ! i = Some v)"
  by (auto simp: recorded_def split: option.splits)

lemma block_add_votes:
  assumes "blockVotes_addVerifiedVote v p bv = Some bv'"
  shows "bv_votes bv ! j = Some w \<Longrightarrow> bv_votes bv' ! j = Some w"
    and "bv_votes bv ! unat (ValidatorIndex v) = None \<Longrightarrow> bv_votes bv' ! unat (ValidatorIndex v) = Some v"
  using assms by (auto simp: blockVotes_addVerifiedVote_def Let_def go_nth_def nth_list_update elim!: bind_eq_SomeE split: if_splits)

lemma add_to_block_unfinished:
  "add_to_block v k p bv S = Some T \<Longrightarrow> vs_maj23 T = None \<Longrightarrow> vs_maj23 S = None \<and> vs_votes T = vs_votes S \<and>
    (\<exists>bv'. vs_votesByBlock T = (vs_votesByBlock S)(k \<mapsto> bv') \<and> blockVotes_addVerifiedVote v p bv = Some bv')"
  by (auto simp: add_to_block_def Let_def elim!: bind_eq_SomeE split: if_splits)

lemma add_canonical_unfinished:
  assumes "add_canonical E v k p S = Some (c, T)" "vs_maj23 T = None"
  shows "vs_maj23 S = None \<and> vs_votesByBlock T = vs_votesByBlock S \<and> vs_valSet T = vs_valSet S \<and>
    (if c = None then vs_votes S ! unat (ValidatorIndex v) = None \<and> vs_votes T = (vs_votes S)[unat (ValidatorIndex v) := Some v]
     else vs_votes T = vs_votes S)"
  using assms by (cases "vs_votes S ! unat (ValidatorIndex v)")
    (auto simp: add_canonical_def store_vote_def go_nth_def elim!: bind_eq_SomeE split: if_splits option.splits, metis)

lemma addVerifiedVote_tallied:
  assumes inv: "vset_inv E S" and t: "tallied E S"
    and add: "VoteSet_addVerifiedVote E v (BlockID_Key E (vBlockID v)) p S = Some (r, T)"
  shows "tallied E T"
  unfolding tallied_def
proof (intro impI allI)
  fix j w
  assume m: "vs_maj23 T = None" and j: "j < length (vs_votes T)" "vs_votes T ! j = Some w"
  let ?k = "BlockID_Key E (vBlockID v)" and ?i = "unat (ValidatorIndex v)"
  obtain c S1 where c: "add_canonical E v ?k p S = Some (c, S1)" using add by (auto simp: VoteSet_addVerifiedVote_def elim!: bind_eq_SomeE)
  from add c consider "T = S1" "c \<noteq> None" | bv where "add_to_block v ?k p bv S1 = Some T"
      "bv = (case vs_votesByBlock S1 ?k of None \<Rightarrow> newBlockVotes False (ValidatorSet_Size (vs_valSet S1)) | Some bv \<Rightarrow> bv)"
    by (auto simp: VoteSet_addVerifiedVote_def elim!: bind_eq_SomeE split: option.splits if_splits)
  then show "recorded E T j w"
  proof cases
    case 1
    with add_canonical_unfinished [OF c] m have "vs_maj23 S = None" "vs_votes T = vs_votes S" "vs_votesByBlock T = vs_votesByBlock S" by auto
    then show ?thesis using t j by (auto simp: tallied_def recorded_def)
  next
    case (2 bv)
    obtain bv' where b: "vs_maj23 S1 = None" "vs_votes T = vs_votes S1" "vs_votesByBlock T = (vs_votesByBlock S1)(?k \<mapsto> bv')"
      "blockVotes_addVerifiedVote v p bv = Some bv'" using add_to_block_unfinished [OF 2(1) m] by auto
    note a = add_canonical_unfinished [OF c b(1)]
    have old: "recorded E T j w" if "j < length (vs_votes S)" "vs_votes S ! j = Some w"
    proof -
      have "recorded E S j w" using t that a by (simp add: tallied_def)
      then show ?thesis using a b(3) 2(2) block_add_votes(1) [OF b(4), of j w] by (auto simp: recorded_def split: option.splits)
    qed
    show ?thesis
    proof (cases "c = None \<and> j = ?i")
      case False
      then show ?thesis using old j b(2) a by (auto split: if_splits)
    next
      case True
      then have vs: "vs_votes S ! ?i = None" "vs_votes T = (vs_votes S)[?i := Some v]" "?i < length (vs_votes S)" using a b(2) j by auto
      then have w: "w = v" using j True by simp
      have n: "?i < vs_num S" "powers_ok (vs_valSet S)" using vs(3) inv by (auto simp: vset_inv_def votes_ok_def)
      have "bv_votes bv ! ?i = None"
      proof (cases "vs_votesByBlock S ?k")
        case None
        then show ?thesis using 2(2) a n Size_unat [OF n(2)] by (simp add: newBlockVotes_def)
      next
        case (Some d)
        then have "block_ok E S ?k d" using inv by (simp add: vset_inv_def blocks_ok_def)
        then show ?thesis using Some 2(2) a n(1) vs(1) by (cases "bv_votes d ! ?i") (auto simp: block_ok_def)
      qed
      from block_add_votes(2) [OF b(4) this] show ?thesis using True b(3) w by (simp add: recorded_def)
    qed
  qed
qed

lemma SetPeerMaj23_tallied:
  assumes "tallied E S" "VoteSet_SetPeerMaj23 E peerID b (Some S) = Some (e, T)"
  shows "tallied E T"
proof -
  have "vs_maj23 T = vs_maj23 S \<and> vs_votes T = vs_votes S \<and> (\<forall>k bv. vs_votesByBlock S k = Some bv \<longrightarrow>
      (\<exists>bv'. vs_votesByBlock T k = Some bv' \<and> bv_votes bv' = bv_votes bv))"
    using assms(2) by (auto simp: VoteSet_SetPeerMaj23_def Let_def split: option.splits if_splits)
  then show ?thesis using assms(1) unfolding tallied_def recorded_iff by fastforce
qed

lemma vset_step_tallied:
  assumes "vset_inv E S" "tallied E S" "vset_step E S T"
  shows "tallied E T"
  using assms(3)
proof cases
  case (step_vote vote r)
  then have "T = S \<or> (\<exists>v p x. VoteSet_addVerifiedVote E v (BlockID_Key E (vBlockID v)) p S = Some (x, T))"
    by (auto simp: VoteSet_AddVote_def VoteSet_addVote_def Let_def elim!: bind_eq_SomeE split: option.splits if_splits prod.splits go_error.splits)
  then show ?thesis using assms(1,2) addVerifiedVote_tallied by blast
next
  case (step_claim peerID blockID e)
  then show ?thesis using SetPeerMaj23_tallied assms(2) by blast
qed

interpretation vst: invariant_system "vset_step E" "\<lambda>T. vset_inv E T \<and> tallied E T" for E
  by unfold_locales (auto dest: vset_step_facts(1) vset_step_tallied)

lemma NewVoteSet_tallied: "NewVoteSet chainID height rnd typeB valSet = Some S \<Longrightarrow> tallied E S"
  by (auto simp: NewVoteSet_def tallied_def split: if_splits)

section \<open>Counting\<close>

text \<open>The slots whose recorded vote is a verified vote that agrees to a block.\<close>

definition agreed :: "env \<Rightarrow> VoteSet \<Rightarrow> BlockID \<Rightarrow> nat \<Rightarrow> bool" where
  "agreed E S b i \<longleftrightarrow> (case vs_votes S ! i of
     None \<Rightarrow> False
   | Some v \<Rightarrow> vote_ok E S i v \<and> vBlockID v = b \<and> Result v = VoteAgree)"

lemma majority_agreed:
  assumes inv: "vset_inv E S" and codec: "codec_ok E" and maj: "vs_maj23 S = Some b"
  shows "2 * wv.total (vs_valSet S) < 3 * wsum (vs_num S) (agreed E S b) (vpow (vs_valSet S))"
proof -
  obtain bv where bv: "vs_votesByBlock S (BlockID_Key E b) = Some bv" "has_quorum S bv"
    "\<forall>i < vs_num S. bv_votes bv ! i \<noteq> None \<longrightarrow> vs_votes S ! i = bv_votes bv ! i"
    using inv maj by (auto simp: vset_inv_def majority_ok_def)
  have ok: "block_ok E S (BlockID_Key E b) bv" using inv bv(1) by (simp add: vset_inv_def blocks_ok_def)
  have "agreed E S b i" if i: "i < vs_num S" and a: "agree (bv_votes bv ! i)" for i
  proof -
    obtain v where v: "bv_votes bv ! i = Some v" "Result v = VoteAgree"
      using a by (auto simp: agree_def split: option.splits)
    then have "vs_votes S ! i = Some v" "vote_ok E S i v" "BlockID_Key E (vBlockID v) = BlockID_Key E b"
      using bv(3) ok i by (auto simp: block_ok_def)
    then show ?thesis using v(2) BlockID_Key_inj [OF codec] by (simp add: agreed_def)
  qed
  then have "wsum (vs_num S) (\<lambda>i. agree (bv_votes bv ! i)) (vpow (vs_valSet S)) \<le>
      wsum (vs_num S) (agreed E S b) (vpow (vs_valSet S))"
    by (intro wsum_mono wv.w_nonneg)
  then show ?thesis using bv(2) by (auto simp: has_quorum_def)
qed

text \<open>Conversely, a block with more than two thirds in the canonical list is found.\<close>

lemma agreed_majority:
  assumes inv: "vset_inv E S" and t: "tallied E S" and codec: "codec_ok E"
    and q: "2 * wv.total (vs_valSet S) < 3 * wsum (vs_num S) (agreed E S b) (vpow (vs_valSet S))"
  shows "vs_maj23 S = Some b"
proof (cases "vs_maj23 S")
  case (Some a)
  obtain i where "i < vs_num S" "agreed E S a i" "agreed E S b i"
    using wv.quorum_meets_honest [OF majority_agreed [OF inv codec Some] q, of "\<lambda>_. False"] wv.total_nonneg [of "vs_valSet S"] by auto
  then show ?thesis using Some by (auto simp: agreed_def split: option.splits)
next
  case None
  have len: "length (vs_votes S) = vs_num S" using inv by (simp add: vset_inv_def votes_ok_def)
  let ?k = "BlockID_Key E b"
  have r: "\<exists>bv. vs_votesByBlock S ?k = Some bv \<and> agree (bv_votes bv ! i)" if "i < vs_num S" "agreed E S b i" for i
  proof -
    obtain v where v: "vs_votes S ! i = Some v" "vBlockID v = b" "Result v = VoteAgree" using \<open>agreed E S b i\<close> by (auto simp: agreed_def split: option.splits)
    then have "recorded E S i v" using \<open>i < vs_num S\<close> t None len by (simp add: tallied_def)
    then show ?thesis using v by (auto simp: recorded_iff agree_def)
  qed
  obtain i where "i < vs_num S" "agreed E S b i"
    using q wv.total_nonneg [of "vs_valSet S"] wsum_none [of "vs_num S" "agreed E S b" "vpow (vs_valSet S)"] by force
  then obtain bv where bv: "vs_votesByBlock S ?k = Some bv" using r by blast
  have "wsum (vs_num S) (agreed E S b) (vpow (vs_valSet S)) \<le> wsum (vs_num S) (\<lambda>i. agree (bv_votes bv ! i)) (vpow (vs_valSet S))"
    using r bv by (intro wsum_mono wv.w_nonneg) auto
  then have "has_quorum S bv" using q by (simp add: has_quorum_def)
  then show ?thesis using inv bv None by (auto simp: vset_inv_def majority_ok_def)
qed

lemma MakeCommit_eq:
  assumes "vs_typeB S = VoteTypePrecommit" "vs_maj23 S = Some b"
  shows "VoteSet_MakeCommit S =
    Some \<lparr>cBlockID = b, Precommits = vs_votes S, firstPrecommit = None, bitArray = None\<rparr>"
  using assms by (simp add: VoteSet_MakeCommit_def go_copy_same_length)

lemma first_vote_in: "first_vote ps = Some v \<Longrightarrow> \<exists>i < length ps. ps ! i = Some v"
  by (induction ps) (auto simp: first_vote_def split: if_splits)

lemma first_vote_None: "first_vote ps = None \<Longrightarrow> \<forall>i < length ps. ps ! i = None"
  by (induction ps) (auto simp: first_vote_def less_Suc_eq_0_disj split: if_splits)

lemma vote_ok_good:
  "vote_ok E S i v \<Longrightarrow> vs_typeB S = VoteTypePrecommit \<Longrightarrow>
    good_precommit E (vs_valSet S) (vs_chainID S) (vs_height S) (to_int (vs_round S)) i v"
  by (auto simp: good_precommit_def vote_ok_def Vote_Verify_def split: if_splits)

lemma commit_verifies:
  assumes inv: "vset_inv E S" and codec: "codec_ok E" and t: "vs_typeB S = VoteTypePrecommit" and maj: "vs_maj23 S = Some b"
  shows "ValidatorSet_VerifyCommit E (vs_valSet S) (vs_chainID S) b (vs_height S)
      \<lparr>cBlockID = b, Precommits = vs_votes S, firstPrecommit = None, bitArray = None\<rparr> = Some NoError"
proof -
  let ?c = "\<lparr>cBlockID = b, Precommits = vs_votes S, firstPrecommit = None, bitArray = None\<rparr>"
  have ok: "powers_ok (vs_valSet S)" and len: "length (vs_votes S) = vs_num S"
    and votes: "\<And>i v. i < vs_num S \<Longrightarrow> vs_votes S ! i = Some v \<Longrightarrow> vote_ok E S i v"
    using inv by (auto simp: vset_inv_def votes_ok_def)
  note quorum = majority_agreed [OF inv codec maj]
  have "wsum (vs_num S) (agreed E S b) (vpow (vs_valSet S)) > 0"
    using quorum wv.total_nonneg [of "vs_valSet S"] by linarith
  then obtain i where i: "i < vs_num S" "agreed E S b i"
    using wsum_none [of "vs_num S" "agreed E S b" "vpow (vs_valSet S)"] by force
  have "first_vote (vs_votes S) \<noteq> None"
  proof
    assume "first_vote (vs_votes S) = None"
    then have "vs_votes S ! i = None" using first_vote_None i(1) len by auto
    then show False using i(2) by (simp add: agreed_def)
  qed
  then obtain f where f: "first_vote (vs_votes S) = Some f" by blast
  then obtain j where "j < vs_num S" "vs_votes S ! j = Some f" using first_vote_in [OF f] len by auto
  then have "vote_ok E S j f" by (rule votes)
  with f have first: "commit_first ?c = f" "Height f = vs_height S" "Round f = vs_round S"
    by (simp_all add: commit_first_def vote_ok_def)
  have "precommits_good E (vs_valSet S) (vs_chainID S) (vs_height S) ?c"
    using vote_ok_good [OF votes t] first by (simp add: precommits_good_def split: option.splits)
  moreover have "wsum (vs_num S) (agreed E S b) (vpow (vs_valSet S)) \<le>
      wsum (vs_num S) (\<lambda>i. agrees b (Precommits ?c ! i)) (vpow (vs_valSet S))"
    by (intro wsum_mono wv.w_nonneg) (auto simp: agreed_def agrees_def split: option.splits)
  moreover have "commit_ok ?c" "length (Precommits ?c) < 2 ^ 63"
    using len ok by (auto simp: commit_ok_def powers_ok_def)
  ultimately show ?thesis
    unfolding VerifyCommit_iff(2) [OF ok \<open>commit_ok ?c\<close> \<open>length (Precommits ?c) < 2 ^ 63\<close>]
    using quorum len first by simp
qed

text \<open>
  Honest validators sign one block per height, round and type. Then two vote sets cannot find
  majorities for different blocks unless more than a third of the power is faulty.
\<close>

definition honest :: "env \<Rightarrow> VoteSet \<Rightarrow> (nat \<Rightarrow> bool) \<Rightarrow> bool" where
  "honest E S faulty \<longleftrightarrow>
     (\<forall>i v w. i < vs_num S \<longrightarrow> \<not> faulty i \<longrightarrow> vote_ok E S i v \<longrightarrow> vote_ok E S i w \<longrightarrow> vBlockID v = vBlockID w)"

lemma agreement:
  assumes inv: "vset_inv E S" "vset_inv E T" and frame: "same_frame S T" and codec: "codec_ok E"
    and h: "honest E S faulty" and few: "3 * wsum (vs_num S) faulty (vpow (vs_valSet S)) \<le> wv.total (vs_valSet S)"
    and maj: "vs_maj23 S = Some a" "vs_maj23 T = Some b"
  shows "a = b"
proof -
  have val: "vs_valSet T = vs_valSet S" using frame by (simp add: same_frame_def)
  obtain i where i: "i < vs_num S" "agreed E S a i" "agreed E T b i" "\<not> faulty i"
    using wv.quorum_meets_honest [OF majority_agreed [OF inv(1) codec maj(1)] _ few, of "agreed E T b"]
      majority_agreed [OF inv(2) codec maj(2)] val by auto
  then obtain v w where vw: "vote_ok E S i v" "vBlockID v = a" "vote_ok E T i w" "vBlockID w = b"
    by (auto simp: agreed_def split: option.splits)
  then have "vote_ok E S i w" using vote_ok_frame [OF frame] by simp
  then have "vBlockID v = vBlockID w" using h i(1,4) vw(1) unfolding honest_def by blast
  with vw show ?thesis by simp
qed

section \<open>Properties\<close>

text \<open>
  C13: every vote set that \<open>AddVote\<close> and \<open>SetPeerMaj23\<close> reach from a new one satisfies the
  invariant: slots hold verified votes of the set's height, round and type, the bit arrays mark
  exactly the filled slots, the sums are the voting power of the votes they count, and the
  majority field is set exactly when a tracked block has more than two thirds. Neither operation
  panics.
\<close>

theorem vote_set_invariant:
  assumes "powers_ok valSet" "NewVoteSet chainID height rnd typeB valSet = Some S0" "(vset_step E)\<^sup>*\<^sup>* S0 S"
  shows "vset_inv E S \<and> same_frame S0 S \<and> VoteSet_AddVote E vote (Some S) \<noteq> None \<and>
    VoteSet_SetPeerMaj23 E peerID blockID (Some S) \<noteq> None"
proof -
  have "vset_inv E S0" by (rule NewVoteSet_inv [OF assms(1,2)])
  then have inv: "vset_inv E S" "same_frame S0 S" using vsf.invar_reach [OF assms(3), of S0] by auto
  obtain r T where "VoteSet_addVote E vote S = Some (r, T)" by (rule addVote_inv [OF inv(1), of vote]) blast
  moreover obtain e T' where "VoteSet_SetPeerMaj23 E peerID blockID (Some S) = Some (e, T')"
    by (rule SetPeerMaj23_inv [OF inv(1), of peerID blockID]) blast
  ultimately show ?thesis using inv by (simp add: VoteSet_AddVote_def)
qed

definition demo_voteset :: "byte \<Rightarrow> VoteSet" where
  "demo_voteset t = the (NewVoteSet [] 1 0 t demo_vs)"

lemma demo_voteset_new: "NewVoteSet [] 1 0 t demo_vs = Some (demo_voteset t)"
  by (simp add: demo_voteset_def NewVoteSet_def)

text \<open>The precommit of the only validator gives a majority.\<close>

lemma demo_precommit_added:
  "case VoteSet_AddVote demo_env (Some (demo_vote VoteTypePrecommit)) (Some (demo_voteset VoteTypePrecommit)) of
     None \<Rightarrow> False
   | Some (r, T) \<Rightarrow> r = (True, NoError) \<and> VoteSet_IsCommit (Some T)"
  by code_simp

lemma demo_commit_set:
  obtains T where "VoteSet_AddVote demo_env (Some (demo_vote VoteTypePrecommit)) (Some (demo_voteset VoteTypePrecommit)) =
      Some ((True, NoError), T)" "VoteSet_IsCommit (Some T)" "vset_inv demo_env T" "same_frame (demo_voteset VoteTypePrecommit) T"
proof -
  let ?S = "demo_voteset VoteTypePrecommit"
  have inv: "vset_inv demo_env ?S" by (rule NewVoteSet_inv [OF powers_ok_demo demo_voteset_new])
  obtain added err T where T: "VoteSet_addVote demo_env (Some (demo_vote VoteTypePrecommit)) ?S = Some ((added, err), T)"
    "vset_inv demo_env T" "same_frame ?S T"
    by (rule addVote_inv [OF inv, of "Some (demo_vote VoteTypePrecommit)"])
  then show thesis using demo_precommit_added that [of T] by (simp add: VoteSet_AddVote_def)
qed

theorem vote_set_invariant_witness:
  "\<exists>T. VoteSet_AddVote demo_env (Some (demo_vote VoteTypePrecommit)) (Some (demo_voteset VoteTypePrecommit)) =
      Some ((True, NoError), T) \<and> VoteSet_IsCommit (Some T) \<and> vset_inv demo_env T"
proof -
  obtain T where T: "VoteSet_AddVote demo_env (Some (demo_vote VoteTypePrecommit)) (Some (demo_voteset VoteTypePrecommit)) =
      Some ((True, NoError), T)" "VoteSet_IsCommit (Some T)" by (rule demo_commit_set)
  have "(vset_step demo_env)\<^sup>*\<^sup>* (demo_voteset VoteTypePrecommit) T" using step_vote [OF T(1)] by simp
  from vote_set_invariant [OF powers_ok_demo demo_voteset_new this] T show ?thesis by blast
qed

text \<open>
  C19: the answers about two thirds are exact on every vote set reached from a new one.
  \<open>HasTwoThirdsAny\<close> holds exactly when the validators with a recorded vote have more than two thirds
  of the power. \<open>TwoThirdsMajority\<close> reports a block exactly when verified votes that agree to it, of
  more than two thirds of the power, are in the canonical list; a block reported once is reported
  ever after.
\<close>

theorem two_thirds_exact:
  assumes "codec_ok E" "powers_ok valSet" "NewVoteSet chainID height rnd typeB valSet = Some S0" "(vset_step E)\<^sup>*\<^sup>* S0 S"
  shows "(VoteSet_HasTwoThirdsAny (Some S) \<longleftrightarrow>
      2 * wv.total valSet < 3 * wsum (vnum valSet) (\<lambda>i. vs_votes S ! i \<noteq> None) (vpow valSet)) \<and>
    (VoteSet_TwoThirdsMajority (Some S) = (b, True) \<longleftrightarrow>
      2 * wv.total valSet < 3 * wsum (vnum valSet) (agreed E S b) (vpow valSet)) \<and>
    (VoteSet_TwoThirdsMajority (Some S) = (b, True) \<longrightarrow> (vset_step E)\<^sup>*\<^sup>* S T \<longrightarrow>
      VoteSet_TwoThirdsMajority (Some T) = (b, True))"
proof -
  have 0: "vset_inv E S0" "tallied E S0" by (rule NewVoteSet_inv [OF assms(2,3)], rule NewVoteSet_tallied [OF assms(3)])
  have inv: "vset_inv E S" and t: "tallied E S" using vst.invar_reach [OF assms(4)] 0 by auto
  have "same_frame S0 S" using vsf.invar_reach [OF assms(4), of S0] 0 by auto
  then have v: "vs_valSet S = valSet" using assms(3) by (auto simp: same_frame_def NewVoteSet_def split: if_splits)
  have ok: "powers_ok (vs_valSet S)" and sum: "vs_sum S = wsum (vs_num S) (\<lambda>i. vs_votes S ! i \<noteq> None) (vpow (vs_valSet S))"
    using inv by (auto simp: vset_inv_def votes_ok_def)
  have any: "VoteSet_HasTwoThirdsAny (Some S) \<longleftrightarrow>
      2 * wv.total (vs_valSet S) < 3 * wsum (vs_num S) (\<lambda>i. vs_votes S ! i \<noteq> None) (vpow (vs_valSet S))"
    unfolding VoteSet_HasTwoThirdsAny_def option.case two_thirds_less [OF ok] sum ..
  have m: "VoteSet_TwoThirdsMajority (Some X) = (b, True) \<longleftrightarrow> vs_maj23 X = Some b" for X
    by (simp add: VoteSet_TwoThirdsMajority_def split: option.splits)
  have "vs_maj23 S = Some b \<longleftrightarrow> 2 * wv.total valSet < 3 * wsum (vnum valSet) (agreed E S b) (vpow valSet)"
    using majority_agreed [OF inv assms(1)] agreed_majority [OF inv t assms(1)] unfolding v by blast
  moreover have "vs_maj23 T = Some b" if "(vset_step E)\<^sup>*\<^sup>* S T" "vs_maj23 S = Some b"
    using vsm.invar_reach [OF that(1), of b] that(2) inv by simp
  ultimately show ?thesis using any unfolding m v by blast
qed

theorem two_thirds_exact_witness:
  "\<exists>T. VoteSet_AddVote demo_env (Some (demo_vote VoteTypePrecommit)) (Some (demo_voteset VoteTypePrecommit)) =
      Some ((True, NoError), T) \<and> VoteSet_TwoThirdsMajority (Some T) = (\<lparr>Hash = [3], PartsHeader = zero_header\<rparr>, True) \<and>
    2 * wv.total demo_vs < 3 * wsum 1 (agreed demo_env T \<lparr>Hash = [3], PartsHeader = zero_header\<rparr>) (vpow demo_vs)"
proof -
  obtain T where T: "VoteSet_AddVote demo_env (Some (demo_vote VoteTypePrecommit)) (Some (demo_voteset VoteTypePrecommit)) =
      Some ((True, NoError), T)" by (rule demo_commit_set)
  have "map_option (\<lambda>x. VoteSet_TwoThirdsMajority (Some (snd x)))
      (VoteSet_AddVote demo_env (Some (demo_vote VoteTypePrecommit)) (Some (demo_voteset VoteTypePrecommit))) =
      Some (\<lparr>Hash = [3], PartsHeader = zero_header\<rparr>, True)" by code_simp
  then have m: "VoteSet_TwoThirdsMajority (Some T) = (\<lparr>Hash = [3], PartsHeader = zero_header\<rparr>, True)" using T by simp
  have "(vset_step demo_env)\<^sup>*\<^sup>* (demo_voteset VoteTypePrecommit) T" using step_vote [OF T] by simp
  from two_thirds_exact [OF codec_ok_demo powers_ok_demo demo_voteset_new this] m T show ?thesis
    by (auto simp: demo_vs_def)
qed

text \<open>
  C15: the commit that \<open>MakeCommit\<close> builds from a precommit set with a majority is accepted by
  \<open>VerifyCommit\<close> for the majority block and the height of the set.
\<close>

theorem MakeCommit_verifies:
  assumes "codec_ok E" "vset_inv E S" "VoteSet_IsCommit (Some S)"
  shows "\<exists>c b. VoteSet_MakeCommit S = Some c \<and> VoteSet_TwoThirdsMajority (Some S) = (b, True) \<and> cBlockID c = b \<and>
    ValidatorSet_VerifyCommit E (vs_valSet S) (vs_chainID S) b (vs_height S) c = Some NoError"
proof -
  obtain b where b: "vs_typeB S = VoteTypePrecommit" "vs_maj23 S = Some b"
    using assms(3) by (auto simp: VoteSet_IsCommit_def split: if_splits)
  then show ?thesis
    using MakeCommit_eq [OF b] commit_verifies [OF assms(2,1) b] by (auto simp: VoteSet_TwoThirdsMajority_def)
qed

theorem MakeCommit_verifies_witness:
  "\<exists>T c. VoteSet_AddVote demo_env (Some (demo_vote VoteTypePrecommit)) (Some (demo_voteset VoteTypePrecommit)) =
      Some ((True, NoError), T) \<and> VoteSet_MakeCommit T = Some c"
proof -
  obtain T where T: "VoteSet_AddVote demo_env (Some (demo_vote VoteTypePrecommit)) (Some (demo_voteset VoteTypePrecommit)) =
      Some ((True, NoError), T)" "VoteSet_IsCommit (Some T)" "vset_inv demo_env T"
    by (rule demo_commit_set)
  from MakeCommit_verifies [OF codec_ok_demo T(3,2)] T(1) show ?thesis by blast
qed

text \<open>
  C14: agreement in a round. When the validators outside a set of at most a third of the power
  sign votes for one block only at this height, round and type, no two vote sets, on whichever
  nodes, report majorities for different blocks.
\<close>

theorem round_agreement:
  assumes "codec_ok E" "vset_inv E S" "vset_inv E T" "same_frame S T" "honest E S faulty"
    and "3 * wsum (vs_num S) faulty (vpow (vs_valSet S)) \<le> wv.total (vs_valSet S)"
    and "VoteSet_TwoThirdsMajority (Some S) = (a, True)" "VoteSet_TwoThirdsMajority (Some T) = (b, True)"
  shows "a = b"
proof -
  have "vs_maj23 S = Some a" "vs_maj23 T = Some b"
    using assms(7,8) by (auto simp: VoteSet_TwoThirdsMajority_def split: option.splits)
  then show ?thesis using agreement [OF assms(2-4,1,5,6)] by blast
qed

text \<open>An environment in which the only valid signatures are on votes for one block.\<close>

definition strict_env :: env where
  "strict_env = demo_env\<lparr>
     jsonVote := (\<lambda>v. if cv_BlockID v = CanonicalBlockID \<lparr>Hash = [3], PartsHeader = zero_header\<rparr> then [1] else [0]),
     sigToPub := (\<lambda>msg sig. if msg = [1] then Some sig else None)\<rparr>"

lemma CanonicalBlockID_inj: "CanonicalBlockID a = CanonicalBlockID b \<longleftrightarrow> a = b"
  by (auto simp: CanonicalBlockID_def CanonicalPartSetHeader_def intro: BlockID.equality PartSetHeader.equality)

lemma strict_honest: "honest strict_env S (\<lambda>_. False)"
proof -
  have "vBlockID v = \<lparr>Hash = [3], PartsHeader = zero_header\<rparr>" if "vote_ok strict_env S i v" for i v
    using that CanonicalBlockID_inj
    by (auto simp: vote_ok_def Vote_Verify_def PubKeyTrue_VerifyBytes_def Vote_SignBytes_def CanonicalVote_def
        strict_env_def demo_env_def split: if_splits)
  then show ?thesis by (simp add: honest_def)
qed

lemma strict_majority:
  "case VoteSet_AddVote strict_env (Some (demo_vote VoteTypePrecommit)) (Some (demo_voteset VoteTypePrecommit)) of
     None \<Rightarrow> False
   | Some (r, T) \<Rightarrow> VoteSet_TwoThirdsMajority (Some T) = (\<lparr>Hash = [3], PartsHeader = zero_header\<rparr>, True)"
  by code_simp

theorem round_agreement_witness:
  "\<forall>a. (case VoteSet_AddVote strict_env (Some (demo_vote VoteTypePrecommit)) (Some (demo_voteset VoteTypePrecommit)) of
     None \<Rightarrow> False | Some (r, T) \<Rightarrow> VoteSet_TwoThirdsMajority (Some T) = (a, True)) =
     (a = \<lparr>Hash = [3], PartsHeader = zero_header\<rparr>)"
proof -
  let ?S = "demo_voteset VoteTypePrecommit"
  have codec: "codec_ok strict_env" using codec_ok_demo by (simp add: codec_ok_def strict_env_def)
  have inv: "vset_inv strict_env ?S" by (rule NewVoteSet_inv [OF powers_ok_demo demo_voteset_new])
  obtain r T where T: "VoteSet_addVote strict_env (Some (demo_vote VoteTypePrecommit)) ?S = Some (r, T)" "vset_inv strict_env T"
    by (rule addVote_inv [OF inv, of "Some (demo_vote VoteTypePrecommit)"]) blast
  have maj: "VoteSet_TwoThirdsMajority (Some T) = (\<lparr>Hash = [3], PartsHeader = zero_header\<rparr>, True)"
    using strict_majority T(1) by (simp add: VoteSet_AddVote_def)
  have "3 * wsum (vs_num T) (\<lambda>_. False) (vpow (vs_valSet T)) \<le> wv.total (vs_valSet T)"
    by (simp add: wv.total_nonneg)
  from round_agreement [OF codec T(2) T(2) same_frame_refl strict_honest this _ maj]
  show ?thesis using T(1) maj by (auto simp: VoteSet_AddVote_def)
qed

definition heavy_vs :: ValidatorSet where
  "heavy_vs = \<lparr>Validators = [\<lparr>Address = [7], PubKey = [7], VotingPower = 2 ^ 62, Accum = 0\<rparr>], Proposer = None, totalVotingPower = 0\<rparr>"

text \<open>
  The power limit the code needs is half of what its comment assumes. With one validator of
  power \<open>2 ^ 62\<close>, inside the stated limit, doubling the total overflows and a vote set without a
  single vote reports two thirds of any votes.
\<close>

theorem two_thirds_overflow:
  "\<exists>S. NewVoteSet [] 1 0 VoteTypePrevote heavy_vs = Some S \<and> list_all (\<lambda>v. v = None) (vs_votes S) \<and>
    vs_total heavy_vs = 2 ^ 62 \<and> VoteSet_HasTwoThirdsAny (Some S)"
proof -
  have t: "vs_total heavy_vs = 2 ^ 62"
    by (simp add: heavy_vs_def vs_total_alt safeAddClip_def safeAdd_def wrap64_def)
  have "two_thirds heavy_vs < 0" by (simp add: two_thirds_def t wrap64_def signed_divide_int_def)
  then show ?thesis using t by (simp add: NewVoteSet_def VoteSet_HasTwoThirdsAny_def list_all_iff)
qed

end
