(* ===== verification/Height_Vote_Set.thy ===== *)
theory Height_Vote_Set
  imports Vote_Set_Properties
begin

text \<open>
  The vote sets of all rounds of one height, \<^verbatim>\<open>consensus/tbft/types/height_vote_set.go\<close>: rounds
  are tracked up to the current one, and each peer may open at most two rounds beyond it. A vote
  set is a pointer in the source; here an operation on it replaces the entry of its round.
\<close>

section \<open>The operations\<close>

record RoundVoteSet =
  rvs_Prevotes :: VoteSet
  rvs_Precommits :: VoteSet

record HeightVoteSet =
  hvs_chainID :: string
  hvs_height :: u64
  hvs_valSet :: ValidatorSet
  hvs_round :: int
  hvs_roundVoteSets :: "int \<rightharpoonup> RoundVoteSet"
  hvs_peerCatchupRounds :: "string \<Rightarrow> int list"

datatype hvs_error = ErrorGotVoteFromUnwantedRound | ErrVoteSet vote_error

datatype claim_error = ErrInvalidVoteType | ErrPeerClaim peer_error

definition HeightVoteSet_addRound :: "int \<Rightarrow> HeightVoteSet \<Rightarrow> HeightVoteSet option" where
  "HeightVoteSet_addRound rnd hvs =
     (if hvs_roundVoteSets hvs rnd \<noteq> None then None
      else do {
        prevotes \<leftarrow> NewVoteSet (hvs_chainID hvs) (hvs_height hvs) rnd VoteTypePrevote (hvs_valSet hvs);
        precommits \<leftarrow> NewVoteSet (hvs_chainID hvs) (hvs_height hvs) rnd VoteTypePrecommit (hvs_valSet hvs);
        Some (hvs\<lparr>hvs_roundVoteSets := (hvs_roundVoteSets hvs)
          (rnd \<mapsto> \<lparr>rvs_Prevotes = prevotes, rvs_Precommits = precommits\<rparr>)\<rparr>)
      })"

definition HeightVoteSet_Reset :: "u64 \<Rightarrow> ValidatorSet \<Rightarrow> HeightVoteSet \<Rightarrow> HeightVoteSet option" where
  "HeightVoteSet_Reset height valSet hvs = do {
     hvs' \<leftarrow> HeightVoteSet_addRound 0 (hvs\<lparr>hvs_height := height, hvs_valSet := valSet,
       hvs_roundVoteSets := (\<lambda>_. None), hvs_peerCatchupRounds := (\<lambda>_. [])\<rparr>);
     Some (hvs'\<lparr>hvs_round := 0\<rparr>)
   }"

definition NewHeightVoteSet :: "string \<Rightarrow> u64 \<Rightarrow> ValidatorSet \<Rightarrow> HeightVoteSet option" where
  "NewHeightVoteSet chainID height valSet =
     HeightVoteSet_Reset height valSet
       \<lparr>hvs_chainID = chainID, hvs_height = 0, hvs_valSet = valSet, hvs_round = 0,
        hvs_roundVoteSets = (\<lambda>_. None), hvs_peerCatchupRounds = (\<lambda>_. [])\<rparr>"

definition HeightVoteSet_Height :: "HeightVoteSet \<Rightarrow> u64" where
  "HeightVoteSet_Height hvs = hvs_height hvs"

definition HeightVoteSet_Round :: "HeightVoteSet \<Rightarrow> int" where
  "HeightVoteSet_Round hvs = hvs_round hvs"

text \<open>
  The loop of \<open>SetRound\<close> adds the rounds that are missing. Up to the largest \<open>int\<close> its condition never
  fails, and it does not return.
\<close>

definition HeightVoteSet_SetRound :: "int \<Rightarrow> HeightVoteSet \<Rightarrow> HeightVoteSet option" where
  "HeightVoteSet_SetRound rnd hvs =
     (if hvs_round hvs \<noteq> 0 \<and> rnd < wrap64 (hvs_round hvs + 1) then None
      else if rnd = 2 ^ 63 - 1 then None
      else do {
        hvs' \<leftarrow> go_for (\<lambda>r h. if hvs_roundVoteSets h r \<noteq> None then Some h else HeightVoteSet_addRound r h)
                  [wrap64 (hvs_round hvs + 1)..rnd] hvs;
        Some (hvs'\<lparr>hvs_round := rnd\<rparr>)
      })"

definition HeightVoteSet_getVoteSet :: "HeightVoteSet \<Rightarrow> int \<Rightarrow> byte \<Rightarrow> VoteSet option" where
  "HeightVoteSet_getVoteSet hvs rnd typeB =
     (case hvs_roundVoteSets hvs rnd of
        None \<Rightarrow> None
      | Some rvs \<Rightarrow> if typeB = VoteTypePrevote then Some (rvs_Prevotes rvs)
                    else if typeB = VoteTypePrecommit then Some (rvs_Precommits rvs)
                    else None)"

text \<open>The entry that a pointer from \<open>getVoteSet\<close> refers to.\<close>

definition set_vote_set :: "int \<Rightarrow> byte \<Rightarrow> VoteSet \<Rightarrow> HeightVoteSet \<Rightarrow> HeightVoteSet" where
  "set_vote_set rnd typeB S hvs =
     (case hvs_roundVoteSets hvs rnd of
        None \<Rightarrow> hvs
      | Some rvs \<Rightarrow> hvs\<lparr>hvs_roundVoteSets := (hvs_roundVoteSets hvs)(rnd \<mapsto>
          (if typeB = VoteTypePrevote then rvs\<lparr>rvs_Prevotes := S\<rparr> else rvs\<lparr>rvs_Precommits := S\<rparr>))\<rparr>)"

definition HeightVoteSet_AddVote ::
  "env \<Rightarrow> Vote \<Rightarrow> string \<Rightarrow> HeightVoteSet \<Rightarrow> ((bool \<times> hvs_error go_error) \<times> HeightVoteSet) option" where
  "HeightVoteSet_AddVote E vote peerID hvs =
     (if \<not> IsVoteTypeValid (Type vote) then Some ((False, NoError), hvs)
      else
        let rnd = to_int (Round vote);
            add = (\<lambda>h. do {
              ((added, err), S) \<leftarrow> VoteSet_AddVote E (Some vote) (HeightVoteSet_getVoteSet h rnd (Type vote));
              Some ((added, case err of NoError \<Rightarrow> NoError | Err e \<Rightarrow> Err (ErrVoteSet e)), set_vote_set rnd (Type vote) S h)
            })
        in if HeightVoteSet_getVoteSet hvs rnd (Type vote) = None then
             (let rndz = hvs_peerCatchupRounds hvs peerID
              in if length rndz < 2 then do {
                   h \<leftarrow> HeightVoteSet_addRound rnd hvs;
                   add (h\<lparr>hvs_peerCatchupRounds := (hvs_peerCatchupRounds h)(peerID := rndz @ [rnd])\<rparr>)
                 }
                 else Some ((False, Err ErrorGotVoteFromUnwantedRound), hvs))
           else add hvs)"

definition HeightVoteSet_Prevotes :: "HeightVoteSet \<Rightarrow> int \<Rightarrow> VoteSet option" where
  "HeightVoteSet_Prevotes hvs rnd = HeightVoteSet_getVoteSet hvs rnd VoteTypePrevote"

definition HeightVoteSet_Precommits :: "HeightVoteSet \<Rightarrow> int \<Rightarrow> VoteSet option" where
  "HeightVoteSet_Precommits hvs rnd = HeightVoteSet_getVoteSet hvs rnd VoteTypePrecommit"

text \<open>The loops from a round down to zero.\<close>

fun pol_from :: "HeightVoteSet \<Rightarrow> nat \<Rightarrow> int \<times> BlockID" where
  "pol_from hvs 0 = (- 1, zero_BlockID)"
| "pol_from hvs (Suc r) =
     (let (polBlockID, ok) = VoteSet_TwoThirdsMajority (HeightVoteSet_getVoteSet hvs (int r) VoteTypePrevote)
      in if ok then (int r, polBlockID) else pol_from hvs r)"

definition HeightVoteSet_POLInfo :: "HeightVoteSet \<Rightarrow> int \<times> BlockID" where
  "HeightVoteSet_POLInfo hvs = pol_from hvs (nat (hvs_round hvs + 1))"

definition HeightVoteSet_SetPeerMaj23 ::
  "env \<Rightarrow> int \<Rightarrow> byte \<Rightarrow> string \<Rightarrow> BlockID \<Rightarrow> HeightVoteSet \<Rightarrow> (claim_error go_error \<times> HeightVoteSet) option" where
  "HeightVoteSet_SetPeerMaj23 E rnd typeB peerID blockID hvs =
     (if \<not> IsVoteTypeValid typeB then Some (Err ErrInvalidVoteType, hvs)
      else (case HeightVoteSet_getVoteSet hvs rnd typeB of
              None \<Rightarrow> Some (NoError, hvs)
            | Some voteSet \<Rightarrow> do {
                (err, S) \<leftarrow> VoteSet_SetPeerMaj23 E peerID blockID (Some voteSet);
                Some (case err of NoError \<Rightarrow> NoError | Err e \<Rightarrow> Err (ErrPeerClaim e), set_vote_set rnd typeB S hvs)
              }))"

fun signs_from :: "HeightVoteSet \<Rightarrow> nat \<Rightarrow> bytes \<Rightarrow> bytes \<Rightarrow> KeepBlockSign option option" where
  "signs_from hvs 0 hash addr = Some None"
| "signs_from hvs (Suc r) hash addr =
     (case HeightVoteSet_Prevotes hvs (int r) of
        None \<Rightarrow> signs_from hvs r hash addr
      | Some prevote \<Rightarrow> do {
          keepsign \<leftarrow> VoteSet_GetSignByAddress (Some prevote) addr;
          case keepsign of
            Some k \<Rightarrow> if hash = kHash k then Some (Some k) else signs_from hvs r hash addr
          | None \<Rightarrow> signs_from hvs r hash addr
        })"

definition HeightVoteSet_GetSignsFromVote :: "HeightVoteSet \<Rightarrow> int \<Rightarrow> bytes \<Rightarrow> bytes \<Rightarrow> KeepBlockSign option option" where
  "HeightVoteSet_GetSignsFromVote hvs rnd hash addr = signs_from hvs (nat (rnd + 1)) hash addr"

section \<open>The invariant\<close>

text \<open>A vote set that belongs to the height and to a round and type.\<close>

definition member_ok :: "env \<Rightarrow> HeightVoteSet \<Rightarrow> int \<Rightarrow> byte \<Rightarrow> VoteSet \<Rightarrow> bool" where
  "member_ok E H r t S \<longleftrightarrow>
     vset_inv E S \<and> vs_chainID S = hvs_chainID H \<and> vs_height S = hvs_height H \<and> vs_round S = to_uint r \<and>
     vs_typeB S = t \<and> vs_valSet S = hvs_valSet H"

definition hvs_inv :: "env \<Rightarrow> HeightVoteSet \<Rightarrow> bool" where
  "hvs_inv E H \<longleftrightarrow>
     powers_ok (hvs_valSet H) \<and> hvs_height H \<noteq> 0 \<and> 0 \<le> hvs_round H \<and> hvs_round H < 2 ^ 63 - 1 \<and>
     (\<forall>r rvs. hvs_roundVoteSets H r = Some rvs \<longrightarrow>
        member_ok E H r VoteTypePrevote (rvs_Prevotes rvs) \<and> member_ok E H r VoteTypePrecommit (rvs_Precommits rvs)) \<and>
     (\<forall>r. 0 \<le> r \<longrightarrow> r \<le> hvs_round H \<longrightarrow> hvs_roundVoteSets H r \<noteq> None) \<and>
     (\<forall>r. hvs_roundVoteSets H r \<noteq> None \<longrightarrow> 0 \<le> r \<and> r \<le> hvs_round H \<or> (\<exists>p. r \<in> set (hvs_peerCatchupRounds H p))) \<and>
     (\<forall>p. length (hvs_peerCatchupRounds H p) \<le> 2)"

lemma hvs_invI:
  assumes "powers_ok (hvs_valSet H)" "hvs_height H \<noteq> 0" "0 \<le> hvs_round H" "hvs_round H < 2 ^ 63 - 1"
    and "\<And>r rvs. hvs_roundVoteSets H r = Some rvs \<Longrightarrow>
        member_ok E H r VoteTypePrevote (rvs_Prevotes rvs) \<and> member_ok E H r VoteTypePrecommit (rvs_Precommits rvs)"
    and "\<And>r. 0 \<le> r \<Longrightarrow> r \<le> hvs_round H \<Longrightarrow> hvs_roundVoteSets H r \<noteq> None"
    and "\<And>r. hvs_roundVoteSets H r \<noteq> None \<Longrightarrow> 0 \<le> r \<and> r \<le> hvs_round H \<or> (\<exists>p. r \<in> set (hvs_peerCatchupRounds H p))"
    and "\<And>p. length (hvs_peerCatchupRounds H p) \<le> 2"
  shows "hvs_inv E H"
  using assms by (simp add: hvs_inv_def)

lemma hvs_inv_rounds:
  "hvs_inv E H \<Longrightarrow> hvs_roundVoteSets H r \<noteq> None \<Longrightarrow>
     0 \<le> r \<and> r \<le> hvs_round H \<or> (\<exists>p. r \<in> set (hvs_peerCatchupRounds H p))"
  by (simp add: hvs_inv_def)

lemma NewVoteSet_member:
  assumes "powers_ok (hvs_valSet H)" "hvs_height H \<noteq> 0"
  obtains S where "NewVoteSet (hvs_chainID H) (hvs_height H) r t (hvs_valSet H) = Some S" "member_ok E H r t S"
proof -
  obtain S where S: "NewVoteSet (hvs_chainID H) (hvs_height H) r t (hvs_valSet H) = Some S"
    using assms(2) by (simp add: NewVoteSet_def)
  have "vset_inv E S" by (rule NewVoteSet_inv [OF assms(1) S])
  with S show thesis
    by (intro that) (auto simp: member_ok_def NewVoteSet_def split: if_splits)
qed

definition hvs_frame :: "HeightVoteSet \<Rightarrow> HeightVoteSet \<Rightarrow> bool" where
  "hvs_frame H K \<longleftrightarrow> hvs_chainID K = hvs_chainID H \<and> hvs_height K = hvs_height H \<and> hvs_valSet K = hvs_valSet H"

lemma member_ok_frame: "hvs_frame H K \<Longrightarrow> member_ok E K r t S = member_ok E H r t S"
  by (simp add: hvs_frame_def member_ok_def)

lemma addRound_ok:
  assumes "powers_ok (hvs_valSet H)" "hvs_height H \<noteq> 0" "hvs_roundVoteSets H r = None"
  obtains rvs where
    "HeightVoteSet_addRound r H = Some (H\<lparr>hvs_roundVoteSets := (hvs_roundVoteSets H)(r \<mapsto> rvs)\<rparr>)"
    "member_ok E H r VoteTypePrevote (rvs_Prevotes rvs)" "member_ok E H r VoteTypePrecommit (rvs_Precommits rvs)"
proof -
  obtain S where S: "NewVoteSet (hvs_chainID H) (hvs_height H) r VoteTypePrevote (hvs_valSet H) = Some S"
    "member_ok E H r VoteTypePrevote S" by (rule NewVoteSet_member [OF assms(1,2)])
  obtain T where T: "NewVoteSet (hvs_chainID H) (hvs_height H) r VoteTypePrecommit (hvs_valSet H) = Some T"
    "member_ok E H r VoteTypePrecommit T" by (rule NewVoteSet_member [OF assms(1,2)])
  show thesis
    by (rule that [of "\<lparr>rvs_Prevotes = S, rvs_Precommits = T\<rparr>"])
      (use S T assms(3) in \<open>simp_all add: HeightVoteSet_addRound_def\<close>)
qed

lemma addRound_inv:
  assumes inv: "hvs_inv E H" and r: "hvs_roundVoteSets H r = None"
    and c: "\<exists>p. r \<in> set (c p)" "\<And>p. length (c p) \<le> 2" "\<And>p. set (hvs_peerCatchupRounds H p) \<subseteq> set (c p)"
  obtains K where "HeightVoteSet_addRound r H = Some K" "hvs_frame H K" "hvs_inv E (K\<lparr>hvs_peerCatchupRounds := c\<rparr>)"
    "hvs_roundVoteSets K r \<noteq> None" "hvs_round K = hvs_round H" "hvs_peerCatchupRounds K = hvs_peerCatchupRounds H"
    "hvs_roundVoteSets H \<subseteq>\<^sub>m hvs_roundVoteSets K"
proof -
  have ok: "powers_ok (hvs_valSet H)" "hvs_height H \<noteq> 0" using inv by (auto simp: hvs_inv_def)
  obtain rvs where rvs: "HeightVoteSet_addRound r H = Some (H\<lparr>hvs_roundVoteSets := (hvs_roundVoteSets H)(r \<mapsto> rvs)\<rparr>)"
    "member_ok E H r VoteTypePrevote (rvs_Prevotes rvs)" "member_ok E H r VoteTypePrecommit (rvs_Precommits rvs)"
    by (rule addRound_ok [OF ok r])
  let ?K = "H\<lparr>hvs_roundVoteSets := (hvs_roundVoteSets H)(r \<mapsto> rvs)\<rparr>"
  have fr: "hvs_frame H (?K\<lparr>hvs_peerCatchupRounds := c\<rparr>)" by (simp add: hvs_frame_def)
  have "hvs_inv E (?K\<lparr>hvs_peerCatchupRounds := c\<rparr>)"
  proof (rule hvs_invI, unfold member_ok_frame [OF fr])
    fix r' rvs'
    assume "hvs_roundVoteSets (?K\<lparr>hvs_peerCatchupRounds := c\<rparr>) r' = Some rvs'"
    then show "member_ok E H r' VoteTypePrevote (rvs_Prevotes rvs') \<and> member_ok E H r' VoteTypePrecommit (rvs_Precommits rvs')"
      using inv rvs(2,3) by (cases "r' = r") (auto simp: hvs_inv_def)
  next
    fix r'
    assume "hvs_roundVoteSets (?K\<lparr>hvs_peerCatchupRounds := c\<rparr>) r' \<noteq> None"
    then show "0 \<le> r' \<and> r' \<le> hvs_round (?K\<lparr>hvs_peerCatchupRounds := c\<rparr>) \<or>
        (\<exists>p. r' \<in> set (hvs_peerCatchupRounds (?K\<lparr>hvs_peerCatchupRounds := c\<rparr>) p))"
      using hvs_inv_rounds [OF inv, of r'] c(1) c(3) [THEN subsetD, of r'] by (cases "r' = r") auto
  qed (use inv c(2) in \<open>auto simp: hvs_inv_def\<close>)
  then show thesis by (intro that [of ?K]) (use rvs(1) r in \<open>auto simp: hvs_frame_def map_le_def\<close>)
qed

text \<open>Replacing one vote set by another that belongs to the same round and type.\<close>

lemma getVoteSet_member:
  assumes "hvs_inv E H" "HeightVoteSet_getVoteSet H r t = Some S"
  shows "member_ok E H r t S" "t = VoteTypePrevote \<or> t = VoteTypePrecommit"
  using assms by (auto simp: hvs_inv_def HeightVoteSet_getVoteSet_def split: option.splits if_splits)

lemma getVoteSet_None_iff:
  "IsVoteTypeValid t \<Longrightarrow> HeightVoteSet_getVoteSet H r t = None \<longleftrightarrow> hvs_roundVoteSets H r = None"
  by (auto simp: HeightVoteSet_getVoteSet_def IsVoteTypeValid_def split: option.splits)

lemma set_vote_set_frame:
  "hvs_frame H (set_vote_set r t S H)" "hvs_round (set_vote_set r t S H) = hvs_round H"
  "hvs_peerCatchupRounds (set_vote_set r t S H) = hvs_peerCatchupRounds H"
  "hvs_roundVoteSets (set_vote_set r t S H) r' = None \<longleftrightarrow> hvs_roundVoteSets H r' = None"
  by (auto simp: set_vote_set_def hvs_frame_def split: option.splits)

lemma getVoteSet_set_vote_set:
  assumes "HeightVoteSet_getVoteSet H r t \<noteq> None"
  shows "HeightVoteSet_getVoteSet (set_vote_set r t S H) r' t' =
    (if r' = r \<and> t' = t then Some S else HeightVoteSet_getVoteSet H r' t')"
  using assms by (auto simp: HeightVoteSet_getVoteSet_def set_vote_set_def split: option.splits if_splits)

lemma set_vote_set_inv:
  assumes inv: "hvs_inv E H" and S: "HeightVoteSet_getVoteSet H r t \<noteq> None" "member_ok E H r t S"
  shows "hvs_inv E (set_vote_set r t S H)"
proof (rule hvs_invI, unfold member_ok_frame [OF set_vote_set_frame(1)] set_vote_set_frame)
  fix r' rvs
  let ?K = "set_vote_set r t S H"
  assume "hvs_roundVoteSets ?K r' = Some rvs"
  then have g: "HeightVoteSet_getVoteSet ?K r' VoteTypePrevote = Some (rvs_Prevotes rvs)"
    "HeightVoteSet_getVoteSet ?K r' VoteTypePrecommit = Some (rvs_Precommits rvs)"
    by (simp_all add: HeightVoteSet_getVoteSet_def)
  then show "member_ok E H r' VoteTypePrevote (rvs_Prevotes rvs) \<and> member_ok E H r' VoteTypePrecommit (rvs_Precommits rvs)"
    using getVoteSet_member(1) [OF inv] S(2) unfolding getVoteSet_set_vote_set [OF S(1)]
    by (metis option.inject)
qed (use inv set_vote_set_frame [where H = H and r = r and t = t and S = S] in \<open>auto simp: hvs_inv_def hvs_frame_def\<close>)

section \<open>The operations keep the invariant\<close>

lemma member_ok_step:
  assumes "member_ok E H r t S" "vset_inv E T" "same_frame S T"
  shows "member_ok E H r t T"
  using assms by (simp add: member_ok_def same_frame_def)

lemma hvs_frame_refl [simp]: "hvs_frame H H"
  by (simp add: hvs_frame_def)

lemma hvs_frame_trans: "hvs_frame H K \<Longrightarrow> hvs_frame K L \<Longrightarrow> hvs_frame H L"
  by (simp add: hvs_frame_def)

lemma add_found:
  assumes inv: "hvs_inv E H" and S: "HeightVoteSet_getVoteSet H r t = Some S"
  obtains added err T where "VoteSet_AddVote E (Some v) (Some S) = Some ((added, err), T)"
    "hvs_inv E (set_vote_set r t T H)" "vs_maj23 S \<noteq> None \<longrightarrow> vs_maj23 T = vs_maj23 S"
    "added \<longrightarrow> (\<exists>i. recorded E T i v)"
proof -
  have m: "member_ok E H r t S" by (rule getVoteSet_member(1) [OF inv S])
  then have "vset_inv E S" by (simp add: member_ok_def)
  then obtain added err T where T: "VoteSet_addVote E (Some v) S = Some ((added, err), T)" "vset_inv E T" "same_frame S T"
    "added \<longrightarrow> (\<exists>v' i. Some v = Some v' \<and> i < vs_num S \<and> vote_ok E S i v' \<and> recorded E T i v')"
    "vs_maj23 S \<noteq> None \<longrightarrow> vs_maj23 T = vs_maj23 S"
    by (rule addVote_inv [of E S "Some v"])
  have "hvs_inv E (set_vote_set r t T H)"
    by (rule set_vote_set_inv [OF inv]) (use S member_ok_step [OF m T(2,3)] in simp_all)
  with T show thesis by (intro that [of added err T]) (auto simp: VoteSet_AddVote_def)
qed

text \<open>The state in which the vote is added: the given one, or the given one with one more round.\<close>

definition opened :: "env \<Rightarrow> HeightVoteSet \<Rightarrow> HeightVoteSet \<Rightarrow> bool" where
  "opened E H B \<longleftrightarrow> hvs_inv E B \<and> hvs_frame H B \<and> hvs_round B = hvs_round H \<and> hvs_roundVoteSets H \<subseteq>\<^sub>m hvs_roundVoteSets B"

definition lift_error :: "vote_error go_error \<Rightarrow> hvs_error go_error" where
  "lift_error err = (case err of NoError \<Rightarrow> NoError | Err e \<Rightarrow> Err (ErrVoteSet e))"

lemma AddVote_found:
  assumes "IsVoteTypeValid (Type v)" "HeightVoteSet_getVoteSet H (to_int (Round v)) (Type v) = Some S"
    and "VoteSet_AddVote E (Some v) (Some S) = Some ((added, err), T)"
  shows "HeightVoteSet_AddVote E v peerID H =
    Some ((added, lift_error err), set_vote_set (to_int (Round v)) (Type v) T H)"
  using assms by (simp add: HeightVoteSet_AddVote_def Let_def lift_error_def)

lemma AddVote_opens:
  assumes inv: "hvs_inv E H" and v: "IsVoteTypeValid (Type v)" "hvs_roundVoteSets H (to_int (Round v)) = None"
    "length (hvs_peerCatchupRounds H peerID) < 2"
  shows "\<exists>B S. opened E H B \<and> HeightVoteSet_getVoteSet B (to_int (Round v)) (Type v) = Some S \<and>
    HeightVoteSet_AddVote E v peerID H = HeightVoteSet_AddVote E v peerID B"
proof -
  let ?r = "to_int (Round v)" and ?t = "Type v"
  let ?c = "(hvs_peerCatchupRounds H)(peerID := hvs_peerCatchupRounds H peerID @ [?r])"
  have l: "length (?c p) \<le> 2" for p using v(3) inv by (auto simp: hvs_inv_def)
  obtain K where K: "HeightVoteSet_addRound ?r H = Some K" "hvs_frame H K" "hvs_inv E (K\<lparr>hvs_peerCatchupRounds := ?c\<rparr>)"
    "hvs_roundVoteSets K ?r \<noteq> None" "hvs_round K = hvs_round H" "hvs_peerCatchupRounds K = hvs_peerCatchupRounds H"
    "hvs_roundVoteSets H \<subseteq>\<^sub>m hvs_roundVoteSets K"
  proof (rule addRound_inv [OF inv v(2), of ?c])
    show "\<exists>p. ?r \<in> set (?c p)" by (rule exI [of _ peerID]) simp
  qed (use l in \<open>auto split: if_splits\<close>)
  let ?K = "K\<lparr>hvs_peerCatchupRounds := ?c\<rparr>"
  have "HeightVoteSet_getVoteSet ?K ?r ?t \<noteq> None" using K(4) v(1) getVoteSet_None_iff [of ?t ?K ?r] by simp
  then obtain S where S: "HeightVoteSet_getVoteSet ?K ?r ?t = Some S" by blast
  have "opened E H ?K" using K(2,3,5,7) by (simp add: opened_def hvs_frame_def)
  moreover have "HeightVoteSet_AddVote E v peerID H = HeightVoteSet_AddVote E v peerID ?K"
    using v(1,3) K(1,6) S getVoteSet_None_iff [OF v(1), of H ?r] v(2) by (simp add: HeightVoteSet_AddVote_def Let_def)
  ultimately show ?thesis using S by blast
qed

lemma AddVote_cases:
  assumes inv: "hvs_inv E H"
  shows "\<not> IsVoteTypeValid (Type v) \<and> HeightVoteSet_AddVote E v peerID H = Some ((False, NoError), H) \<or>
    IsVoteTypeValid (Type v) \<and> hvs_roundVoteSets H (to_int (Round v)) = None \<and> \<not> length (hvs_peerCatchupRounds H peerID) < 2 \<and>
      HeightVoteSet_AddVote E v peerID H = Some ((False, Err ErrorGotVoteFromUnwantedRound), H) \<or>
    (\<exists>B S added err T. opened E H B \<and> HeightVoteSet_getVoteSet B (to_int (Round v)) (Type v) = Some S \<and>
      VoteSet_AddVote E (Some v) (Some S) = Some ((added, err), T) \<and>
      hvs_inv E (set_vote_set (to_int (Round v)) (Type v) T B) \<and>
      (vs_maj23 S \<noteq> None \<longrightarrow> vs_maj23 T = vs_maj23 S) \<and> (added \<longrightarrow> (\<exists>i. recorded E T i v)) \<and>
      HeightVoteSet_AddVote E v peerID H =
        Some ((added, lift_error err), set_vote_set (to_int (Round v)) (Type v) T B))" (is "?bad \<or> ?unwanted \<or> ?ok")
proof -
  let ?r = "to_int (Round v)" and ?t = "Type v"
  have ok: ?ok if B: "opened E H B" "HeightVoteSet_getVoteSet B ?r ?t = Some S"
      "HeightVoteSet_AddVote E v peerID H = HeightVoteSet_AddVote E v peerID B" and t: "IsVoteTypeValid ?t" for B S
  proof -
    have "hvs_inv E B" using B(1) by (simp add: opened_def)
    from this B(2) obtain added err T where T: "VoteSet_AddVote E (Some v) (Some S) = Some ((added, err), T)"
      "hvs_inv E (set_vote_set ?r ?t T B)" "vs_maj23 S \<noteq> None \<longrightarrow> vs_maj23 T = vs_maj23 S"
      "added \<longrightarrow> (\<exists>i. recorded E T i v)" by (rule add_found [where v = v])
    show ?thesis
      using B(1,2) T AddVote_found [OF t B(2) T(1), of peerID, folded B(3)]
      by (intro exI [of _ B] exI [of _ S] exI [of _ added] exI [of _ err] exI [of _ T] conjI)
  qed
  consider "\<not> IsVoteTypeValid ?t" | "IsVoteTypeValid ?t" "hvs_roundVoteSets H ?r = None"
      "\<not> length (hvs_peerCatchupRounds H peerID) < 2"
    | "IsVoteTypeValid ?t" "hvs_roundVoteSets H ?r = None" "length (hvs_peerCatchupRounds H peerID) < 2"
    | S where "IsVoteTypeValid ?t" "HeightVoteSet_getVoteSet H ?r ?t = Some S"
    using getVoteSet_None_iff [of ?t H ?r] by fastforce
  then show ?thesis
  proof cases
    case 2
    then show ?thesis using getVoteSet_None_iff [of ?t H ?r] by (simp add: HeightVoteSet_AddVote_def Let_def)
  next
    case 3
    then show ?thesis using AddVote_opens [OF inv 3] ok by blast
  next
    case 4
    then show ?thesis using ok [of H S] inv by (simp add: opened_def)
  qed (simp add: HeightVoteSet_AddVote_def)
qed

text \<open>The rounds that are tracked and the rounds that a peer has opened.\<close>

definition opens :: "Vote \<Rightarrow> string \<Rightarrow> HeightVoteSet \<Rightarrow> bool" where
  "opens v peerID H \<longleftrightarrow> IsVoteTypeValid (Type v) \<and> hvs_roundVoteSets H (to_int (Round v)) = None \<and>
     length (hvs_peerCatchupRounds H peerID) < 2"

lemma addRound_rounds:
  "HeightVoteSet_addRound r H = Some K \<Longrightarrow> dom (hvs_roundVoteSets K) = insert r (dom (hvs_roundVoteSets H)) \<and>
    hvs_peerCatchupRounds K = hvs_peerCatchupRounds H"
  by (auto simp: HeightVoteSet_addRound_def elim!: bind_eq_SomeE split: if_splits)

lemma set_vote_set_rounds: "dom (hvs_roundVoteSets (set_vote_set r t S H)) = dom (hvs_roundVoteSets H)"
  unfolding dom_def using set_vote_set_frame(4) by simp

lemma AddVote_rounds:
  assumes "HeightVoteSet_AddVote E v peerID H = Some (res, K)"
  shows "hvs_peerCatchupRounds K = (if opens v peerID H then (hvs_peerCatchupRounds H)
      (peerID := hvs_peerCatchupRounds H peerID @ [to_int (Round v)]) else hvs_peerCatchupRounds H) \<and>
    dom (hvs_roundVoteSets K) = (if opens v peerID H then insert (to_int (Round v)) (dom (hvs_roundVoteSets H)) else dom (hvs_roundVoteSets H))"
proof (cases "opens v peerID H")
  case True
  then have "HeightVoteSet_getVoteSet H (to_int (Round v)) (Type v) = None" using getVoteSet_None_iff by (simp add: opens_def)
  with True assms obtain h S where h: "HeightVoteSet_addRound (to_int (Round v)) H = Some h"
    "K = set_vote_set (to_int (Round v)) (Type v) S
      (h\<lparr>hvs_peerCatchupRounds := (hvs_peerCatchupRounds h)(peerID := hvs_peerCatchupRounds H peerID @ [to_int (Round v)])\<rparr>)"
    by (auto simp: HeightVoteSet_AddVote_def Let_def opens_def elim!: bind_eq_SomeE)
  then show ?thesis using True addRound_rounds [OF h(1)] by (simp add: set_vote_set_frame set_vote_set_rounds)
next
  case False
  then have "K = H \<or> (\<exists>S. K = set_vote_set (to_int (Round v)) (Type v) S H)"
    using assms getVoteSet_None_iff [of "Type v" H "to_int (Round v)"]
    by (auto simp: HeightVoteSet_AddVote_def Let_def opens_def elim!: bind_eq_SomeE split: if_splits)
  then show ?thesis using False by (elim disjE exE) (simp_all add: set_vote_set_frame(3) set_vote_set_rounds)
qed

lemma HeightVoteSet_AddVote_inv:
  assumes inv: "hvs_inv E H"
  shows "\<exists>r K. HeightVoteSet_AddVote E v peerID H = Some (r, K) \<and> hvs_inv E K \<and> hvs_frame H K \<and> hvs_round K = hvs_round H"
  using AddVote_cases [OF inv, of v peerID]
proof (elim disjE exE conjE)
  fix B S added err T
  assume "opened E H B" "hvs_inv E (set_vote_set (to_int (Round v)) (Type v) T B)"
    "HeightVoteSet_AddVote E v peerID H = Some ((added, lift_error err), set_vote_set (to_int (Round v)) (Type v) T B)"
  then show ?thesis
    using hvs_frame_trans [OF _ set_vote_set_frame(1), of H B] by (auto simp: opened_def set_vote_set_frame)
qed (use inv in auto)

lemma HeightVoteSet_SetPeerMaj23_inv:
  assumes inv: "hvs_inv E H"
  shows "\<exists>e K. HeightVoteSet_SetPeerMaj23 E r t peerID b H = Some (e, K) \<and> hvs_inv E K \<and> hvs_frame H K \<and> hvs_round K = hvs_round H"
proof (cases "IsVoteTypeValid t \<and> HeightVoteSet_getVoteSet H r t \<noteq> None")
  case True
  then obtain S where S: "HeightVoteSet_getVoteSet H r t = Some S" by blast
  have m: "member_ok E H r t S" by (rule getVoteSet_member(1) [OF inv S])
  then have "vset_inv E S" by (simp add: member_ok_def)
  then obtain err T where T: "VoteSet_SetPeerMaj23 E peerID b (Some S) = Some (err, T)" "vset_inv E T" "same_frame S T"
    by (rule SetPeerMaj23_inv [of E S peerID b])
  have "hvs_inv E (set_vote_set r t T H)"
    by (rule set_vote_set_inv [OF inv]) (use S member_ok_step [OF m T(2,3)] in simp_all)
  then show ?thesis using True S T(1) by (simp add: HeightVoteSet_SetPeerMaj23_def set_vote_set_frame)
qed (use inv in \<open>auto simp: HeightVoteSet_SetPeerMaj23_def\<close>)

text \<open>The loop of \<open>SetRound\<close> keeps the vote sets there are and adds the missing ones.\<close>

lemma add_rounds:
  assumes "powers_ok (hvs_valSet H)" "hvs_height H \<noteq> 0"
    and "\<forall>r rvs. hvs_roundVoteSets H r = Some rvs \<longrightarrow>
        member_ok E H r VoteTypePrevote (rvs_Prevotes rvs) \<and> member_ok E H r VoteTypePrecommit (rvs_Precommits rvs)"
  shows "\<exists>m. go_for (\<lambda>r h. if hvs_roundVoteSets h r \<noteq> None then Some h else HeightVoteSet_addRound r h) xs H =
        Some (H\<lparr>hvs_roundVoteSets := m\<rparr>) \<and> hvs_roundVoteSets H \<subseteq>\<^sub>m m \<and> dom m = dom (hvs_roundVoteSets H) \<union> set xs \<and>
      (\<forall>r rvs. m r = Some rvs \<longrightarrow>
        member_ok E H r VoteTypePrevote (rvs_Prevotes rvs) \<and> member_ok E H r VoteTypePrecommit (rvs_Precommits rvs))"
  using assms
proof (induction xs arbitrary: H)
  case Nil
  then show ?case by (intro exI [of _ "hvs_roundVoteSets H"]) auto
next
  case (Cons x xs)
  show ?case
  proof (cases "hvs_roundVoteSets H x = None")
    case True
    obtain rvs where rvs: "HeightVoteSet_addRound x H = Some (H\<lparr>hvs_roundVoteSets := (hvs_roundVoteSets H)(x \<mapsto> rvs)\<rparr>)"
      "member_ok E H x VoteTypePrevote (rvs_Prevotes rvs)" "member_ok E H x VoteTypePrecommit (rvs_Precommits rvs)"
      by (rule addRound_ok [OF Cons.prems(1,2) True])
    let ?K = "H\<lparr>hvs_roundVoteSets := (hvs_roundVoteSets H)(x \<mapsto> rvs)\<rparr>"
    have f: "member_ok E ?K = member_ok E H" by (intro ext member_ok_frame) (simp add: hvs_frame_def)
    have up: "hvs_roundVoteSets H \<subseteq>\<^sub>m (hvs_roundVoteSets H)(x \<mapsto> rvs)" using True by (auto simp: map_le_def)
    have "\<forall>r rvs'. hvs_roundVoteSets ?K r = Some rvs' \<longrightarrow>
        member_ok E H r VoteTypePrevote (rvs_Prevotes rvs') \<and> member_ok E H r VoteTypePrecommit (rvs_Precommits rvs')"
      using Cons.prems(3) rvs(2,3) by simp
    moreover have "powers_ok (hvs_valSet ?K)" "hvs_height ?K \<noteq> 0" using Cons.prems by simp_all
    ultimately obtain m where
      m: "go_for (\<lambda>r h. if hvs_roundVoteSets h r \<noteq> None then Some h else HeightVoteSet_addRound r h) xs ?K =
          Some (?K\<lparr>hvs_roundVoteSets := m\<rparr>)" "hvs_roundVoteSets ?K \<subseteq>\<^sub>m m" "dom m = dom (hvs_roundVoteSets ?K) \<union> set xs"
        "\<forall>r rvs. m r = Some rvs \<longrightarrow>
          member_ok E H r VoteTypePrevote (rvs_Prevotes rvs) \<and> member_ok E H r VoteTypePrecommit (rvs_Precommits rvs)"
      using Cons.IH [of ?K, unfolded f] by blast
    have "hvs_roundVoteSets H \<subseteq>\<^sub>m m" using map_le_trans [OF up] m(2) by simp
    moreover have "dom m = dom (hvs_roundVoteSets H) \<union> set (x # xs)" using m(3) by auto
    moreover have "go_for (\<lambda>r h. if hvs_roundVoteSets h r \<noteq> None then Some h else HeightVoteSet_addRound r h) (x # xs) H =
        Some (H\<lparr>hvs_roundVoteSets := m\<rparr>)" using m(1) rvs(1) True by simp
    ultimately show ?thesis using m(4) by blast
  next
    case False
    then have "dom (hvs_roundVoteSets H) \<union> set (x # xs) = dom (hvs_roundVoteSets H) \<union> set xs" by auto
    moreover have "go_for (\<lambda>r h. if hvs_roundVoteSets h r \<noteq> None then Some h else HeightVoteSet_addRound r h) (x # xs) H =
      go_for (\<lambda>r h. if hvs_roundVoteSets h r \<noteq> None then Some h else HeightVoteSet_addRound r h) xs H"
      using False by auto
    ultimately show ?thesis using Cons.IH [OF Cons.prems] by simp
  qed
qed

lemma HeightVoteSet_SetRound_cases:
  assumes inv: "hvs_inv E H" and rnd: "0 \<le> rnd" "rnd < 2 ^ 63 - 1"
  shows "hvs_round H \<noteq> 0 \<and> rnd \<le> hvs_round H \<Longrightarrow> HeightVoteSet_SetRound rnd H = None"
    and "hvs_round H = 0 \<or> hvs_round H < rnd \<Longrightarrow> \<exists>m. HeightVoteSet_SetRound rnd H =
        Some (H\<lparr>hvs_roundVoteSets := m, hvs_round := rnd\<rparr>) \<and> hvs_roundVoteSets H \<subseteq>\<^sub>m m \<and>
        hvs_inv E (H\<lparr>hvs_roundVoteSets := m, hvs_round := rnd\<rparr>)"
proof -
  have w: "wrap64 (hvs_round H + 1) = hvs_round H + 1"
    by (rule wrap64_id) (use inv in \<open>auto simp: hvs_inv_def int64_def\<close>)
  show "hvs_round H \<noteq> 0 \<and> rnd \<le> hvs_round H \<Longrightarrow> HeightVoteSet_SetRound rnd H = None"
    by (simp add: HeightVoteSet_SetRound_def w)
  assume c: "hvs_round H = 0 \<or> hvs_round H < rnd"
  have "powers_ok (hvs_valSet H)" "hvs_height H \<noteq> 0" "\<forall>r rvs. hvs_roundVoteSets H r = Some rvs \<longrightarrow>
        member_ok E H r VoteTypePrevote (rvs_Prevotes rvs) \<and> member_ok E H r VoteTypePrecommit (rvs_Precommits rvs)"
    using inv by (simp_all add: hvs_inv_def)
  from add_rounds [OF this, of "[hvs_round H + 1..rnd]"] obtain m where
    m: "go_for (\<lambda>r h. if hvs_roundVoteSets h r \<noteq> None then Some h else HeightVoteSet_addRound r h) [hvs_round H + 1..rnd] H =
        Some (H\<lparr>hvs_roundVoteSets := m\<rparr>)" "hvs_roundVoteSets H \<subseteq>\<^sub>m m"
      "dom m = dom (hvs_roundVoteSets H) \<union> {hvs_round H + 1..rnd}"
      "\<forall>r rvs. m r = Some rvs \<longrightarrow>
        member_ok E H r VoteTypePrevote (rvs_Prevotes rvs) \<and> member_ok E H r VoteTypePrecommit (rvs_Precommits rvs)"
    by auto
  let ?K = "H\<lparr>hvs_roundVoteSets := m, hvs_round := rnd\<rparr>"
  have le: "hvs_round H \<le> rnd" using c rnd(1) by auto
  have f: "hvs_frame H ?K" by (simp add: hvs_frame_def)
  have inv': "hvs_inv E ?K"
  proof (rule hvs_invI, unfold member_ok_frame [OF f])
    fix r
    assume "0 \<le> r" "r \<le> hvs_round ?K"
    then have "r \<in> dom m" unfolding m(3) using inv by (auto simp: hvs_inv_def)
    then show "hvs_roundVoteSets ?K r \<noteq> None" by auto
  next
    fix r
    assume "hvs_roundVoteSets ?K r \<noteq> None"
    then have "r \<in> dom (hvs_roundVoteSets H) \<union> {hvs_round H + 1..rnd}" using m(3) by auto
    then show "0 \<le> r \<and> r \<le> hvs_round ?K \<or> (\<exists>p. r \<in> set (hvs_peerCatchupRounds ?K p))"
      using hvs_inv_rounds [OF inv, of r] le inv by (auto simp: hvs_inv_def)
  qed (use inv m(4) rnd in \<open>auto simp: hvs_inv_def\<close>)
  show "\<exists>m. HeightVoteSet_SetRound rnd H = Some (H\<lparr>hvs_roundVoteSets := m, hvs_round := rnd\<rparr>) \<and>
      hvs_roundVoteSets H \<subseteq>\<^sub>m m \<and> hvs_inv E (H\<lparr>hvs_roundVoteSets := m, hvs_round := rnd\<rparr>)"
    using m(1,2) inv' c by (intro exI [of _ m]) (use rnd in \<open>auto simp: HeightVoteSet_SetRound_def w\<close>)
qed

lemma NewHeightVoteSet_inv:
  assumes "powers_ok valSet" "height \<noteq> 0"
  shows "\<exists>H. NewHeightVoteSet chainID height valSet = Some H \<and> hvs_inv E H \<and> hvs_round H = 0 \<and>
    hvs_chainID H = chainID \<and> hvs_height H = height \<and> hvs_valSet H = valSet \<and> hvs_peerCatchupRounds H = (\<lambda>_. [])"
proof -
  let ?H = "\<lparr>hvs_chainID = chainID, hvs_height = height, hvs_valSet = valSet, hvs_round = 0,
        hvs_roundVoteSets = (\<lambda>_. None), hvs_peerCatchupRounds = (\<lambda>_. [])\<rparr>"
  obtain rvs where rvs: "HeightVoteSet_addRound 0 ?H = Some (?H\<lparr>hvs_roundVoteSets := (hvs_roundVoteSets ?H)(0 \<mapsto> rvs)\<rparr>)"
    "member_ok E ?H 0 VoteTypePrevote (rvs_Prevotes rvs)" "member_ok E ?H 0 VoteTypePrecommit (rvs_Precommits rvs)"
    by (rule addRound_ok [of ?H 0 E]) (use assms in simp, use assms in simp, simp, assumption)
  let ?K = "?H\<lparr>hvs_roundVoteSets := (hvs_roundVoteSets ?H)(0 \<mapsto> rvs)\<rparr>"
  have f: "hvs_frame ?H ?K" by (simp add: hvs_frame_def)
  have "hvs_inv E ?K"
    by (rule hvs_invI, unfold member_ok_frame [OF f]) (use assms rvs(2,3) in \<open>auto split: if_splits\<close>)
  then show ?thesis using rvs(1) by (simp add: NewHeightVoteSet_def HeightVoteSet_Reset_def)
qed

section \<open>Runs\<close>

text \<open>One call of an operation that changes the table of vote sets; the caller's rounds are not negative.\<close>

inductive hvs_step :: "env \<Rightarrow> HeightVoteSet \<Rightarrow> HeightVoteSet \<Rightarrow> bool" for E where
  hvs_vote: "HeightVoteSet_AddVote E vote peerID H = Some (r, K) \<Longrightarrow> hvs_step E H K"
| hvs_claim: "HeightVoteSet_SetPeerMaj23 E rnd typeB peerID blockID H = Some (e, K) \<Longrightarrow> hvs_step E H K"
| hvs_round: "0 \<le> rnd \<Longrightarrow> rnd < 2 ^ 63 - 1 \<Longrightarrow> HeightVoteSet_SetRound rnd H = Some K \<Longrightarrow> hvs_step E H K"

inductive_cases hvs_stepE: "hvs_step E H K"

lemma hvs_step_inv:
  assumes "hvs_inv E H" "hvs_step E H K"
  shows "hvs_inv E K \<and> hvs_frame H K \<and> hvs_round H \<le> hvs_round K"
  using assms(2)
proof cases
  case (hvs_vote vote peerID r)
  then show ?thesis using HeightVoteSet_AddVote_inv [OF assms(1), of vote peerID] by auto
next
  case (hvs_claim rnd typeB peerID blockID e)
  then show ?thesis using HeightVoteSet_SetPeerMaj23_inv [OF assms(1), of rnd typeB peerID blockID] by auto
next
  case (hvs_round rnd)
  note c = HeightVoteSet_SetRound_cases [OF assms(1) hvs_round(1,2)]
  have r: "hvs_round H = 0 \<or> hvs_round H < rnd" using c(1) hvs_round(3) by fastforce
  from c(2) [OF r] hvs_round(1,3) r show ?thesis by (auto simp: hvs_frame_def)
qed

interpretation hvi: invariant_system "hvs_step E" "\<lambda>K. hvs_inv E K \<and> hvs_frame H K" for E H
  by unfold_locales (auto dest: hvs_step_inv hvs_frame_trans)

text \<open>No step forgets a majority of any round.\<close>

definition has_maj :: "HeightVoteSet \<Rightarrow> int \<Rightarrow> byte \<Rightarrow> BlockID \<Rightarrow> bool" where
  "has_maj H r t b \<longleftrightarrow> VoteSet_TwoThirdsMajority (HeightVoteSet_getVoteSet H r t) = (b, True)"

lemma has_maj_iff: "has_maj H r t b \<longleftrightarrow> (\<exists>S. HeightVoteSet_getVoteSet H r t = Some S \<and> vs_maj23 S = Some b)"
  by (auto simp: has_maj_def VoteSet_TwoThirdsMajority_def split: option.splits)

lemma getVoteSet_map_le:
  "hvs_roundVoteSets H \<subseteq>\<^sub>m hvs_roundVoteSets K \<Longrightarrow> HeightVoteSet_getVoteSet H r t = Some S \<Longrightarrow>
    HeightVoteSet_getVoteSet K r t = Some S"
  by (force simp: HeightVoteSet_getVoteSet_def map_le_def dom_def split: option.splits)

lemma has_maj_set:
  assumes "HeightVoteSet_getVoteSet B r t = Some S" "vs_maj23 S \<noteq> None \<longrightarrow> vs_maj23 T = vs_maj23 S" "has_maj B r' t' b"
  shows "has_maj (set_vote_set r t T B) r' t' b"
  using assms getVoteSet_set_vote_set [of B r t T r' t'] by (auto simp: has_maj_iff)

lemma hvs_step_maj:
  assumes inv: "hvs_inv E H" and "hvs_step E H K" and maj: "has_maj H r t b"
  shows "has_maj K r t b"
  using assms(2)
proof cases
  case (hvs_vote vote peerID x)
  from AddVote_cases [OF inv, of vote peerID] show ?thesis
  proof (elim disjE exE conjE)
    fix B S added err T
    assume a: "opened E H B" "HeightVoteSet_getVoteSet B (to_int (Round vote)) (Type vote) = Some S"
      "vs_maj23 S \<noteq> None \<longrightarrow> vs_maj23 T = vs_maj23 S"
      "HeightVoteSet_AddVote E vote peerID H =
        Some ((added, lift_error err), set_vote_set (to_int (Round vote)) (Type vote) T B)"
    have "has_maj B r t b" using maj a(1) getVoteSet_map_le unfolding has_maj_iff opened_def by blast
    then have "has_maj (set_vote_set (to_int (Round vote)) (Type vote) T B) r t b" by (rule has_maj_set [OF a(2,3)])
    then show ?thesis using a(4) hvs_vote by simp
  qed (use hvs_vote maj in simp_all)
next
  case (hvs_claim rnd typeB peerID blockID e)
  show ?thesis
  proof (cases "IsVoteTypeValid typeB \<and> HeightVoteSet_getVoteSet H rnd typeB \<noteq> None")
    case True
    then obtain S where S: "HeightVoteSet_getVoteSet H rnd typeB = Some S" by blast
    then have "vset_inv E S" using getVoteSet_member(1) [OF inv S] by (simp add: member_ok_def)
    then obtain err T where T: "VoteSet_SetPeerMaj23 E peerID blockID (Some S) = Some (err, T)" "vs_maj23 T = vs_maj23 S"
      by (rule SetPeerMaj23_inv [of E S peerID blockID])
    have "has_maj (set_vote_set rnd typeB T H) r t b" by (rule has_maj_set [OF S _ maj]) (use T(2) in simp)
    then show ?thesis using hvs_claim True S T(1) by (simp add: HeightVoteSet_SetPeerMaj23_def)
  qed (use hvs_claim maj in \<open>auto simp: HeightVoteSet_SetPeerMaj23_def split: if_splits\<close>)
next
  case (hvs_round rnd)
  note c = HeightVoteSet_SetRound_cases [OF inv hvs_round(1,2)]
  have "hvs_round H = 0 \<or> hvs_round H < rnd" using c(1) hvs_round(3) by fastforce
  from c(2) [OF this] hvs_round(3) have "hvs_roundVoteSets H \<subseteq>\<^sub>m hvs_roundVoteSets K" by auto
  then show ?thesis using maj getVoteSet_map_le unfolding has_maj_iff by blast
qed

interpretation hvm: invariant_system "hvs_step E" "\<lambda>K. hvs_inv E K \<and> has_maj K r t b" for E r t b
  by unfold_locales (auto dest: hvs_step_inv hvs_step_maj)

text \<open>The search for the last round with a majority of prevotes.\<close>

lemma pol_from_cases:
  "pol_from H n = (- 1, zero_BlockID) \<and> (\<forall>k<n. \<nexists>b. has_maj H (int k) VoteTypePrevote b) \<or>
   (\<exists>r b. pol_from H n = (int r, b) \<and> r < n \<and> has_maj H (int r) VoteTypePrevote b \<and>
      (\<forall>k. r < k \<longrightarrow> k < n \<longrightarrow> (\<nexists>b. has_maj H (int k) VoteTypePrevote b)))"
proof (induction n)
  case (Suc n)
  show ?case
  proof (cases "VoteSet_TwoThirdsMajority (HeightVoteSet_getVoteSet H (int n) VoteTypePrevote)")
    case (Pair b ok)
    with Suc show ?thesis by (cases ok) (auto simp: has_maj_def less_Suc_eq)
  qed
qed simp

lemma reachable_hvs_inv:
  assumes "powers_ok valSet" "NewHeightVoteSet chainID height valSet = Some H0" "(hvs_step E)\<^sup>*\<^sup>* H0 H"
  shows "hvs_inv E H"
proof -
  have "height \<noteq> 0"
    using assms(2) by (auto simp: NewHeightVoteSet_def HeightVoteSet_Reset_def HeightVoteSet_addRound_def NewVoteSet_def)
  then have "hvs_inv E H0" using NewHeightVoteSet_inv [OF assms(1), of height chainID E] assms(2) by auto
  then show ?thesis using hvi.invar_reach [OF assms(3), of H0] by simp
qed

text \<open>The answer to a vote, and what it leaves alone.\<close>

lemma AddVote_outcome:
  assumes "hvs_inv E H" "HeightVoteSet_AddVote E v peerID H = Some ((added, err), K)"
  shows "(err = Err ErrorGotVoteFromUnwantedRound \<longleftrightarrow>
        IsVoteTypeValid (Type v) \<and> hvs_roundVoteSets H (to_int (Round v)) = None \<and> length (hvs_peerCatchupRounds H peerID) = 2) \<and>
    (err = Err ErrorGotVoteFromUnwantedRound \<longrightarrow> \<not> added \<and> K = H) \<and>
    (added \<longrightarrow> (\<exists>T i. HeightVoteSet_getVoteSet K (to_int (Round v)) (Type v) = Some T \<and> recorded E T i v)) \<and>
    (\<forall>r t S. (r, t) \<noteq> (to_int (Round v), Type v) \<longrightarrow> HeightVoteSet_getVoteSet H r t = Some S \<longrightarrow>
        HeightVoteSet_getVoteSet K r t = Some S)"
proof -
  have le: "length (hvs_peerCatchupRounds H peerID) \<le> 2" using assms(1) by (simp add: hvs_inv_def)
  show ?thesis
  proof (cases "IsVoteTypeValid (Type v) \<and> hvs_roundVoteSets H (to_int (Round v)) = None \<and> length (hvs_peerCatchupRounds H peerID) = 2")
    case True
    then have "HeightVoteSet_AddVote E v peerID H = Some ((False, Err ErrorGotVoteFromUnwantedRound), H)"
      using getVoteSet_None_iff [of "Type v" H "to_int (Round v)"] by (simp add: HeightVoteSet_AddVote_def Let_def)
    then show ?thesis using True assms(2) by simp
  next
    case False
    from AddVote_cases [OF assms(1), of v peerID] show ?thesis
    proof (elim disjE exE conjE)
      fix B S a e T
      assume B: "opened E H B" "HeightVoteSet_getVoteSet B (to_int (Round v)) (Type v) = Some S"
        "a \<longrightarrow> (\<exists>i. recorded E T i v)"
        "HeightVoteSet_AddVote E v peerID H = Some ((a, lift_error e), set_vote_set (to_int (Round v)) (Type v) T B)"
      then have eq: "added = a" "err = lift_error e" "K = set_vote_set (to_int (Round v)) (Type v) T B" using assms(2) by auto
      have "lift_error e \<noteq> Err ErrorGotVoteFromUnwantedRound" by (cases e) (auto simp: lift_error_def)
      moreover have "HeightVoteSet_getVoteSet H r t = Some S' \<Longrightarrow> HeightVoteSet_getVoteSet B r t = Some S'" for r t S'
        using getVoteSet_map_le B(1) unfolding opened_def by blast
      ultimately show ?thesis
        using False B(3) getVoteSet_set_vote_set [of B "to_int (Round v)" "Type v" T] B(2) unfolding eq by auto
    qed (use False assms(2) le in auto)
  qed
qed

section \<open>Properties\<close>

definition demo_hvs :: HeightVoteSet where
  "demo_hvs = the (NewHeightVoteSet [] 1 demo_vs)"

lemma demo_hvs_new: "NewHeightVoteSet [] 1 demo_vs = Some demo_hvs"
  using NewHeightVoteSet_inv [OF powers_ok_demo, of 1 "[]" demo_env] by (auto simp: demo_hvs_def)

lemma demo_hvs_inv: "hvs_inv E demo_hvs"
  using NewHeightVoteSet_inv [OF powers_ok_demo, of 1 "[]" E] demo_hvs_new by auto

text \<open>
  C27: the vote sets of a height stay correct for every sequence of \<open>AddVote\<close>, \<open>SetPeerMaj23\<close> and
  \<open>SetRound\<close>: each tracked vote set satisfies its own invariant and has the height, round and type
  of its place, every round up to the current one is tracked, any other tracked round was opened
  by a peer, and a peer opens at most two. Votes and claims never panic. From round zero \<open>SetRound\<close>
  returns for every round from zero to the largest \<open>int\<close> but one, and from any other round it returns
  for those that are larger and panics for the rest.
\<close>

theorem height_vote_set_invariant:
  assumes "powers_ok valSet" "NewHeightVoteSet chainID height valSet = Some H0" "(hvs_step E)\<^sup>*\<^sup>* H0 H"
  shows "hvs_inv E H \<and> hvs_frame H0 H \<and> HeightVoteSet_AddVote E v peerID H \<noteq> None \<and>
    HeightVoteSet_SetPeerMaj23 E r t peerID b H \<noteq> None \<and>
    (0 \<le> rnd \<longrightarrow> rnd < 2 ^ 63 - 1 \<longrightarrow> HeightVoteSet_SetRound rnd H = None \<longleftrightarrow> hvs_round H \<noteq> 0 \<and> rnd \<le> hvs_round H)"
proof -
  have "height \<noteq> 0"
    using assms(2) by (auto simp: NewHeightVoteSet_def HeightVoteSet_Reset_def HeightVoteSet_addRound_def NewVoteSet_def)
  then have "hvs_inv E H0" using NewHeightVoteSet_inv [OF assms(1), of height chainID E] assms(2) by auto
  then have inv: "hvs_inv E H" "hvs_frame H0 H" using hvi.invar_reach [OF assms(3), of H0] by auto
  have "HeightVoteSet_SetRound rnd H = None \<longleftrightarrow> hvs_round H \<noteq> 0 \<and> rnd \<le> hvs_round H" if "0 \<le> rnd" "rnd < 2 ^ 63 - 1"
    using HeightVoteSet_SetRound_cases [OF inv(1) that] by fastforce
  then show ?thesis
    using inv HeightVoteSet_AddVote_inv [OF inv(1), of v peerID] HeightVoteSet_SetPeerMaj23_inv [OF inv(1), of r t peerID b]
    by auto
qed

theorem height_vote_set_invariant_witness:
  "\<exists>x K. HeightVoteSet_AddVote demo_env (demo_vote VoteTypePrevote) ''p'' demo_hvs = Some (x, K) \<and> hvs_inv demo_env K \<and>
     HeightVoteSet_SetRound 0 K \<noteq> None"
proof -
  obtain x K where K: "HeightVoteSet_AddVote demo_env (demo_vote VoteTypePrevote) ''p'' demo_hvs = Some (x, K)" "hvs_round K = 0"
    using HeightVoteSet_AddVote_inv [OF demo_hvs_inv, of demo_env "demo_vote VoteTypePrevote" "''p''"]
      NewHeightVoteSet_inv [OF powers_ok_demo, of 1 "[]" demo_env] demo_hvs_new by auto
  have "(hvs_step demo_env)\<^sup>*\<^sup>* demo_hvs K" using hvs_vote [OF K(1)] by simp
  from height_vote_set_invariant [OF powers_ok_demo demo_hvs_new this, where rnd = 0] K show ?thesis by auto
qed

text \<open>
  C28: \<open>POLInfo\<close> returns the last round up to the current one whose prevotes have a majority. The
  block it returns has verified prevotes of more than two thirds of the power there, no later
  round has a majority for any block, and the round keeps that majority whatever happens next. It
  returns -1 exactly when there is no such round.
\<close>

theorem POLInfo_latest:
  assumes "codec_ok E" "hvs_inv E H" "HeightVoteSet_POLInfo H = (r, b)"
  shows "(r = - 1 \<or> 0 \<le> r \<and> r \<le> hvs_round H \<and> (\<exists>S. HeightVoteSet_Prevotes H r = Some S \<and>
        2 * wv.total (hvs_valSet H) < 3 * wsum (vs_num S) (agreed E S b) (vpow (hvs_valSet H))) \<and>
        (\<forall>K. (hvs_step E)\<^sup>*\<^sup>* H K \<longrightarrow> has_maj K r VoteTypePrevote b)) \<and>
    (\<forall>k. max 0 (r + 1) \<le> k \<longrightarrow> k \<le> hvs_round H \<longrightarrow> (\<nexists>b. has_maj H k VoteTypePrevote b))"
proof -
  let ?n = "nat (hvs_round H + 1)"
  have later: "\<nexists>b. has_maj H k VoteTypePrevote b"
    if "\<forall>j. int m \<le> int j \<longrightarrow> j < ?n \<longrightarrow> (\<nexists>b. has_maj H (int j) VoteTypePrevote b)" "int m \<le> k" "k \<le> hvs_round H" for k m
    using that(1) [rule_format, of "nat k"] that(2,3) by auto
  from pol_from_cases [of H ?n] show ?thesis
  proof (elim disjE exE conjE)
    assume "pol_from H ?n = (- 1, zero_BlockID)" "\<forall>k<?n. \<nexists>b. has_maj H (int k) VoteTypePrevote b"
    then show ?thesis using later [of 0] assms(3) by (auto simp: HeightVoteSet_POLInfo_def)
  next
    fix n b'
    assume n: "pol_from H ?n = (int n, b')" "n < ?n" "has_maj H (int n) VoteTypePrevote b'"
      "\<forall>k. n < k \<longrightarrow> k < ?n \<longrightarrow> (\<nexists>b. has_maj H (int k) VoteTypePrevote b)"
    then have rb: "r = int n" "b' = b" using assms(3) by (auto simp: HeightVoteSet_POLInfo_def)
    obtain S where S: "HeightVoteSet_getVoteSet H r VoteTypePrevote = Some S" "vs_maj23 S = Some b"
      using n(3) rb by (auto simp: has_maj_iff)
    have m: "vset_inv E S" "vs_valSet S = hvs_valSet H" using getVoteSet_member(1) [OF assms(2) S(1)] by (simp_all add: member_ok_def)
    have "2 * wv.total (hvs_valSet H) < 3 * wsum (vs_num S) (agreed E S b) (vpow (hvs_valSet H))"
      using majority_agreed [OF m(1) assms(1) S(2)] m(2) by simp
    moreover have "has_maj K r VoteTypePrevote b" if "(hvs_step E)\<^sup>*\<^sup>* H K" for K
      using hvm.invar_reach [OF that, of r VoteTypePrevote b] assms(2) n(3) rb by simp
    moreover have "\<nexists>b. has_maj H k VoteTypePrevote b" if "max 0 (r + 1) \<le> k" "k \<le> hvs_round H" for k
      using later [of "Suc n" k] n(4) that rb by auto
    ultimately show ?thesis using S(1) n(2) rb by (auto simp: HeightVoteSet_Prevotes_def)
  qed
qed

definition polka_hvs :: HeightVoteSet where
  "polka_hvs = snd (the (HeightVoteSet_AddVote demo_env (demo_vote VoteTypePrevote) [] demo_hvs))"

theorem POLInfo_latest_witness:
  "\<exists>b S. HeightVoteSet_POLInfo polka_hvs = (0, b) \<and> HeightVoteSet_Prevotes polka_hvs 0 = Some S \<and>
     2 * wv.total (hvs_valSet polka_hvs) < 3 * wsum (vs_num S) (agreed demo_env S b) (vpow (hvs_valSet polka_hvs))"
proof -
  have "fst (HeightVoteSet_POLInfo polka_hvs) = 0" by code_simp
  then obtain b where b: "HeightVoteSet_POLInfo polka_hvs = (0, b)" by (cases "HeightVoteSet_POLInfo polka_hvs") simp
  have "hvs_inv demo_env polka_hvs"
    using HeightVoteSet_AddVote_inv [OF demo_hvs_inv, of demo_env "demo_vote VoteTypePrevote" "[]"] by (auto simp: polka_hvs_def)
  from POLInfo_latest [OF codec_ok_demo this b] b show ?thesis by auto
qed

text \<open>
  C36: the rounds that peers can open are limited. Over every sequence of operations on the votes of a
  height, each tracked round is one up to the current round or one on the list of some peer, and no
  list has more than two rounds. A vote opens its round exactly when the round is not tracked and the
  list of its peer is shorter than two; the round is then tracked and put at the end of that list, and
  no other round or list changes. When the list is full, and only then, the error is
  \<open>ErrorGotVoteFromUnwantedRound\<close> and nothing changes. A vote that is added is recorded in the vote set
  of its round and type, and every other vote set stays as it was.
\<close>

theorem AddVote_catchup_limit:
  assumes "powers_ok valSet" "NewHeightVoteSet chainID height valSet = Some H0" "(hvs_step E)\<^sup>*\<^sup>* H0 H"
    and add: "HeightVoteSet_AddVote E v peerID H = Some ((added, err), K)"
  shows "dom (hvs_roundVoteSets H) \<subseteq> {0..hvs_round H} \<union> (\<Union>p. set (hvs_peerCatchupRounds H p)) \<and>
    (\<forall>p. length (hvs_peerCatchupRounds H p) \<le> 2) \<and>
    hvs_peerCatchupRounds K = (if opens v peerID H then (hvs_peerCatchupRounds H)
      (peerID := hvs_peerCatchupRounds H peerID @ [to_int (Round v)]) else hvs_peerCatchupRounds H) \<and>
    dom (hvs_roundVoteSets K) = (if opens v peerID H then insert (to_int (Round v)) (dom (hvs_roundVoteSets H)) else dom (hvs_roundVoteSets H)) \<and>
    (err = Err ErrorGotVoteFromUnwantedRound \<longleftrightarrow>
        IsVoteTypeValid (Type v) \<and> hvs_roundVoteSets H (to_int (Round v)) = None \<and> length (hvs_peerCatchupRounds H peerID) = 2) \<and>
    (err = Err ErrorGotVoteFromUnwantedRound \<longrightarrow> \<not> added \<and> K = H) \<and>
    (added \<longrightarrow> (\<exists>T i. HeightVoteSet_getVoteSet K (to_int (Round v)) (Type v) = Some T \<and> recorded E T i v)) \<and>
    (\<forall>r t S. (r, t) \<noteq> (to_int (Round v), Type v) \<longrightarrow> HeightVoteSet_getVoteSet H r t = Some S \<longrightarrow>
        HeightVoteSet_getVoteSet K r t = Some S)"
proof -
  have inv: "hvs_inv E H" by (rule reachable_hvs_inv [OF assms(1-3)])
  then have "dom (hvs_roundVoteSets H) \<subseteq> {0..hvs_round H} \<union> (\<Union>p. set (hvs_peerCatchupRounds H p))"
    "\<forall>p. length (hvs_peerCatchupRounds H p) \<le> 2"
    using hvs_inv_rounds [OF inv] by (force, simp add: hvs_inv_def)
  then show ?thesis using AddVote_rounds [OF add] AddVote_outcome [OF inv add] by simp
qed

definition far_vote :: "u64 \<Rightarrow> Vote" where
  "far_vote r = (demo_vote VoteTypePrevote)\<lparr>Round := r\<rparr>"

theorem AddVote_catchup_limit_witness:
  "\<exists>x y H1 H2. HeightVoteSet_AddVote demo_env (far_vote 5) ''p'' demo_hvs = Some (x, H1) \<and>
     HeightVoteSet_AddVote demo_env (far_vote 6) ''p'' H1 = Some (y, H2) \<and> hvs_peerCatchupRounds H2 ''p'' = [5, 6] \<and>
     HeightVoteSet_AddVote demo_env (far_vote 7) ''p'' H2 = Some ((False, Err ErrorGotVoteFromUnwantedRound), H2)"
proof -
  note lim = AddVote_catchup_limit [OF powers_ok_demo demo_hvs_new]
  have t: "IsVoteTypeValid (Type (far_vote r))" "to_int (Round (far_vote 5)) = 5" "to_int (Round (far_vote 6)) = 6"
    "to_int (Round (far_vote 7)) = 7" for r by (simp_all add: far_vote_def demo_vote_def IsVoteTypeValid_def to_int_def wrap64_id int64_def)
  have d: "hvs_peerCatchupRounds demo_hvs = (\<lambda>_. [])" "hvs_round demo_hvs = 0"
    using NewHeightVoteSet_inv [OF powers_ok_demo, of 1 "[]" demo_env] demo_hvs_new by auto
  obtain a e H1 where H1: "HeightVoteSet_AddVote demo_env (far_vote 5) ''p'' demo_hvs = Some ((a, e), H1)"
    using HeightVoteSet_AddVote_inv [OF demo_hvs_inv, of demo_env "far_vote 5" "''p''"] by auto
  have D: "dom (hvs_roundVoteSets demo_hvs) \<subseteq> {0}" using lim [OF rtranclp.rtrancl_refl H1] by (simp add: d)
  then have "opens (far_vote 5) ''p'' demo_hvs" by (auto simp: opens_def t d)
  then have 1: "hvs_peerCatchupRounds H1 ''p'' = [5]" "dom (hvs_roundVoteSets H1) \<subseteq> {0, 5}"
    using lim [OF rtranclp.rtrancl_refl H1] D by (auto simp: t d)
  have r1: "(hvs_step demo_env)\<^sup>*\<^sup>* demo_hvs H1" using hvs_vote [OF H1] by simp
  obtain b f H2 where H2: "HeightVoteSet_AddVote demo_env (far_vote 6) ''p'' H1 = Some ((b, f), H2)"
    using HeightVoteSet_AddVote_inv [OF reachable_hvs_inv [OF powers_ok_demo demo_hvs_new r1], of "far_vote 6" "''p''"] by auto
  have "opens (far_vote 6) ''p'' H1" using 1 by (auto simp: opens_def t)
  then have 2: "hvs_peerCatchupRounds H2 ''p'' = [5, 6]" "dom (hvs_roundVoteSets H2) \<subseteq> {0, 5, 6}"
    using lim [OF r1 H2] 1 by (auto simp: t)
  have r2: "(hvs_step demo_env)\<^sup>*\<^sup>* demo_hvs H2" using rtranclp.rtrancl_into_rtrancl [OF r1 hvs_vote [OF H2]] .
  obtain c g K where K: "HeightVoteSet_AddVote demo_env (far_vote 7) ''p'' H2 = Some ((c, g), K)"
    using HeightVoteSet_AddVote_inv [OF reachable_hvs_inv [OF powers_ok_demo demo_hvs_new r2], of "far_vote 7" "''p''"] by auto
  have "hvs_roundVoteSets H2 7 = None" using 2(2) by auto
  then have "g = Err ErrorGotVoteFromUnwantedRound \<and> \<not> c \<and> K = H2" using lim [OF r2 K] 2(1) by (simp add: t)
  then show ?thesis using H1 H2 K 2(1) by auto
qed

end
