(* ===== verification/Merkle.thy ===== *)
theory Merkle
  imports Go_Prelude
begin

text \<open>
  Merkle proofs, \<^verbatim>\<open>consensus/tbft/help/simple_proof.go\<close>. The nodes of the proof tree are linked by
  pointers that the source sets after the nodes are made, so they are kept in a store: a list in
  which a pointer is a position. The hash \<open>RlpHash\<close>, Keccak-256 of the RLP encoding, is a parameter
  on the values that RLP distinguishes.

  The construction is compared with a recursive definition of the root and of the aunts of a leaf.
  Every proof it makes verifies. A proof that verifies against the root of some items shows that its
  leaf is one of them unless two different values with the same hash have been found; no
  assumption on the hash is needed for that.
\<close>

section \<open>Proofs\<close>

datatype rlp = RStr bytes | RList "rlp list"

record SimpleProof =
  sp_Total :: int
  sp_Index :: int
  sp_LeafHash :: "bytes option"
  sp_Aunts :: "bytes list"

datatype proof_error = ErrProofTotal | ErrProofIndex | ErrProofLeaf | ErrProofRoot

text \<open>The bytes of a slice that may be nil, as \<open>bytes.Equal\<close> compares it.\<close>

definition slice_bytes :: "bytes option \<Rightarrow> bytes" where
  "slice_bytes b = (case b of None \<Rightarrow> [] | Some x \<Rightarrow> x)"

definition simpleHashFromTwoHashes :: "(rlp \<Rightarrow> bytes) \<Rightarrow> bytes \<Rightarrow> bytes \<Rightarrow> bytes" where
  "simpleHashFromTwoHashes RlpHash left right = RlpHash (RList [RStr left, RStr right])"

function computeHashFromAunts ::
  "(rlp \<Rightarrow> bytes) \<Rightarrow> int \<Rightarrow> int \<Rightarrow> bytes option \<Rightarrow> bytes list \<Rightarrow> bytes option" where
  "computeHashFromAunts RlpHash index tot leafHash innerHashes =
     (if index \<ge> tot \<or> index < 0 \<or> tot \<le> 0 then None
      else if tot = 1 then (if length innerHashes \<noteq> 0 then None else leafHash)
      else if length innerHashes = 0 then None
      else
        let numLeft = wrap64 (tot + 1) div 2
        in if index < numLeft then
             (case computeHashFromAunts RlpHash index numLeft leafHash (butlast innerHashes) of
                None \<Rightarrow> None
              | Some leftHash \<Rightarrow> Some (simpleHashFromTwoHashes RlpHash leftHash (last innerHashes)))
           else
             (case computeHashFromAunts RlpHash (wrap64 (index - numLeft)) (wrap64 (tot - numLeft)) leafHash (butlast innerHashes) of
                None \<Rightarrow> None
              | Some rightHash \<Rightarrow> Some (simpleHashFromTwoHashes RlpHash (last innerHashes) rightHash)))"
  by pat_completeness auto

termination
  by (relation "measure (\<lambda>(_, _, _, _, xs). length xs)") auto

declare computeHashFromAunts.simps [simp del]

definition SimpleProof_ComputeRootHash :: "(rlp \<Rightarrow> bytes) \<Rightarrow> SimpleProof \<Rightarrow> bytes option" where
  "SimpleProof_ComputeRootHash RlpHash sp =
     computeHashFromAunts RlpHash (sp_Index sp) (sp_Total sp) (sp_LeafHash sp) (sp_Aunts sp)"

definition SimpleProof_Verify :: "(rlp \<Rightarrow> bytes) \<Rightarrow> SimpleProof \<Rightarrow> bytes option \<Rightarrow> bytes option \<Rightarrow> proof_error go_error" where
  "SimpleProof_Verify RlpHash sp rootHash leafHash =
     (if sp_Total sp < 0 then Err ErrProofTotal
      else if sp_Index sp < 0 then Err ErrProofIndex
      else if slice_bytes (sp_LeafHash sp) \<noteq> slice_bytes leafHash then Err ErrProofLeaf
      else if slice_bytes (SimpleProof_ComputeRootHash RlpHash sp) \<noteq> slice_bytes rootHash then Err ErrProofRoot
      else NoError)"

section \<open>The tree\<close>

record SimpleProofNode =
  spn_Hash :: bytes
  spn_Parent :: "nat option"
  spn_Left :: "nat option"
  spn_Right :: "nat option"

type_synonym nodes = "SimpleProofNode list"

text \<open>The loop of \<open>FlattenAunts\<close> follows parents; on a cycle it would not end.\<close>

partial_function (option) flatten :: "nodes \<Rightarrow> nat option \<Rightarrow> bytes list \<Rightarrow> bytes list option" where
  "flatten st spn innerHashes =
     (case spn of
        None \<Rightarrow> Some innerHashes
      | Some i \<Rightarrow>
          (case spn_Left (st ! i) of
             Some l \<Rightarrow> flatten st (spn_Parent (st ! i)) (innerHashes @ [spn_Hash (st ! l)])
           | None \<Rightarrow>
               (case spn_Right (st ! i) of
                  Some r \<Rightarrow> flatten st (spn_Parent (st ! i)) (innerHashes @ [spn_Hash (st ! r)])
                | None \<Rightarrow> Some innerHashes)))"

declare flatten.simps [code]

definition SimpleProofNode_FlattenAunts :: "nodes \<Rightarrow> nat \<Rightarrow> bytes list option" where
  "SimpleProofNode_FlattenAunts st spn = flatten st (Some spn) []"

definition halfway :: "'a list \<Rightarrow> nat" where
  "halfway items = (length items + 1) div 2"

lemma halfway_less: "1 < length xs \<Longrightarrow> halfway xs < length xs" "1 < length xs \<Longrightarrow> 0 < halfway xs"
  by (auto simp: halfway_def)

text \<open>The link statements after the two recursive calls.\<close>

definition join :: "(rlp \<Rightarrow> bytes) \<Rightarrow> nat \<Rightarrow> nat \<Rightarrow> nodes \<Rightarrow> nat \<times> nodes" where
  "join RlpHash leftRoot rightRoot st =
     (let rootHash = simpleHashFromTwoHashes RlpHash (spn_Hash (st ! leftRoot)) (spn_Hash (st ! rightRoot));
          root = length st;
          st = st @ [\<lparr>spn_Hash = rootHash, spn_Parent = None, spn_Left = None, spn_Right = None\<rparr>];
          st = st[leftRoot := (st ! leftRoot)\<lparr>spn_Parent := Some root, spn_Right := Some rightRoot\<rparr>];
          st = st[rightRoot := (st ! rightRoot)\<lparr>spn_Parent := Some root, spn_Left := Some leftRoot\<rparr>]
      in (root, st))"

text \<open>The result has no root exactly for no items; a nil root would be dereferenced in the last case.\<close>

function trailsFromByteSlices :: "(rlp \<Rightarrow> bytes) \<Rightarrow> bytes list \<Rightarrow> nodes \<Rightarrow> ((nat list \<times> nat option) \<times> nodes) option" where
  "trailsFromByteSlices RlpHash items st =
     (if length items = 0 then Some (([], None), st)
      else if length items = 1 then
        (let hash = RlpHash (RStr (items ! 0));
             trail = length st
         in Some (([trail], Some trail), st @ [\<lparr>spn_Hash = hash, spn_Parent = None, spn_Left = None, spn_Right = None\<rparr>]))
      else do {
        ((lefts, leftRoot), st) \<leftarrow> trailsFromByteSlices RlpHash (take (halfway items) items) st;
        ((rights, rightRoot), st) \<leftarrow> trailsFromByteSlices RlpHash (drop (halfway items) items) st;
        l \<leftarrow> leftRoot;
        r \<leftarrow> rightRoot;
        let (root, st) = join RlpHash l r st;
        Some ((lefts @ rights, Some root), st)
      })"
  by pat_completeness auto

termination
  by (relation "measure (\<lambda>(_, items, _). length items)") (auto simp: halfway_def le_eq_less_or_eq neq_Nil_conv)

declare trailsFromByteSlices.simps [simp del]

text \<open>The proofs are made in a fresh store; \<open>rootSPN.Hash\<close> panics for no items.\<close>

definition SimpleProofsFromByteSlices :: "(rlp \<Rightarrow> bytes) \<Rightarrow> bytes list \<Rightarrow> (bytes \<times> SimpleProof list) option" where
  "SimpleProofsFromByteSlices RlpHash items = do {
     ((trails, rootSPN), st) \<leftarrow> trailsFromByteSlices RlpHash items [];
     root \<leftarrow> rootSPN;
     aunts \<leftarrow> those (map (SimpleProofNode_FlattenAunts st) trails);
     Some (spn_Hash (st ! root),
       map (\<lambda>i. \<lparr>sp_Total = int (length items), sp_Index = int i,
                 sp_LeafHash = Some (spn_Hash (st ! (trails ! i))), sp_Aunts = aunts ! i\<rparr>) [0..<length trails])
   }"

section \<open>The reference definitions\<close>

function merkle_root :: "(rlp \<Rightarrow> bytes) \<Rightarrow> bytes list \<Rightarrow> bytes" where
  "merkle_root H items =
     (if length items \<le> 1 then H (RStr (hd items))
      else simpleHashFromTwoHashes H (merkle_root H (take (halfway items) items)) (merkle_root H (drop (halfway items) items)))"
  by pat_completeness auto

termination
  by (relation "measure (\<lambda>(_, items). length items)") (auto simp: halfway_def)

function merkle_aunts :: "(rlp \<Rightarrow> bytes) \<Rightarrow> bytes list \<Rightarrow> nat \<Rightarrow> bytes list" where
  "merkle_aunts H items k =
     (if length items \<le> 1 then []
      else if k < halfway items
      then merkle_aunts H (take (halfway items) items) k @ [merkle_root H (drop (halfway items) items)]
      else merkle_aunts H (drop (halfway items) items) (k - halfway items) @ [merkle_root H (take (halfway items) items)])"
  by pat_completeness auto

termination
  by (relation "measure (\<lambda>(_, items, _). length items)") (auto simp: halfway_def)

declare merkle_root.simps [simp del] merkle_aunts.simps [simp del]

lemma split_induct [case_names small split]:
  assumes "\<And>xs. length xs \<le> 1 \<Longrightarrow> P xs"
    and "\<And>xs. 1 < length xs \<Longrightarrow> P (take (halfway xs) xs) \<Longrightarrow> P (drop (halfway xs) xs) \<Longrightarrow> P xs"
  shows "P (xs :: 'a list)"
proof (induction "length xs" arbitrary: xs rule: less_induct)
  case less
  show ?case
  proof (cases "length xs \<le> 1")
    case False
    then have "1 < length xs" by simp
    then show ?thesis by (rule assms(2)) (use halfway_less [of xs] \<open>1 < length xs\<close> in \<open>auto intro: less\<close>)
  qed (rule assms(1))
qed

section \<open>Paths in the store\<close>

text \<open>The path from a node up to another, with the hashes of the siblings met on the way.\<close>

inductive up :: "nodes \<Rightarrow> nat \<Rightarrow> nat \<Rightarrow> bytes list \<Rightarrow> bool" for st where
  up_here: "i < length st \<Longrightarrow> up st i i []"
| up_left: "i < length st \<Longrightarrow> spn_Left (st ! i) = Some l \<Longrightarrow> l < length st \<Longrightarrow> spn_Parent (st ! i) = Some p \<Longrightarrow>
    up st p rt as \<Longrightarrow> up st i rt (spn_Hash (st ! l) # as)"
| up_right: "i < length st \<Longrightarrow> spn_Left (st ! i) = None \<Longrightarrow> spn_Right (st ! i) = Some r \<Longrightarrow> r < length st \<Longrightarrow>
    spn_Parent (st ! i) = Some p \<Longrightarrow> up st p rt as \<Longrightarrow> up st i rt (spn_Hash (st ! r) # as)"

lemma up_trans: "up st i j as \<Longrightarrow> up st j k bs \<Longrightarrow> up st i k (as @ bs)"
  by (induction rule: up.induct) (auto intro: up.intros)

text \<open>Stores only grow, and a node is not changed once it has a parent.\<close>

definition grows :: "nodes \<Rightarrow> nodes \<Rightarrow> bool" where
  "grows st st' \<longleftrightarrow> length st \<le> length st' \<and>
     (\<forall>i < length st. spn_Hash (st' ! i) = spn_Hash (st ! i) \<and> (spn_Parent (st ! i) \<noteq> None \<longrightarrow> st' ! i = st ! i))"

lemma up_grows: "up st i j as \<Longrightarrow> grows st st' \<Longrightarrow> up st' i j as"
proof (induction rule: up.induct)
  case (up_left i l p rt as)
  then have "up st' i rt (spn_Hash (st' ! l) # as)" by (intro up.up_left [of _ _ _ p]) (auto simp: grows_def)
  then show ?case using up_left by (simp add: grows_def)
next
  case (up_right i r p rt as)
  then have "up st' i rt (spn_Hash (st' ! r) # as)" by (intro up.up_right [of _ _ _ p]) (auto simp: grows_def)
  then show ?case using up_right by (simp add: grows_def)
qed (auto simp: grows_def intro: up.intros)

text \<open>A root has no siblings and no parent, so the loop stops there.\<close>

definition is_root :: "nodes \<Rightarrow> nat \<Rightarrow> bool" where
  "is_root st i \<longleftrightarrow> i < length st \<and> spn_Parent (st ! i) = None \<and> spn_Left (st ! i) = None \<and> spn_Right (st ! i) = None"

lemma flatten_up: "up st i rt as \<Longrightarrow> is_root st rt \<Longrightarrow> flatten st (Some i) acc = Some (acc @ as)"
proof (induction arbitrary: acc rule: up.induct)
  case (up_here i)
  then show ?case by (subst flatten.simps) (simp add: is_root_def)
next
  case (up_left i l p rt as)
  then show ?case by (subst flatten.simps) simp
next
  case (up_right i r p rt as)
  then show ?case by (subst flatten.simps) simp
qed

lemma join_effect:
  assumes "is_root st l" "is_root st r" "l \<noteq> r"
  shows "fst (join H l r st) = length st" "is_root (snd (join H l r st)) (length st)" "grows st (snd (join H l r st))"
    "spn_Hash (snd (join H l r st) ! length st) = simpleHashFromTwoHashes H (spn_Hash (st ! l)) (spn_Hash (st ! r))"
    "up (snd (join H l r st)) l (length st) [spn_Hash (st ! r)]" "up (snd (join H l r st)) r (length st) [spn_Hash (st ! l)]"
    "length (snd (join H l r st)) = Suc (length st)"
    "i < length st \<Longrightarrow> i \<noteq> l \<Longrightarrow> i \<noteq> r \<Longrightarrow> snd (join H l r st) ! i = st ! i"
proof -
  let ?st = "snd (join H l r st)"
  have lr: "l < length st" "r < length st" using assms by (auto simp: is_root_def)
  show len: "length ?st = Suc (length st)" by (simp add: join_def Let_def)
  show "fst (join H l r st) = length st" by (simp add: join_def Let_def)
  have nl: "?st ! l = (st ! l)\<lparr>spn_Parent := Some (length st), spn_Right := Some r\<rparr>"
    using lr assms(3) by (simp add: join_def Let_def nth_append)
  have nr: "?st ! r = (st ! r)\<lparr>spn_Parent := Some (length st), spn_Left := Some l\<rparr>"
    using lr assms(3) by (simp add: join_def Let_def nth_append)
  show other: "?st ! i = st ! i" if "i < length st" "i \<noteq> l" "i \<noteq> r" for i
    using that lr by (simp add: join_def Let_def nth_append)
  have root: "?st ! length st = \<lparr>spn_Hash = simpleHashFromTwoHashes H (spn_Hash (st ! l)) (spn_Hash (st ! r)),
      spn_Parent = None, spn_Left = None, spn_Right = None\<rparr>"
    using lr by (simp add: join_def Let_def nth_append)
  then show "is_root ?st (length st)"
    "spn_Hash (?st ! length st) = simpleHashFromTwoHashes H (spn_Hash (st ! l)) (spn_Hash (st ! r))"
    by (simp_all add: is_root_def len)
  show "grows st ?st"
    unfolding grows_def
  proof (intro conjI allI impI)
    fix i
    assume i: "i < length st"
    show "spn_Hash (?st ! i) = spn_Hash (st ! i)"
      using i other [of i] nl nr by (cases "i = l"; cases "i = r") auto
    assume "spn_Parent (st ! i) \<noteq> None"
    then have "i \<noteq> l" "i \<noteq> r" using assms by (auto simp: is_root_def)
    then show "?st ! i = st ! i" using i by (rule other [rotated])
  qed (simp add: len)
  have "up ?st l (length st) [spn_Hash (?st ! r)]"
    by (rule up.up_right [of _ _ _ "length st"]) (use nl lr len assms in \<open>auto simp: is_root_def intro: up.intros\<close>)
  then show "up ?st l (length st) [spn_Hash (st ! r)]" by (simp add: nr)
  have "up ?st r (length st) [spn_Hash (?st ! l)]"
    by (rule up.up_left [of _ _ _ "length st"]) (use nr lr len in \<open>auto intro: up.intros\<close>)
  then show "up ?st r (length st) [spn_Hash (st ! l)]" by (simp add: nl)
qed

section \<open>The construction makes the reference tree\<close>

definition prefix_of :: "nodes \<Rightarrow> nodes \<Rightarrow> bool" where
  "prefix_of st st' \<longleftrightarrow> take (length st) st' = st"

lemma prefix_of_nth: "prefix_of st st' \<Longrightarrow> i < length st \<Longrightarrow> st' ! i = st ! i"
  unfolding prefix_of_def by (metis nth_take)

lemma prefix_of_length: "prefix_of st st' \<Longrightarrow> length st \<le> length st'"
  unfolding prefix_of_def by (metis length_take min.cobounded1)

lemma prefix_of_grows: "prefix_of st st' \<Longrightarrow> grows st st'"
  by (simp add: grows_def prefix_of_nth prefix_of_length)

lemma prefix_ofI: "length st \<le> length st' \<Longrightarrow> (\<And>i. i < length st \<Longrightarrow> st' ! i = st ! i) \<Longrightarrow> prefix_of st st'"
  unfolding prefix_of_def by (rule nth_equalityI) auto

lemma prefix_of_trans: "prefix_of st st' \<Longrightarrow> prefix_of st' st'' \<Longrightarrow> prefix_of st st''"
  using prefix_of_length [of st st'] prefix_of_length [of st' st'']
  by (intro prefix_ofI) (auto simp: prefix_of_nth)

lemma prefix_of_root: "prefix_of st st' \<Longrightarrow> is_root st i \<Longrightarrow> is_root st' i"
  using prefix_of_length [of st st'] by (auto simp: is_root_def prefix_of_nth)

text \<open>The trails of some items in a store.\<close>

definition trails_ok :: "(rlp \<Rightarrow> bytes) \<Rightarrow> bytes list \<Rightarrow> nodes \<Rightarrow> nat list \<Rightarrow> nat \<Rightarrow> bool" where
  "trails_ok H items st ts rt \<longleftrightarrow> is_root st rt \<and> spn_Hash (st ! rt) = merkle_root H items \<and> length ts = length items \<and>
     (\<forall>k < length items. ts ! k < length st \<and> spn_Hash (st ! (ts ! k)) = H (RStr (items ! k)) \<and>
        up st (ts ! k) rt (merkle_aunts H items k))"

lemma trails_ok_grows:
  assumes "trails_ok H items st ts rt" "grows st st'" "up st' rt rt' as" "k < length items"
  shows "ts ! k < length st' \<and> spn_Hash (st' ! (ts ! k)) = H (RStr (items ! k)) \<and> up st' (ts ! k) rt' (merkle_aunts H items k @ as)"
proof -
  have k: "ts ! k < length st" "spn_Hash (st ! (ts ! k)) = H (RStr (items ! k))" "up st (ts ! k) rt (merkle_aunts H items k)"
    using assms(1,4) by (auto simp: trails_ok_def)
  then show ?thesis using assms(2) up_trans [OF up_grows [OF k(3) assms(2)] assms(3)] by (auto simp: grows_def)
qed

lemma trails_ok_join:
  assumes n: "1 < length items" and l: "trails_ok H (take (halfway items) items) st ls l"
    and r: "trails_ok H (drop (halfway items) items) st' rs r" and st: "prefix_of st st'" and ne: "l \<noteq> r"
  shows "trails_ok H items (snd (join H l r st')) (ls @ rs) (length st')"
proof -
  let ?h = "halfway items" and ?st = "snd (join H l r st')"
  have roots: "is_root st' l" "is_root st' r" using l r prefix_of_root [OF st] by (auto simp: trails_ok_def)
  note j = join_effect [where H = H, OF roots ne]
  have hash: "spn_Hash (st' ! l) = merkle_root H (take ?h items)" "spn_Hash (st' ! r) = merkle_root H (drop ?h items)"
    using l r prefix_of_nth [OF st, of l] by (auto simp: trails_ok_def is_root_def)
  have len: "length ls = ?h" "length rs = length items - ?h" "?h < length items"
    using l r halfway_less [OF n] by (auto simp: trails_ok_def)
  have up: "up ?st l (length st') [merkle_root H (drop ?h items)]" "up ?st r (length st') [merkle_root H (take ?h items)]"
    using j(5,6) hash by simp_all
  have gr: "grows st ?st"
    using prefix_of_length [OF st] prefix_of_nth [OF st] j(3) by (auto simp: grows_def)
  have "(ls @ rs) ! k < length ?st \<and> spn_Hash (?st ! ((ls @ rs) ! k)) = H (RStr (items ! k)) \<and>
      up ?st ((ls @ rs) ! k) (length st') (merkle_aunts H items k)" if k: "k < length items" for k
  proof (cases "k < ?h")
    case True
    then show ?thesis
      using trails_ok_grows [OF l gr up(1), of k] n k len(1) by (subst merkle_aunts.simps) (simp add: nth_append)
  next
    case False
    then show ?thesis
      using trails_ok_grows [OF r j(3) up(2), of "k - ?h"] n k len(1) by (subst merkle_aunts.simps) (simp add: nth_append)
  qed
  moreover have "merkle_root H items = simpleHashFromTwoHashes H (merkle_root H (take ?h items)) (merkle_root H (drop ?h items))"
    using n by (subst merkle_root.simps) simp
  ultimately show ?thesis using j(2,4) hash len by (simp add: trails_ok_def)
qed

lemma trailsFromByteSlices_ok:
  "items \<noteq> [] \<Longrightarrow> \<exists>ts rt st'. trailsFromByteSlices H items st = Some ((ts, Some rt), st') \<and> prefix_of st st' \<and>
     length st \<le> rt \<and> trails_ok H items st' ts rt"
proof (induction items arbitrary: st rule: split_induct)
  case (small items)
  then have len: "length items = 1" by (cases items) auto
  then have "hd items = items ! 0" by (simp add: hd_conv_nth small.prems)
  then show ?case
    using len by (subst trailsFromByteSlices.simps)
      (auto simp: Let_def prefix_of_def trails_ok_def is_root_def merkle_root.simps merkle_aunts.simps intro: up.intros)
next
  case (split items)
  let ?h = "halfway items"
  have ne: "take ?h items \<noteq> []" "drop ?h items \<noteq> []" using halfway_less [OF split.hyps] by auto
  obtain ls l st1 where l: "trailsFromByteSlices H (take ?h items) st = Some ((ls, Some l), st1)" "prefix_of st st1"
    "length st \<le> l" "trails_ok H (take ?h items) st1 ls l" using split.IH(1) [OF ne(1), of st] by blast
  obtain rs r st2 where r: "trailsFromByteSlices H (drop ?h items) st1 = Some ((rs, Some r), st2)" "prefix_of st1 st2"
    "length st1 \<le> r" "trails_ok H (drop ?h items) st2 rs r" using split.IH(2) [OF ne(2), of st1] by blast
  have lr: "l < length st1" "l \<noteq> r" using l(4) r(3) by (auto simp: trails_ok_def is_root_def)
  have roots: "is_root st2 l" "is_root st2 r" using l(4) r(4) prefix_of_root [OF r(2)] by (auto simp: trails_ok_def)
  note j = join_effect [where H = H, OF roots lr(2)]
  let ?st = "snd (join H l r st2)"
  have p: "prefix_of st st2" by (rule prefix_of_trans [OF l(2) r(2)])
  have st1: "length st \<le> length st1" by (rule prefix_of_length [OF l(2)])
  have "prefix_of st ?st"
    by (rule prefix_ofI) (use prefix_of_length [OF p] prefix_of_nth [OF p] j(7,8) l(3) r(3) st1 in auto)
  moreover have "trailsFromByteSlices H items st = Some ((ls @ rs, Some (length st2)), ?st)"
    using split.hyps l(1) r(1) j(1) by (subst trailsFromByteSlices.simps) (auto simp: Let_def split: prod.splits)
  ultimately show ?case
    using trails_ok_join [OF split.hyps l(4) r(4) r(2) lr(2)] prefix_of_length [OF p] by blast
qed

lemma those_map_Some: "(\<And>i. i < length xs \<Longrightarrow> f (xs ! i) = Some (g i)) \<Longrightarrow> those (map f xs) = Some (map g [0..<length xs])"
proof (induction xs arbitrary: g)
  case (Cons x xs)
  have "those (map f xs) = Some (map (\<lambda>i. g (Suc i)) [0..<length xs])"
    using Cons.prems [of "Suc i" for i] by (intro Cons.IH) auto
  then show ?case using Cons.prems [of 0] by (simp add: upt_conv_Cons map_Suc_upt [symmetric] comp_def del: upt_Suc)
qed simp

definition proof_of :: "(rlp \<Rightarrow> bytes) \<Rightarrow> bytes list \<Rightarrow> nat \<Rightarrow> SimpleProof" where
  "proof_of H items i = \<lparr>sp_Total = int (length items), sp_Index = int i,
     sp_LeafHash = Some (H (RStr (items ! i))), sp_Aunts = merkle_aunts H items i\<rparr>"

lemma SimpleProofs_eq:
  assumes "items \<noteq> []"
  shows "SimpleProofsFromByteSlices H items = Some (merkle_root H items, map (proof_of H items) [0..<length items])"
proof -
  obtain ts rt st where t: "trailsFromByteSlices H items [] = Some ((ts, Some rt), st)" "trails_ok H items st ts rt"
    using trailsFromByteSlices_ok [OF assms, of H "[]"] by blast
  have len: "length ts = length items" using t(2) by (simp add: trails_ok_def)
  have "SimpleProofNode_FlattenAunts st (ts ! i) = Some (merkle_aunts H items i)" if "i < length items" for i
    using t(2) that flatten_up [of st "ts ! i" rt "merkle_aunts H items i" "[]"]
    by (simp add: SimpleProofNode_FlattenAunts_def trails_ok_def)
  then have "those (map (SimpleProofNode_FlattenAunts st) ts) = Some (map (merkle_aunts H items) [0..<length items])"
    using those_map_Some [of ts "SimpleProofNode_FlattenAunts st" "merkle_aunts H items"] len by simp
  then show ?thesis
    using t len by (auto simp: SimpleProofsFromByteSlices_def proof_of_def trails_ok_def intro!: nth_equalityI)
qed

lemma SimpleProofs_panics: "SimpleProofsFromByteSlices H [] = None"
  by (simp add: SimpleProofsFromByteSlices_def trailsFromByteSlices.simps)

section \<open>Proofs of the construction verify\<close>

lemma half_int: "1 < length xs \<Longrightarrow> length xs < 2 ^ 63 - 1 \<Longrightarrow> wrap64 (int (length xs) + 1) div 2 = int (halfway xs)"
  by (subst wrap64_id) (auto simp: int64_def halfway_def)

lemma compute_proof:
  "length items < 2 ^ 63 - 1 \<Longrightarrow> k < length items \<Longrightarrow>
    computeHashFromAunts H (int k) (int (length items)) (Some (H (RStr (items ! k)))) (merkle_aunts H items k) =
      Some (merkle_root H items)"
proof (induction items arbitrary: k rule: split_induct)
  case (small items)
  then have "length items = 1" "k = 0" by auto
  moreover from this have "hd items = items ! 0" by (cases items) auto
  ultimately show ?case by (subst computeHashFromAunts.simps) (simp add: merkle_aunts.simps merkle_root.simps)
next
  case (split items)
  let ?h = "halfway items"
  have h: "?h < length items" "0 < ?h" using halfway_less [OF split.hyps] by auto
  note half = half_int [OF split.hyps split.prems(1)]
  have root: "merkle_root H items = simpleHashFromTwoHashes H (merkle_root H (take ?h items)) (merkle_root H (drop ?h items))"
    using split.hyps by (subst merkle_root.simps) simp
  show ?case
  proof (cases "k < ?h")
    case True
    then have "merkle_aunts H items k = merkle_aunts H (take ?h items) k @ [merkle_root H (drop ?h items)]"
      using split.hyps by (subst merkle_aunts.simps) simp
    moreover have "computeHashFromAunts H (int k) (int ?h) (Some (H (RStr (items ! k)))) (merkle_aunts H (take ?h items) k) =
        Some (merkle_root H (take ?h items))"
      using split.IH(1) [of k] split.prems(1) h True by simp
    ultimately show ?thesis
      using split.hyps h True split.prems(2) half by (subst computeHashFromAunts.simps) (auto simp: Let_def root)
  next
    case False
    then have "merkle_aunts H items k = merkle_aunts H (drop ?h items) (k - ?h) @ [merkle_root H (take ?h items)]"
      using split.hyps by (subst merkle_aunts.simps) simp
    moreover have "computeHashFromAunts H (int (k - ?h)) (int (length items - ?h)) (Some (H (RStr (items ! k))))
        (merkle_aunts H (drop ?h items) (k - ?h)) = Some (merkle_root H (drop ?h items))"
      using split.IH(2) [of "k - ?h"] split.prems h False by simp
    moreover have "wrap64 (int k - int ?h) = int (k - ?h)" "wrap64 (int (length items) - int ?h) = int (length items - ?h)"
      using False h split.prems by (subst wrap64_id; simp add: int64_def of_nat_diff)+
    ultimately show ?thesis
      using split.hyps h False split.prems(2) half by (subst computeHashFromAunts.simps) (auto simp: Let_def root)
  qed
qed

section \<open>Proofs that verify are right\<close>

text \<open>The values whose hashes make the tree, and those hashed to check a proof of a leaf.\<close>

function tree_values :: "(rlp \<Rightarrow> bytes) \<Rightarrow> bytes list \<Rightarrow> rlp list" where
  "tree_values H items =
     (if length items \<le> 1 then [RStr (hd items)]
      else RList [RStr (merkle_root H (take (halfway items) items)), RStr (merkle_root H (drop (halfway items) items))] #
        tree_values H (take (halfway items) items) @ tree_values H (drop (halfway items) items))"
  by pat_completeness auto

termination
  by (relation "measure (\<lambda>(_, items). length items)") (auto simp: halfway_def)

function proof_values :: "(rlp \<Rightarrow> bytes) \<Rightarrow> int \<Rightarrow> int \<Rightarrow> bytes \<Rightarrow> bytes list \<Rightarrow> rlp list" where
  "proof_values H index tot x innerHashes =
     (if tot \<le> 1 \<or> length innerHashes = 0 then [RStr x]
      else
        let numLeft = wrap64 (tot + 1) div 2;
            i = (if index < numLeft then index else wrap64 (index - numLeft));
            t = (if index < numLeft then numLeft else wrap64 (tot - numLeft));
            h = slice_bytes (computeHashFromAunts H i t (Some (H (RStr x))) (butlast innerHashes))
        in RList (if index < numLeft then [RStr h, RStr (last innerHashes)] else [RStr (last innerHashes), RStr h]) #
             proof_values H i t x (butlast innerHashes))"
  by pat_completeness auto

termination
  by (relation "measure (\<lambda>(_, _, _, _, xs). length xs)") auto

declare tree_values.simps [simp del] proof_values.simps [simp del]

text \<open>Two different values with one hash, one from the tree and one from the proof.\<close>

definition collision :: "(rlp \<Rightarrow> bytes) \<Rightarrow> rlp list \<Rightarrow> rlp list \<Rightarrow> bool" where
  "collision H us vs \<longleftrightarrow> (\<exists>u \<in> set us. \<exists>v \<in> set vs. u \<noteq> v \<and> H u = H v)"

lemma collision_mono: "collision H us vs \<Longrightarrow> set us \<subseteq> set us' \<Longrightarrow> set vs \<subseteq> set vs' \<Longrightarrow> collision H us' vs'"
  unfolding collision_def by blast

text \<open>The value whose hash is the root of the tree.\<close>

definition top_value :: "(rlp \<Rightarrow> bytes) \<Rightarrow> bytes list \<Rightarrow> rlp" where
  "top_value H items = (if length items \<le> 1 then RStr (hd items)
     else RList [RStr (merkle_root H (take (halfway items) items)), RStr (merkle_root H (drop (halfway items) items))])"

lemma root_value: "merkle_root H items = H (top_value H items)" "top_value H items \<in> set (tree_values H items)"
proof -
  show "merkle_root H items = H (top_value H items)"
    by (subst merkle_root.simps) (simp add: top_value_def simpleHashFromTwoHashes_def)
  show "top_value H items \<in> set (tree_values H items)"
    by (subst tree_values.simps) (simp add: top_value_def)
qed

lemma tree_values_parts:
  assumes "1 < length items"
  shows "set (tree_values H (take (halfway items) items)) \<subseteq> set (tree_values H items)"
    "set (tree_values H (drop (halfway items) items)) \<subseteq> set (tree_values H items)"
  using assms tree_values.simps [of H items] by auto

lemma computeHash_range:
  assumes "computeHashFromAunts H index tot lh aunts = Some h"
  shows "0 \<le> index" "index < tot" "tot \<noteq> 1 \<Longrightarrow> aunts \<noteq> []" "tot = 1 \<Longrightarrow> aunts = [] \<and> lh = Some h"
  using assms by (subst (asm) computeHashFromAunts.simps, simp split: if_splits)+

lemma computeHash_step:
  assumes "0 \<le> index" "index < tot" "tot \<noteq> 1" "aunts \<noteq> []" "numLeft = wrap64 (tot + 1) div 2"
    "i = (if index < numLeft then index else wrap64 (index - numLeft))"
    "t = (if index < numLeft then numLeft else wrap64 (tot - numLeft))"
  shows "computeHashFromAunts H index tot lh aunts =
      map_option (\<lambda>h. H (RList (if index < numLeft then [RStr h, RStr (last aunts)] else [RStr (last aunts), RStr h])))
        (computeHashFromAunts H i t lh (butlast aunts))"
    and "proof_values H index tot x aunts =
      RList (if index < numLeft then [RStr (slice_bytes (computeHashFromAunts H i t (Some (H (RStr x))) (butlast aunts))), RStr (last aunts)]
             else [RStr (last aunts), RStr (slice_bytes (computeHashFromAunts H i t (Some (H (RStr x))) (butlast aunts)))]) #
      proof_values H i t x (butlast aunts)"
proof -
  show "computeHashFromAunts H index tot lh aunts =
      map_option (\<lambda>h. H (RList (if index < numLeft then [RStr h, RStr (last aunts)] else [RStr (last aunts), RStr h])))
        (computeHashFromAunts H i t lh (butlast aunts))"
    using assms by (subst computeHashFromAunts.simps) (simp add: Let_def simpleHashFromTwoHashes_def split: option.splits)
  show "proof_values H index tot x aunts =
      RList (if index < numLeft then [RStr (slice_bytes (computeHashFromAunts H i t (Some (H (RStr x))) (butlast aunts))), RStr (last aunts)]
             else [RStr (last aunts), RStr (slice_bytes (computeHashFromAunts H i t (Some (H (RStr x))) (butlast aunts)))]) #
      proof_values H i t x (butlast aunts)"
    using assms by (subst proof_values.simps) (simp add: Let_def)
qed

text \<open>
  The leaf of a proof that gives the root of a tree is one of its items, and the one at the
  index of the proof if the proof has the right number of items.
\<close>

lemma same_value:
  assumes "H u = merkle_root H items" "u \<in> set us"
  shows "u = top_value H items \<or> collision H (tree_values H items) us"
  using assms root_value [of H items] unfolding collision_def by metis

lemma computeHash_sound:
  assumes "computeHashFromAunts H index tot (Some (H (RStr x))) aunts = Some (merkle_root H items)" "items \<noteq> []"
  shows "(x \<in> set items \<and> (tot = int (length items) \<and> tot < 2 ^ 63 - 1 \<longrightarrow> x = items ! nat index)) \<or>
    collision H (tree_values H items) (proof_values H index tot x aunts)"
  using assms
proof (induction "length aunts" arbitrary: aunts index tot items)
  case 0
  note r = computeHash_range [OF 0(2)]
  have tot: "tot = 1" using r(3) 0(1) by auto
  then have "index = 0" "H (RStr x) = merkle_root H items" using r(1,2) r(4) by auto
  moreover have "RStr x \<in> set (proof_values H index tot x aunts)" by (subst proof_values.simps) (simp add: tot)
  ultimately have "RStr x = top_value H items \<or> collision H (tree_values H items) (proof_values H index tot x aunts)"
    by (intro same_value) auto
  then show ?case using 0(3) \<open>index = 0\<close> by (auto simp: top_value_def hd_conv_nth split: if_splits)
next
  case (Suc n)
  note r = computeHash_range [OF Suc.prems(1)]
  have ne: "aunts \<noteq> []" "tot \<noteq> 1" using Suc.hyps(2) r(4) by auto
  define numLeft where "numLeft = wrap64 (tot + 1) div 2"
  define i where "i = (if index < numLeft then index else wrap64 (index - numLeft))"
  define t where "t = (if index < numLeft then numLeft else wrap64 (tot - numLeft))"
  note step = computeHash_step [OF r(1,2) ne(2,1) numLeft_def i_def t_def]
  obtain h where h: "computeHashFromAunts H i t (Some (H (RStr x))) (butlast aunts) = Some h"
    "H (RList (if index < numLeft then [RStr h, RStr (last aunts)] else [RStr (last aunts), RStr h])) = merkle_root H items"
    using Suc.prems(1) unfolding step(1) by auto
  have sub: "set (proof_values H i t x (butlast aunts)) \<subseteq> set (proof_values H index tot x aunts)"
    unfolding step(2) [of H x] by auto
  have "RList (if index < numLeft then [RStr h, RStr (last aunts)] else [RStr (last aunts), RStr h])
      \<in> set (proof_values H index tot x aunts)"
    unfolding step(2) [of H x] by (simp add: h(1) slice_bytes_def)
  then consider "RList (if index < numLeft then [RStr h, RStr (last aunts)] else [RStr (last aunts), RStr h]) = top_value H items"
    | "collision H (tree_values H items) (proof_values H index tot x aunts)"
    using same_value [OF h(2)] by blast
  then show ?case
  proof cases
    case 1
    let ?h = "halfway items" and ?part = "\<lambda>b. if b then take (halfway items) items else drop (halfway items) items"
    have len: "1 < length items" using 1 by (auto simp: top_value_def split: if_splits)
    have hl: "?h < length items" "0 < ?h" using halfway_less [OF len] by auto
    have root: "h = merkle_root H (?part (index < numLeft))" using 1 len by (auto simp: top_value_def split: if_splits)
    have "?part (index < numLeft) \<noteq> []" using hl by auto
    moreover have "n = length (butlast aunts)" using Suc.hyps(2) by simp
    ultimately have IH: "(x \<in> set (?part (index < numLeft)) \<and>
        (t = int (length (?part (index < numLeft))) \<and> t < 2 ^ 63 - 1 \<longrightarrow> x = ?part (index < numLeft) ! nat i)) \<or>
        collision H (tree_values H (?part (index < numLeft))) (proof_values H i t x (butlast aunts))"
      using h(1) root by (intro Suc.hyps(1)) auto
    have "set (tree_values H (?part b)) \<subseteq> set (tree_values H items)" for b using tree_values_parts [OF len, of H] by auto
    then have col: "collision H (tree_values H (?part (index < numLeft))) (proof_values H i t x (butlast aunts)) \<Longrightarrow>
        collision H (tree_values H items) (proof_values H index tot x aunts)"
      using sub by (rule collision_mono [rotated])
    have at: "x = items ! nat index" if tot: "tot = int (length items) \<and> tot < 2 ^ 63 - 1"
        and x: "t = int (length (?part (index < numLeft))) \<and> t < 2 ^ 63 - 1 \<longrightarrow> x = ?part (index < numLeft) ! nat i"
    proof -
      have n: "numLeft = int ?h" using half_int [OF len] tot by (simp add: numLeft_def)
      have w: "wrap64 (index - int ?h) = index - int ?h" "wrap64 (int (length items) - int ?h) = int (length items) - int ?h"
        using r(1,2) tot hl by (subst wrap64_id; simp add: int64_def)+
      show ?thesis
        using x tot hl r(1,2) by (auto simp: n w i_def t_def nat_diff_distrib split: if_splits)
    qed
    have "x \<in> set (?part b) \<Longrightarrow> x \<in> set items" for b by (auto dest: in_set_takeD in_set_dropD split: if_splits)
    then show ?thesis using IH at col by blast
  qed blast
qed

section \<open>Properties\<close>

text \<open>The root and the proofs that a peer is sent for some items.\<close>

lemma Verify_iff:
  assumes "rootHash \<noteq> []" "leafHash \<noteq> []"
  shows "SimpleProof_Verify H sp (Some rootHash) (Some leafHash) = NoError \<longleftrightarrow>
    sp_LeafHash sp = Some leafHash \<and> SimpleProof_ComputeRootHash H sp = Some rootHash"
proof -
  have "0 \<le> sp_Index sp \<and> 0 \<le> sp_Total sp" if "SimpleProof_ComputeRootHash H sp = Some rootHash"
    using that computeHash_range(1,2) [of H "sp_Index sp" "sp_Total sp" "sp_LeafHash sp" "sp_Aunts sp" rootHash]
    by (simp add: SimpleProof_ComputeRootHash_def)
  then show ?thesis using assms by (auto simp: SimpleProof_Verify_def slice_bytes_def split: option.splits if_splits)
qed

definition demo_hash :: "rlp \<Rightarrow> bytes" where
  "demo_hash v = (case v of RStr b \<Rightarrow> 1 # b | RList vs \<Rightarrow>
     2 # concat (map (\<lambda>u. case u of RStr b \<Rightarrow> word_of_nat (length b) # b | RList _ \<Rightarrow> []) vs))"

lemma demo_hash_nonempty: "demo_hash v \<noteq> []"
  by (cases v) (simp_all add: demo_hash_def)

text \<open>
  C32: the construction of proofs panics exactly for no items. Otherwise, although the nodes it
  links by pointers are changed after they are made, the walk over parents ends for every leaf,
  the root and the aunts are those of the recursive definition of the tree, and every proof
  verifies against the root and the hash of its own item.
\<close>

theorem SimpleProofs_verify:
  assumes "length items < 2 ^ 63 - 1" "\<And>v. H v \<noteq> []"
  shows "case SimpleProofsFromByteSlices H items of
      None \<Rightarrow> items = []
    | Some (root, proofs) \<Rightarrow> items \<noteq> [] \<and> root = merkle_root H items \<and> length proofs = length items \<and>
        (\<forall>i < length items. sp_Index (proofs ! i) = int i \<and> sp_Total (proofs ! i) = int (length items) \<and>
           sp_Aunts (proofs ! i) = merkle_aunts H items i \<and>
           SimpleProof_Verify H (proofs ! i) (Some root) (Some (H (RStr (items ! i)))) = NoError)"
proof (cases "items = []")
  case False
  have "SimpleProof_Verify H (proof_of H items i) (Some (merkle_root H items)) (Some (H (RStr (items ! i)))) = NoError"
    if "i < length items" for i
    using that assms compute_proof [OF assms(1) that, of H] root_value(1) [of H items]
    by (subst Verify_iff) (simp_all add: proof_of_def SimpleProof_ComputeRootHash_def)
  then show ?thesis using SimpleProofs_eq [OF False, of H] False by (simp add: proof_of_def)
qed (simp add: SimpleProofs_panics)

theorem SimpleProofs_verify_witness:
  "\<exists>root proofs. SimpleProofsFromByteSlices demo_hash [[1], [2, 3], []] = Some (root, proofs) \<and>
     SimpleProof_Verify demo_hash (proofs ! 2) (Some root) (Some (demo_hash (RStr []))) = NoError"
  using SimpleProofs_verify [of "[[1], [2, 3], []]" demo_hash, OF _ demo_hash_nonempty]
  by (auto split: option.splits dest: spec [of _ 2])

text \<open>
  C31: a proof that verifies against the root of some items and the hash of a value shows that the
  value is one of the items, and the item at its index if the proof states the right number of
  items, unless a value hashed in the check and a different value hashed in the tree have the same
  hash.
\<close>

theorem Verify_sound:
  assumes "\<And>v. H v \<noteq> []" "SimpleProofsFromByteSlices H items = Some (root, proofs)"
    "SimpleProof_Verify H sp (Some root) (Some (H (RStr x))) = NoError"
  shows "(x \<in> set items \<and>
      (sp_Total sp = int (length items) \<and> sp_Total sp < 2 ^ 63 - 1 \<longrightarrow> x = items ! nat (sp_Index sp))) \<or>
    collision H (tree_values H items) (proof_values H (sp_Index sp) (sp_Total sp) x (sp_Aunts sp))"
proof -
  have ne: "items \<noteq> []" using assms(2) SimpleProofs_panics by auto
  then have root: "root = merkle_root H items" using assms(2) SimpleProofs_eq [OF ne, of H] by simp
  have "root \<noteq> []" using assms(1) root_value(1) [of H items] root by simp
  then have "sp_LeafHash sp = Some (H (RStr x))" "SimpleProof_ComputeRootHash H sp = Some (merkle_root H items)"
    using assms(3) Verify_iff [OF _ assms(1)] root by auto
  then show ?thesis using computeHash_sound [OF _ ne] by (simp add: SimpleProof_ComputeRootHash_def)
qed

theorem Verify_sound_witness:
  "[2, 3] \<in> set [[1], [2, 3], [4 :: byte]] \<or> collision demo_hash (tree_values demo_hash [[1], [2, 3], [4]])
     (proof_values demo_hash 1 3 [2, 3] (merkle_aunts demo_hash [[1], [2, 3], [4]] 1))"
proof -
  let ?items = "[[1], [2, 3], [4 :: byte]]"
  obtain root proofs where p: "SimpleProofsFromByteSlices demo_hash ?items = Some (root, proofs)"
    "sp_Index (proofs ! 1) = 1" "sp_Total (proofs ! 1) = 3" "sp_Aunts (proofs ! 1) = merkle_aunts demo_hash ?items 1"
    using SimpleProofs_eq [of ?items demo_hash] by (simp add: proof_of_def)
  moreover have "SimpleProof_Verify demo_hash (proofs ! 1) (Some root) (Some (demo_hash (RStr [2, 3]))) = NoError"
  proof -
    have "(case SimpleProofsFromByteSlices demo_hash ?items of None \<Rightarrow> False | Some (r, ps) \<Rightarrow>
        SimpleProof_Verify demo_hash (ps ! 1) (Some r) (Some (demo_hash (RStr [2, 3]))) = NoError)" by code_simp
    then show ?thesis using p(1) by simp
  qed
  ultimately show ?thesis using Verify_sound [of demo_hash ?items root proofs "proofs ! 1" "[2, 3]", OF demo_hash_nonempty] by auto
qed

end
