(* ===== verification/Part_Set.thy ===== *)
theory Part_Set
  imports Merkle Vote
begin

text \<open>
  Block parts, \<^verbatim>\<open>consensus/tbft/types/part_set.go\<close>: data is cut into parts with Merkle proofs, a set made
  from a header collects parts in any order, and a reader gives the data back. The cached hash of a
  part is read as the hash of its bytes; an allocation of any length that is not negative succeeds.
\<close>

section \<open>The operations\<close>

record Part =
  part_Index :: u64
  part_Bytes :: bytes
  part_Proof :: SimpleProof

datatype part_error = ErrPartSetUnexpectedIndex | ErrPartSetInvalidProof

definition Part_Hash :: "(rlp \<Rightarrow> bytes) \<Rightarrow> Part \<Rightarrow> bytes" where
  "Part_Hash RlpHash part = RlpHash (RStr (part_Bytes part))"

record PartSet =
  ps_total :: u64
  ps_hash :: bytes
  ps_parts :: "Part option list"
  ps_partsBitArray :: "BitArray option"
  ps_count :: u64

text \<open>Division of signed integers and the slice expression \<open>data[lo:hi]\<close>.\<close>

definition go_quot :: "int \<Rightarrow> int \<Rightarrow> int" where
  "go_quot a b = sgn a * sgn b * (\<bar>a\<bar> div \<bar>b\<bar>)"

definition go_slice :: "'a list \<Rightarrow> int \<Rightarrow> int \<Rightarrow> 'a list option" where
  "go_slice xs lo hi =
     (if 0 \<le> lo \<and> lo \<le> hi \<and> hi \<le> int (length xs) then Some (take (nat hi - nat lo) (drop (nat lo) xs)) else None)"

definition MinInt :: "int \<Rightarrow> int \<Rightarrow> int" where
  "MinInt a b = (if a < b then a else b)"

definition part_bytes :: "bytes \<Rightarrow> int \<Rightarrow> int \<Rightarrow> bytes option" where
  "part_bytes data partSize i =
     go_slice data (wrap64 (i * partSize)) (MinInt (int (length data)) (wrap64 ((i + 1) * partSize)))"

definition NewPartSetFromData :: "(rlp \<Rightarrow> bytes) \<Rightarrow> bytes \<Rightarrow> u64 \<Rightarrow> PartSet option" where
  "NewPartSetFromData RlpHash data partSize = do {
     go_assert (to_int partSize \<noteq> 0);
     let total = go_quot (wrap64 (wrap64 (int (length data) + to_int partSize) - 1)) (to_int partSize);
     go_assert (0 \<le> total);
     partsBytes \<leftarrow> those (map (\<lambda>i. part_bytes data (to_int partSize) (int i)) [0..<nat total]);
     partsBitArray \<leftarrow> go_for (\<lambda>i b. map_option snd (BitArray_SetIndex b (of_nat i) True)) [0..<nat total]
                       (NewBitArray (to_uint total));
     (root, proofs) \<leftarrow> SimpleProofsFromByteSlices RlpHash partsBytes;
     Some \<lparr>ps_total = to_uint total, ps_hash = root,
       ps_parts = map (\<lambda>i. Some \<lparr>part_Index = of_nat i, part_Bytes = partsBytes ! i, part_Proof = proofs ! i\<rparr>) [0..<nat total],
       ps_partsBitArray = partsBitArray, ps_count = to_uint total\<rparr>
   }"

definition NewPartSetFromHeader :: "PartSetHeader \<Rightarrow> PartSet" where
  "NewPartSetFromHeader header =
     \<lparr>ps_total = Total header, ps_hash = psh_Hash header, ps_parts = replicate (unat (Total header)) None,
      ps_partsBitArray = NewBitArray (Total header), ps_count = 0\<rparr>"

definition PartSet_Header :: "PartSet option \<Rightarrow> PartSetHeader" where
  "PartSet_Header ps = (case ps of
     None \<Rightarrow> \<lparr>Total = 0, psh_Hash = []\<rparr>
   | Some ps \<Rightarrow> \<lparr>Total = ps_total ps, psh_Hash = ps_hash ps\<rparr>)"

definition PartSet_HasHeader :: "PartSet option \<Rightarrow> PartSetHeader \<Rightarrow> bool" where
  "PartSet_HasHeader ps header = (case ps of
     None \<Rightarrow> False
   | Some _ \<Rightarrow> PartSetHeader_Equals (PartSet_Header ps) header)"

definition PartSet_BitArray :: "PartSet \<Rightarrow> BitArray option" where
  "PartSet_BitArray ps = BitArray_Copy (ps_partsBitArray ps)"

definition PartSet_Hash :: "PartSet option \<Rightarrow> bytes" where
  "PartSet_Hash ps = (case ps of None \<Rightarrow> [] | Some ps \<Rightarrow> ps_hash ps)"

definition PartSet_HashesTo :: "PartSet option \<Rightarrow> bytes \<Rightarrow> bool" where
  "PartSet_HashesTo ps hash = (case ps of None \<Rightarrow> False | Some ps \<Rightarrow> ps_hash ps = hash)"

definition PartSet_Count :: "PartSet option \<Rightarrow> u64" where
  "PartSet_Count ps = (case ps of None \<Rightarrow> 0 | Some ps \<Rightarrow> ps_count ps)"

definition PartSet_Total :: "PartSet option \<Rightarrow> u64" where
  "PartSet_Total ps = (case ps of None \<Rightarrow> 0 | Some ps \<Rightarrow> ps_total ps)"

definition PartSet_AddPart ::
  "(rlp \<Rightarrow> bytes) \<Rightarrow> Part \<Rightarrow> PartSet \<Rightarrow> ((bool \<times> part_error go_error) \<times> PartSet) option" where
  "PartSet_AddPart RlpHash part ps =
     (if part_Index part \<ge> ps_total ps then Some ((False, Err ErrPartSetUnexpectedIndex), ps)
      else do {
        here \<leftarrow> go_nth (ps_parts ps) (unat (part_Index part));
        if here \<noteq> None then Some ((False, NoError), ps)
        else if SimpleProof_Verify RlpHash (part_Proof part) (Some (PartSet_Hash (Some ps))) (Some (Part_Hash RlpHash part)) \<noteq> NoError
        then Some ((False, Err ErrPartSetInvalidProof), ps)
        else do {
          (_, bits) \<leftarrow> BitArray_SetIndex (ps_partsBitArray ps) (part_Index part) True;
          Some ((True, NoError), ps\<lparr>ps_parts := (ps_parts ps)[unat (part_Index part) := Some part],
            ps_partsBitArray := bits, ps_count := ps_count ps + 1\<rparr>)
        }
      })"

definition PartSet_GetPart :: "PartSet \<Rightarrow> u64 \<Rightarrow> Part option option" where
  "PartSet_GetPart ps index = go_nth (ps_parts ps) (unat index)"

definition PartSet_IsComplete :: "PartSet \<Rightarrow> bool" where
  "PartSet_IsComplete ps \<longleftrightarrow> ps_count ps = ps_total ps"

section \<open>Reading the data back\<close>

text \<open>A \<open>bytes.Reader\<close> is the rest of its bytes; its \<open>Read\<close> reports the end before it looks at the buffer.\<close>

datatype eof = EOF

record PartSetReader =
  psr_i :: nat
  psr_parts :: "Part option list"
  psr_reader :: bytes

definition reader_Read :: "nat \<Rightarrow> bytes \<Rightarrow> (bytes \<times> eof go_error) \<times> bytes" where
  "reader_Read n r = (if r = [] then (([], Err EOF), r) else ((take n r, NoError), drop n r))"

definition NewPartSetReader :: "Part option list \<Rightarrow> PartSetReader option" where
  "NewPartSetReader parts = do {
     first \<leftarrow> go_nth parts 0;
     p \<leftarrow> first;
     Some \<lparr>psr_i = 0, psr_parts = parts, psr_reader = part_Bytes p\<rparr>
   }"

definition PartSet_GetReader :: "PartSet \<Rightarrow> PartSetReader option" where
  "PartSet_GetReader ps = do { go_assert (PartSet_IsComplete ps); NewPartSetReader (ps_parts ps) }"

text \<open>
  \<open>Read\<close> returns the bytes it puts in a buffer of \<open>n\<close> bytes. Its first recursive call, on exactly the
  bytes the reader has left, is the read of that reader.
\<close>

function PartSetReader_Read :: "nat \<Rightarrow> PartSetReader \<Rightarrow> ((bytes \<times> eof go_error) \<times> PartSetReader) option" where
  "PartSetReader_Read n psr =
     (let readerLen = length (psr_reader psr)
      in if readerLen \<ge> n then
           (let (res, r) = reader_Read n (psr_reader psr) in Some (res, psr\<lparr>psr_reader := r\<rparr>))
         else if readerLen > 0 then
           (let res = reader_Read readerLen (psr_reader psr)
            in if snd (fst res) \<noteq> NoError then Some (fst res, psr\<lparr>psr_reader := snd res\<rparr>)
               else do {
                 ((b2, err), psr') \<leftarrow> PartSetReader_Read (n - readerLen) (psr\<lparr>psr_reader := snd res\<rparr>);
                 Some ((fst (fst res) @ b2, err), psr')
               })
         else if Suc (psr_i psr) \<ge> length (psr_parts psr) then Some (([], Err EOF), psr\<lparr>psr_i := Suc (psr_i psr)\<rparr>)
         else (case psr_parts psr ! Suc (psr_i psr) of
                 None \<Rightarrow> None
               | Some p \<Rightarrow> PartSetReader_Read n (psr\<lparr>psr_i := Suc (psr_i psr), psr_reader := part_Bytes p\<rparr>)))"
  by pat_completeness auto

termination
  by (relation "measures [\<lambda>(_, psr). length (psr_parts psr) - psr_i psr, \<lambda>(_, psr). length (psr_reader psr)]")
    (auto simp: reader_Read_def split: if_splits)

declare PartSetReader_Read.simps [simp del]

section \<open>Cutting data into parts\<close>

definition chunks :: "bytes \<Rightarrow> nat \<Rightarrow> bytes list" where
  "chunks data k = map (\<lambda>i. take k (drop (i * k) data)) [0..<(length data + k - 1) div k]"

lemma concat_chunks_upto: "concat (map (\<lambda>i. take k (drop (i * k) xs)) [0..<n]) = take (n * k) xs"
proof (induction n)
  case (Suc n)
  have "take (k + n * k) xs = take (n * k) xs @ take k (drop (n * k) xs)" by (metis add.commute take_add)
  then show ?case using Suc by simp
qed simp

lemma chunks_enough: "0 < k \<Longrightarrow> m \<le> (m + k - 1) div k * (k :: nat)"
  using dividend_less_div_times [of k "m + k - 1"] by simp

lemma concat_chunks: "0 < k \<Longrightarrow> concat (chunks data k) = data"
  unfolding chunks_def concat_chunks_upto using chunks_enough [of k "length data"] by simp

lemma length_chunks: "length (chunks data k) = (length data + k - 1) div k"
  by (simp add: chunks_def)

lemma chunks_eq_Nil: "0 < k \<Longrightarrow> chunks data k = [] \<longleftrightarrow> data = []"
  using concat_chunks [of k data] by (metis chunks_def concat.simps(1) div_less length_chunks length_0_conv add.left_neutral
    diff_less less_numeral_extra(1) list.size(3))

lemma part_bytes_chunk:
  assumes "0 < k" "length data + k < 2 ^ 63" "i < length (chunks data k)"
  shows "part_bytes data (int k) (int i) = Some (chunks data k ! i)"
proof -
  have "i * k < length data"
  proof -
    have "Suc i * k \<le> (length data + k - 1) div k * k" using assms(3) unfolding length_chunks by (intro mult_le_mono1) simp
    also have "\<dots> \<le> length data + k - 1" by (rule div_times_less_eq_dividend)
    finally show ?thesis using assms(1) by simp
  qed
  moreover have "wrap64 (int i * int k) = int (i * k)" "wrap64 ((int i + 1) * int k) = int (Suc i * k)"
    using \<open>i * k < length data\<close> assms(2) by (subst wrap64_id; simp add: int64_def algebra_simps flip: of_nat_mult of_nat_add)+
  ultimately show ?thesis
    using assms(3) by (auto simp: part_bytes_def go_slice_def MinInt_def length_chunks chunks_def min_def nat_add_distrib
      simp flip: of_nat_mult of_nat_Suc intro!: take_equalityI)
qed

section \<open>The set made from data\<close>

definition part_of :: "(rlp \<Rightarrow> bytes) \<Rightarrow> bytes list \<Rightarrow> nat \<Rightarrow> Part" where
  "part_of H items i = \<lparr>part_Index = of_nat i, part_Bytes = items ! i, part_Proof = proof_of H items i\<rparr>"

lemma set_all_bits:
  assumes "ba.tracks b0 (replicate n (None :: 'a option))" "m \<le> n" "n < 2 ^ 63"
  shows "\<exists>b. go_for (\<lambda>i b. map_option snd (BitArray_SetIndex b (of_nat i) True)) [0..<m] b0 = Some b \<and>
    ba.tracks b (map (\<lambda>i. if i < m then Some (f i :: 'a) else None) [0..<n])"
  using assms(2)
proof (induction m)
  case 0
  have "map (\<lambda>i. if i < 0 then Some (f i :: 'a) else None) [0..<n] = replicate n None" by (rule nth_equalityI) auto
  then show ?case using assms(1) by (auto simp del: map_replicate_trivial)
next
  case (Suc m)
  then obtain b where b: "go_for (\<lambda>i b. map_option snd (BitArray_SetIndex b (of_nat i) True)) [0..<m] b0 = Some b"
    "ba.tracks b (map (\<lambda>i. if i < m then Some (f i) else None) [0..<n])" by auto
  have u: "unat (of_nat m :: u64) = m" using Suc.prems assms(3) by (intro unat_of_nat64) simp
  obtain b' where b': "BitArray_SetIndex b (of_nat m) True = Some (True, b')"
    "ba.tracks b' ((map (\<lambda>i. if i < m then Some (f i) else None) [0..<n])[unat (of_nat m :: u64) := Some (f m)])"
    by (rule ba.tracks_set [OF b(2), of "of_nat m" "f m"]) (use u Suc.prems in auto)
  have "(map (\<lambda>i. if i < m then Some (f i) else None) [0..<n])[m := Some (f m)] =
      map (\<lambda>i. if i < Suc m then Some (f i) else None) [0..<n]"
    by (rule nth_equalityI) (auto simp: nth_list_update less_Suc_eq)
  then show ?case using b(1) b' u by (auto simp: go_for_append)
qed

lemma wrap_round_up: "0 < k \<Longrightarrow> m + k < 2 ^ 63 \<Longrightarrow> wrap64 (wrap64 (int m + int k) - 1) = int (m + k - 1)"
  by (simp add: wrap64_id int64_def of_nat_diff)

lemma go_quot_nat: "go_quot (int a) (int b) = int (a div b)"
  by (auto simp: go_quot_def sgn_if zdiv_int)

lemma NewPartSetFromData_eq:
  assumes k: "0 < unat partSize" "length data + unat partSize < 2 ^ 63"
  shows "data = [] \<Longrightarrow> NewPartSetFromData H data partSize = None"
    and "data \<noteq> [] \<Longrightarrow> \<exists>bits. NewPartSetFromData H data partSize =
      Some \<lparr>ps_total = of_nat (length (chunks data (unat partSize))), ps_hash = merkle_root H (chunks data (unat partSize)),
        ps_parts = map (\<lambda>i. Some (part_of H (chunks data (unat partSize)) i)) [0..<length (chunks data (unat partSize))],
        ps_partsBitArray = bits, ps_count = of_nat (length (chunks data (unat partSize)))\<rparr> \<and>
      ba.tracks bits (map (\<lambda>i. Some (part_of H (chunks data (unat partSize)) i)) [0..<length (chunks data (unat partSize))])"
proof -
  let ?k = "unat partSize" and ?cs = "chunks data (unat partSize)"
  let ?n = "length ?cs"
  have ti: "to_int partSize = int ?k" using k(2) by (intro to_int_unat) simp
  have tot: "go_quot (wrap64 (wrap64 (int (length data) + int ?k) - 1)) (int ?k) = int ?n"
    by (simp only: wrap_round_up [OF k] go_quot_nat length_chunks)
  have n: "?n < 2 ^ 63"
    using k div_le_dividend [of "length data + ?k - 1" ?k] unfolding length_chunks by linarith
  have un: "to_uint (int ?n) = of_nat ?n" by (simp add: to_uint_def)
  have pb: "those (map (\<lambda>i. part_bytes data (int ?k) (int i)) [0..<?n]) = Some ?cs"
    using those_map_Some [of "[0..<?n]" "\<lambda>i. part_bytes data (int ?k) (int i)" "\<lambda>i. ?cs ! i"]
      part_bytes_chunk [OF k] by (simp add: map_nth)
  let ?parts = "map (\<lambda>i. Some (part_of H ?cs i)) [0..<?n]"
  have "ba.tracks (NewBitArray (of_nat ?n)) (replicate (unat (of_nat ?n :: u64)) (None :: Part option))"
    using n by (intro ba.tracks_new) (simp add: unat_of_nat64)
  then obtain bits where bits: "go_for (\<lambda>i b. map_option snd (BitArray_SetIndex b (of_nat i) True)) [0..<?n] (NewBitArray (of_nat ?n)) = Some bits"
    "ba.tracks bits (map (\<lambda>i. if i < ?n then Some (part_of H ?cs i) else None) [0..<?n])"
    using set_all_bits [of "NewBitArray (of_nat ?n)" ?n ?n "part_of H ?cs"] n unat_of_nat64 [of ?n] by auto
  have tr: "ba.tracks bits ?parts" using bits(2) by (rule back_subst [of "ba.tracks bits"]) auto
  have "int ?k \<noteq> 0" using k(1) unfolding of_nat_eq_0_iff by blast
  then have a: "go_assert (int ?k \<noteq> 0) = Some ()" "go_assert (0 \<le> int ?n) = Some ()"
    unfolding go_assert_eq_Some by (assumption, simp)
  have main: "NewPartSetFromData H data partSize = Option.bind (SimpleProofsFromByteSlices H ?cs) (\<lambda>(root, proofs).
      Some \<lparr>ps_total = of_nat ?n, ps_hash = root,
        ps_parts = map (\<lambda>i. Some \<lparr>part_Index = of_nat i, part_Bytes = ?cs ! i, part_Proof = proofs ! i\<rparr>) [0..<?n],
        ps_partsBitArray = bits, ps_count = of_nat ?n\<rparr>)"
    unfolding NewPartSetFromData_def ti Let_def tot nat_int pb un bits(1) a Option.bind.bind_lunit by (rule refl)
  show "data = [] \<Longrightarrow> NewPartSetFromData H data partSize = None"
    unfolding main using chunks_eq_Nil [OF k(1), of data] by (simp add: SimpleProofs_panics)
  assume "data \<noteq> []"
  then have "?cs \<noteq> []" using k chunks_eq_Nil by blast
  from SimpleProofs_eq [OF this, of H] tr k(1) show "\<exists>bits. NewPartSetFromData H data partSize =
      Some \<lparr>ps_total = of_nat ?n, ps_hash = merkle_root H ?cs, ps_parts = ?parts, ps_partsBitArray = bits, ps_count = of_nat ?n\<rparr> \<and>
      ba.tracks bits ?parts"
    unfolding main by (intro exI [of _ bits]) (simp add: part_of_def)
qed

section \<open>The invariant\<close>

definition part_ok :: "(rlp \<Rightarrow> bytes) \<Rightarrow> PartSet \<Rightarrow> nat \<Rightarrow> Part \<Rightarrow> bool" where
  "part_ok H ps i p \<longleftrightarrow> unat (part_Index p) = i \<and>
     SimpleProof_Verify H (part_Proof p) (Some (ps_hash ps)) (Some (Part_Hash H p)) = NoError"

definition ps_inv :: "(rlp \<Rightarrow> bytes) \<Rightarrow> PartSet \<Rightarrow> bool" where
  "ps_inv H ps \<longleftrightarrow>
     unat (ps_total ps) = length (ps_parts ps) \<and> length (ps_parts ps) < 2 ^ 63 \<and>
     ba.tracks (ps_partsBitArray ps) (ps_parts ps) \<and>
     unat (ps_count ps) = card {i. i < length (ps_parts ps) \<and> ps_parts ps ! i \<noteq> None} \<and>
     (\<forall>i < length (ps_parts ps). \<forall>p. ps_parts ps ! i = Some p \<longrightarrow> part_ok H ps i p)"

lemma NewPartSetFromHeader_inv: "unat (Total header) < 2 ^ 63 \<Longrightarrow> ps_inv H (NewPartSetFromHeader header)"
  by (auto simp: ps_inv_def NewPartSetFromHeader_def ba.tracks_new)

lemma present_insert:
  assumes "k < length xs" "xs ! k = None"
  shows "{i. i < length (xs[k := Some p]) \<and> xs[k := Some p] ! i \<noteq> None} = insert k {i. i < length xs \<and> xs ! i \<noteq> None}"
  using assms by (auto simp: nth_list_update)

lemma present_less:
  assumes "k < length xs" "xs ! k = None"
  shows "card {i. i < length xs \<and> xs ! i \<noteq> None} < length xs"
proof -
  have "{i. i < length xs \<and> xs ! i \<noteq> None} \<subset> {..<length xs}" using assms by blast
  from psubset_card_mono [OF finite_lessThan this] show ?thesis by simp
qed

lemma present_card: "card {i. i < length xs \<and> xs ! i \<noteq> None} = length xs \<longleftrightarrow> (\<forall>i < length xs. xs ! i \<noteq> None)"
proof -
  have "card {i. i < length xs \<and> xs ! i \<noteq> None} = card {..<length xs} \<longleftrightarrow> {i. i < length xs \<and> xs ! i \<noteq> None} = {..<length xs}"
    by (metis (no_types, lifting) card_subset_eq finite_lessThan lessThan_iff mem_Collect_eq subsetI)
  then show ?thesis by auto
qed

lemma IsComplete_iff: "ps_inv H ps \<Longrightarrow> PartSet_IsComplete ps \<longleftrightarrow> (\<forall>p \<in> set (ps_parts ps). p \<noteq> None)"
  using present_card [of "ps_parts ps"] unfolding PartSet_IsComplete_def word_unat_eq_iff ps_inv_def all_set_conv_all_nth by simp

lemma unat_inc: "unat x < 2 ^ 63 \<Longrightarrow> unat (x + 1) = Suc (unat x)" for x :: u64
  by (simp add: unat_word_ariths)

text \<open>The four outcomes of \<open>AddPart\<close>.\<close>

lemma AddPart_cases:
  assumes inv: "ps_inv H ps"
  shows "PartSet_AddPart H p ps =
      (if unat (part_Index p) \<ge> length (ps_parts ps) then Some ((False, Err ErrPartSetUnexpectedIndex), ps)
       else if ps_parts ps ! unat (part_Index p) \<noteq> None then Some ((False, NoError), ps)
       else if \<not> part_ok H ps (unat (part_Index p)) p then Some ((False, Err ErrPartSetInvalidProof), ps)
       else PartSet_AddPart H p ps)"
    and "unat (part_Index p) < length (ps_parts ps) \<Longrightarrow> ps_parts ps ! unat (part_Index p) = None \<Longrightarrow>
      part_ok H ps (unat (part_Index p)) p \<Longrightarrow> \<exists>ps'. PartSet_AddPart H p ps = Some ((True, NoError), ps') \<and> ps_inv H ps' \<and>
        ps_total ps' = ps_total ps \<and> ps_hash ps' = ps_hash ps \<and> ps_parts ps' = (ps_parts ps)[unat (part_Index p) := Some p]"
proof -
  let ?i = "unat (part_Index p)"
  have le: "part_Index p \<ge> ps_total ps \<longleftrightarrow> ?i \<ge> length (ps_parts ps)"
    using inv by (simp add: ps_inv_def word_le_nat_alt)
  show "PartSet_AddPart H p ps =
      (if ?i \<ge> length (ps_parts ps) then Some ((False, Err ErrPartSetUnexpectedIndex), ps)
       else if ps_parts ps ! ?i \<noteq> None then Some ((False, NoError), ps)
       else if \<not> part_ok H ps ?i p then Some ((False, Err ErrPartSetInvalidProof), ps)
       else PartSet_AddPart H p ps)"
    by (simp add: PartSet_AddPart_def le go_nth_def part_ok_def PartSet_Hash_def)
  assume i: "?i < length (ps_parts ps)" "ps_parts ps ! ?i = None" "part_ok H ps ?i p"
  have "ba.tracks (ps_partsBitArray ps) (ps_parts ps)" using inv by (simp add: ps_inv_def)
  then obtain b where b: "BitArray_SetIndex (ps_partsBitArray ps) (part_Index p) True = Some (True, b)"
    "ba.tracks b ((ps_parts ps)[?i := Some p])" by (rule ba.tracks_set [of _ _ "part_Index p" p]) (use i in auto)
  let ?ps = "ps\<lparr>ps_parts := (ps_parts ps)[?i := Some p], ps_partsBitArray := b, ps_count := ps_count ps + 1\<rparr>"
  have "card {i. i < length (ps_parts ps) \<and> ps_parts ps ! i \<noteq> None} < length (ps_parts ps)"
    by (rule present_less [OF i(1,2)])
  then have "unat (ps_count ps + 1) = Suc (unat (ps_count ps))"
    using inv by (intro unat_inc) (simp add: ps_inv_def)
  then have "ps_inv H ?ps"
    using inv i b(2) present_insert [OF i(1,2), of p] by (auto simp: ps_inv_def part_ok_def nth_list_update)
  moreover have "PartSet_AddPart H p ps = Some ((True, NoError), ?ps)"
    using i b(1) le by (simp add: PartSet_AddPart_def go_nth_def part_ok_def PartSet_Hash_def)
  ultimately show "\<exists>ps'. PartSet_AddPart H p ps = Some ((True, NoError), ps') \<and> ps_inv H ps' \<and>
      ps_total ps' = ps_total ps \<and> ps_hash ps' = ps_hash ps \<and> ps_parts ps' = (ps_parts ps)[?i := Some p]"
    by (intro exI [of _ ?ps]) simp
qed

lemma AddPart_counts:
  assumes "ps_inv H ps" "ps_inv H ps'" "i < length (ps_parts ps)" "ps_parts ps ! i = None" "ps_parts ps' = (ps_parts ps)[i := Some p]"
  shows "unat (ps_count ps') = Suc (unat (ps_count ps))"
  using assms(1,2) present_insert [OF assms(3,4), of p] assms(4) by (simp add: ps_inv_def assms(5))

lemma held_bits: "ps_inv H ps \<Longrightarrow> BitArray_GetIndex (ps_partsBitArray ps) j = Some (unat j < length (ps_parts ps) \<and> ps_parts ps ! unat j \<noteq> None)"
  unfolding ps_inv_def by (blast intro: ba.tracks_get)

section \<open>The reader\<close>

definition unread :: "PartSetReader \<Rightarrow> bytes" where
  "unread psr = psr_reader psr @ concat (map (part_Bytes \<circ> the) (drop (Suc (psr_i psr)) (psr_parts psr)))"

lemma unread_next:
  "psr_reader psr = [] \<Longrightarrow> Suc (psr_i psr) < length (psr_parts psr) \<Longrightarrow> psr_parts psr ! Suc (psr_i psr) = Some p \<Longrightarrow>
    unread (psr\<lparr>psr_i := Suc (psr_i psr), psr_reader := part_Bytes p\<rparr>) = unread psr"
  by (simp add: unread_def Cons_nth_drop_Suc [symmetric])

lemma Read_spec:
  "\<forall>p \<in> set (psr_parts psr). p \<noteq> None \<Longrightarrow>
    \<exists>err psr'. PartSetReader_Read n psr = Some ((take n (unread psr), err), psr') \<and>
      unread psr' = drop n (unread psr) \<and> psr_parts psr' = psr_parts psr \<and>
      (0 < n \<longrightarrow> (err = NoError \<longleftrightarrow> n \<le> length (unread psr)))"
proof (induction n psr rule: PartSetReader_Read.induct)
  case (1 n psr)
  let ?r = "psr_reader psr"
  consider "n \<le> length ?r" | "length ?r < n" "?r \<noteq> []" | "?r = []" "0 < n" "length (psr_parts psr) \<le> Suc (psr_i psr)"
    | p where "?r = []" "0 < n" "Suc (psr_i psr) < length (psr_parts psr)" "psr_parts psr ! Suc (psr_i psr) = Some p"
    using 1(3) by (metis gr_zeroI length_0_conv linorder_not_le not_None_eq nth_mem le_zero_eq list.size(3))
  then show ?case
  proof cases
    case 1
    then show ?thesis by (subst PartSetReader_Read.simps) (auto simp: reader_Read_def unread_def)
  next
    case 2
    have rr: "reader_Read (length ?r) ?r = ((?r, NoError), [])" using 2 by (simp add: reader_Read_def)
    let ?psr = "psr\<lparr>psr_reader := []\<rparr>"
    obtain err psr' where IH: "PartSetReader_Read (n - length ?r) ?psr = Some ((take (n - length ?r) (unread ?psr), err), psr')"
      "unread psr' = drop (n - length ?r) (unread ?psr)" "psr_parts psr' = psr_parts ?psr"
      "0 < n - length ?r \<longrightarrow> (err = NoError \<longleftrightarrow> n - length ?r \<le> length (unread ?psr))"
      using 1(1) [OF refl _ _ refl] 2 1(3) rr by auto
    have u: "unread psr = ?r @ unread ?psr" by (simp add: unread_def)
    have "PartSetReader_Read n psr = Some ((?r @ take (n - length ?r) (unread ?psr), err), psr')"
      using 2 rr IH(1) by (subst PartSetReader_Read.simps) (simp add: Let_def)
    then show ?thesis using 2 IH unfolding u by auto
  next
    case 3
    then show ?thesis by (subst PartSetReader_Read.simps) (auto simp: Let_def unread_def)
  next
    case (4 p)
    let ?psr = "psr\<lparr>psr_i := Suc (psr_i psr), psr_reader := part_Bytes p\<rparr>"
    have "PartSetReader_Read n psr = PartSetReader_Read n ?psr"
      using 4 by (subst PartSetReader_Read.simps) (simp add: Let_def)
    moreover have "unread ?psr = unread psr" by (rule unread_next [OF 4(1,3,4)])
    ultimately show ?thesis using 1(2) [OF refl _ _ _ 4(4)] 4 1(3) by simp
  qed
qed

section \<open>Sending parts in any order\<close>

definition receive :: "(rlp \<Rightarrow> bytes) \<Rightarrow> Part list \<Rightarrow> PartSet \<Rightarrow> PartSet option" where
  "receive H parts ps = go_for (\<lambda>p ps. map_option snd (PartSet_AddPart H p ps)) parts ps"

definition slots :: "(rlp \<Rightarrow> bytes) \<Rightarrow> bytes list \<Rightarrow> nat set \<Rightarrow> Part option list" where
  "slots H items I = map (\<lambda>i. if i \<in> I then Some (part_of H items i) else None) [0..<length items]"

lemma part_of_ok:
  assumes "\<And>v. H v \<noteq> []" "length items < 2 ^ 63 - 1" "i < length items" "ps_hash ps = merkle_root H items"
  shows "part_ok H ps i (part_of H items i)"
proof -
  have "unat (of_nat i :: u64) = i" using assms(2,3) by (intro unat_of_nat64) simp
  then show ?thesis
    using assms compute_proof [OF assms(2,3), of H] root_value(1) [of H items]
    by (simp add: part_ok_def part_of_def Part_Hash_def Verify_iff proof_of_def SimpleProof_ComputeRootHash_def)
qed

lemma receive_slots:
  assumes H: "\<And>v. H v \<noteq> []" and n: "length items < 2 ^ 63 - 1" and "ps_inv H ps" "ps_hash ps = merkle_root H items"
    "ps_parts ps = slots H items I" "\<forall>i \<in> set sent. i < length items"
  shows "\<exists>ps'. receive H (map (part_of H items) sent) ps = Some ps' \<and> ps_inv H ps' \<and> ps_hash ps' = ps_hash ps \<and>
    ps_total ps' = ps_total ps \<and> ps_parts ps' = slots H items (I \<union> set sent)"
  using assms(3-)
proof (induction sent arbitrary: ps I)
  case (Cons i js)
  have i: "i < length items" using Cons.prems by simp
  have u: "unat (part_Index (part_of H items i)) = i" using n i by (simp add: part_of_def unat_of_nat64)
  have len: "length (ps_parts ps) = length items" using Cons.prems by (simp add: slots_def)
  have at: "ps_parts ps ! i = (if i \<in> I then Some (part_of H items i) else None)" using Cons.prems i by (simp add: slots_def)
  have ok: "part_ok H ps i (part_of H items i)" by (rule part_of_ok [OF H n i Cons.prems(2)])
  have "\<exists>r ps1. PartSet_AddPart H (part_of H items i) ps = Some (r, ps1) \<and> ps_inv H ps1 \<and> ps_hash ps1 = ps_hash ps \<and>
      ps_total ps1 = ps_total ps \<and> ps_parts ps1 = slots H items (insert i I)"
  proof (cases "i \<in> I")
    case True
    then have "insert i I = I" by blast
    moreover have "PartSet_AddPart H (part_of H items i) ps = Some ((False, NoError), ps)"
      using AddPart_cases(1) [OF Cons.prems(1), of "part_of H items i"] u len at i True by simp
    ultimately show ?thesis using Cons.prems by auto
  next
    case False
    have "(ps_parts ps)[i := Some (part_of H items i)] = slots H items (insert i I)"
      unfolding Cons.prems(3) by (rule nth_equalityI) (auto simp: slots_def nth_list_update')
    then show ?thesis
      using AddPart_cases(2) [OF Cons.prems(1), of "part_of H items i"] u len at i False ok by fastforce
  qed
  then obtain r ps1 where ps1: "PartSet_AddPart H (part_of H items i) ps = Some (r, ps1)" "ps_inv H ps1"
    "ps_hash ps1 = ps_hash ps" "ps_total ps1 = ps_total ps" "ps_parts ps1 = slots H items (insert i I)" by blast
  from Cons.IH [of ps1 "insert i I"] ps1 Cons.prems show ?case by (simp add: receive_def)
qed (simp add: receive_def)




text \<open>What a receiver holds after any sequence of the sender's parts.\<close>

lemma transfer_unread:
  assumes "\<And>v. H v \<noteq> []" "0 < unat partSize" "length data + unat partSize < 2 ^ 63 - 1" "data \<noteq> []"
    "\<forall>i \<in> set sent. i < length (chunks data (unat partSize))"
  shows "\<exists>src ps. NewPartSetFromData H data partSize = Some src \<and>
    ps_parts src = map Some (map (part_of H (chunks data (unat partSize))) [0..<length (chunks data (unat partSize))]) \<and>
    receive H (map (part_of H (chunks data (unat partSize))) sent) (NewPartSetFromHeader (PartSet_Header (Some src))) = Some ps \<and>
    ps_parts ps = slots H (chunks data (unat partSize)) (set sent) \<and>
    (PartSet_IsComplete ps \<longleftrightarrow> {..<length (chunks data (unat partSize))} \<subseteq> set sent) \<and>
    (PartSet_IsComplete ps \<longrightarrow> (\<exists>psr. PartSet_GetReader ps = Some psr \<and> (\<forall>p \<in> set (psr_parts psr). p \<noteq> None) \<and> unread psr = data))"
proof -
  let ?cs = "chunks data (unat partSize)"
  let ?n = "length ?cs"
  have n: "?n < 2 ^ 63 - 1"
    using assms(2,3) div_le_dividend [of "length data + unat partSize - 1" "unat partSize"] unfolding length_chunks by linarith
  have un: "unat (of_nat ?n :: u64) = ?n" using n by (intro unat_of_nat64) simp
  obtain bits where src: "NewPartSetFromData H data partSize =
      Some \<lparr>ps_total = of_nat ?n, ps_hash = merkle_root H ?cs, ps_parts = map (\<lambda>i. Some (part_of H ?cs i)) [0..<?n],
        ps_partsBitArray = bits, ps_count = of_nat ?n\<rparr>"
    using NewPartSetFromData_eq(2) [OF assms(2) _ assms(4), of H] assms(3) by auto
  let ?src = "\<lparr>ps_total = of_nat ?n, ps_hash = merkle_root H ?cs, ps_parts = map (\<lambda>i. Some (part_of H ?cs i)) [0..<?n],
        ps_partsBitArray = bits, ps_count = of_nat ?n\<rparr>"
  let ?ps0 = "NewPartSetFromHeader (PartSet_Header (Some ?src))"
  have "ps_inv H ?ps0" by (rule NewPartSetFromHeader_inv) (use n un in \<open>simp add: PartSet_Header_def\<close>)
  moreover have "ps_hash ?ps0 = merkle_root H ?cs" "ps_parts ?ps0 = slots H ?cs {}"
    using un by (auto simp: NewPartSetFromHeader_def PartSet_Header_def slots_def intro!: nth_equalityI)
  ultimately obtain ps where ps: "receive H (map (part_of H ?cs) sent) ?ps0 = Some ps" "ps_inv H ps" "ps_parts ps = slots H ?cs (set sent)"
    using receive_slots [where H = H and I = "{}" and ps = ?ps0, OF assms(1) n _ _ _ assms(5)] by auto
  have full: "PartSet_IsComplete ps \<longleftrightarrow> {..<?n} \<subseteq> set sent"
    unfolding IsComplete_iff [OF ps(2)] ps(3) by (auto simp: slots_def split: if_splits)
  have "\<exists>psr. PartSet_GetReader ps = Some psr \<and> (\<forall>p \<in> set (psr_parts psr). p \<noteq> None) \<and> unread psr = data"
    if c: "PartSet_IsComplete ps"
  proof -
    have parts: "ps_parts ps = map (\<lambda>i. Some (part_of H ?cs i)) [0..<?n]"
      unfolding ps(3) using full c by (auto simp: slots_def)
    have "0 < ?n" using chunks_eq_Nil [OF assms(2), of data] assms(4) by simp
    let ?psr = "\<lparr>psr_i = 0, psr_parts = ps_parts ps, psr_reader = part_Bytes (part_of H ?cs 0)\<rparr>"
    have "[0..<?n] = 0 # [Suc 0..<?n]" using \<open>0 < ?n\<close> by (simp add: upt_conv_Cons)
    then have m: "map (part_Bytes \<circ> the) (ps_parts ps) = part_Bytes (part_of H ?cs 0) # map (part_Bytes \<circ> the) (drop (Suc 0) (ps_parts ps))"
      unfolding parts by simp
    have "map (part_Bytes \<circ> the) (ps_parts ps) = ?cs" unfolding parts by (auto simp: part_of_def intro!: nth_equalityI)
    moreover have "unread ?psr = concat (map (part_Bytes \<circ> the) (ps_parts ps))" unfolding m by (simp add: unread_def)
    ultimately have "unread ?psr = data" using concat_chunks [OF assms(2), of data] by simp
    moreover have "\<forall>p \<in> set (psr_parts ?psr). p \<noteq> None" by (auto simp: parts)
    moreover have "PartSet_GetReader ps = Some ?psr"
      using c \<open>0 < ?n\<close> by (simp add: PartSet_GetReader_def NewPartSetReader_def go_nth_def parts)
    ultimately show ?thesis by blast
  qed
  then show ?thesis using src ps full by (intro exI [of _ ?src] exI [of _ ps]) simp
qed

section \<open>Properties\<close>

text \<open>
  C30: data cut into parts can be sent in any order, with repetitions. A set made from the header of
  the sender's set and given any sequence of the sender's parts never panics, holds exactly the parts
  it was given, is complete exactly when all of them came, and then its reader gives the data back.
\<close>

theorem part_set_transfer:
  assumes "\<And>v. H v \<noteq> []" "0 < unat partSize" "length data + unat partSize < 2 ^ 63 - 1" "data \<noteq> []"
    "\<forall>i \<in> set sent. i < length (chunks data (unat partSize))"
  shows "\<exists>src ps. NewPartSetFromData H data partSize = Some src \<and> ps_parts src = map Some (map (part_of H (chunks data (unat partSize))) [0..<length (chunks data (unat partSize))]) \<and>
    receive H (map (part_of H (chunks data (unat partSize))) sent) (NewPartSetFromHeader (PartSet_Header (Some src))) = Some ps \<and>
    ps_parts ps = slots H (chunks data (unat partSize)) (set sent) \<and>
    (PartSet_IsComplete ps \<longleftrightarrow> {..<length (chunks data (unat partSize))} \<subseteq> set sent) \<and>
    (PartSet_IsComplete ps \<longrightarrow> (\<exists>psr psr'. PartSet_GetReader ps = Some psr \<and>
       PartSetReader_Read (length data) psr = Some ((data, NoError), psr')))"
proof -
  obtain src ps where ps: "NewPartSetFromData H data partSize = Some src"
    "ps_parts src = map Some (map (part_of H (chunks data (unat partSize))) [0..<length (chunks data (unat partSize))])"
    "receive H (map (part_of H (chunks data (unat partSize))) sent) (NewPartSetFromHeader (PartSet_Header (Some src))) = Some ps"
    "ps_parts ps = slots H (chunks data (unat partSize)) (set sent)"
    "PartSet_IsComplete ps \<longleftrightarrow> {..<length (chunks data (unat partSize))} \<subseteq> set sent"
    "PartSet_IsComplete ps \<longrightarrow> (\<exists>psr. PartSet_GetReader ps = Some psr \<and> (\<forall>p \<in> set (psr_parts psr). p \<noteq> None) \<and> unread psr = data)"
    using transfer_unread [where H = H, OF assms] by blast
  have read: "\<exists>psr'. PartSetReader_Read (length data) psr = Some ((data, NoError), psr')"
    if "\<forall>p \<in> set (psr_parts psr). p \<noteq> None" "unread psr = data" for psr
    using Read_spec [OF that(1), of "length data"] that(2) assms(4) by auto
  have "\<exists>psr psr'. PartSet_GetReader ps = Some psr \<and> PartSetReader_Read (length data) psr = Some ((data, NoError), psr')"
    if c: "PartSet_IsComplete ps"
  proof -
    obtain psr where psr: "PartSet_GetReader ps = Some psr" "\<forall>p \<in> set (psr_parts psr). p \<noteq> None" "unread psr = data"
      using ps(6) c by blast
    then show ?thesis using read [OF psr(2,3)] by blast
  qed
  then have "PartSet_IsComplete ps \<longrightarrow> (\<exists>psr psr'. PartSet_GetReader ps = Some psr \<and>
      PartSetReader_Read (length data) psr = Some ((data, NoError), psr'))" ..
  then show ?thesis using ps(1-5) by (intro exI [of _ src] exI [of _ ps] conjI)
qed

theorem part_set_transfer_witness:
  "\<exists>src ps. NewPartSetFromData demo_hash [7, 8, 9] 2 = Some src \<and>
     receive demo_hash (map (part_of demo_hash [[7, 8], [9]]) [1, 0, 1]) (NewPartSetFromHeader (PartSet_Header (Some src))) = Some ps \<and>
     PartSet_IsComplete ps \<and>
     (\<exists>psr psr'. PartSet_GetReader ps = Some psr \<and> PartSetReader_Read 3 psr = Some (([7, 8, 9], NoError), psr'))"
proof -
  have c: "chunks [7, 8, 9] (unat (2 :: u64)) = [[7, 8], [9]]" by (simp add: chunks_def)
  have "{..<length [[7, 8], [9 :: byte]]} \<subseteq> set [1, 0, 1]" by auto
  then show ?thesis
    using part_set_transfer [where H = demo_hash and partSize = 2 and data = "[7, 8, 9]" and sent = "[1, 0, 1]", OF demo_hash_nonempty]
    unfolding c by (auto simp: numeral_3_eq_3)
qed

text \<open>
  C35: what \<open>AddPart\<close> does with any part. An index that is too large and a proof that does not verify
  are errors, a part that is there already is not added again, and each of these leaves the set as
  it is. Any other part is accepted: it alone is put in its place, and the count grows by one. It
  never panics and keeps the invariant, so that the bits afterwards are those of the parts held and
  the set is complete exactly when every place is filled.
\<close>

theorem AddPart_exact:
  assumes "ps_inv H ps"
  shows "\<exists>res ps'. PartSet_AddPart H p ps = Some (res, ps') \<and>
    (if unat (part_Index p) \<ge> length (ps_parts ps) then res = (False, Err ErrPartSetUnexpectedIndex) \<and> ps' = ps
     else if ps_parts ps ! unat (part_Index p) \<noteq> None then res = (False, NoError) \<and> ps' = ps
     else if SimpleProof_Verify H (part_Proof p) (Some (ps_hash ps)) (Some (Part_Hash H p)) \<noteq> NoError
       then res = (False, Err ErrPartSetInvalidProof) \<and> ps' = ps
     else res = (True, NoError) \<and> ps_parts ps' = (ps_parts ps)[unat (part_Index p) := Some p] \<and>
       unat (ps_count ps') = Suc (unat (ps_count ps))) \<and>
    ps_inv H ps' \<and> ps_total ps' = ps_total ps \<and> ps_hash ps' = ps_hash ps \<and>
    (\<forall>j. BitArray_GetIndex (ps_partsBitArray ps') j = Some (unat j < length (ps_parts ps) \<and> ps_parts ps' ! unat j \<noteq> None)) \<and>
    (PartSet_IsComplete ps' \<longleftrightarrow> (\<forall>q \<in> set (ps_parts ps'). q \<noteq> None))"
proof (cases "unat (part_Index p) < length (ps_parts ps) \<and> ps_parts ps ! unat (part_Index p) = None \<and>
    part_ok H ps (unat (part_Index p)) p")
  case True
  then obtain ps' where ps': "PartSet_AddPart H p ps = Some ((True, NoError), ps')" "ps_inv H ps'"
    "ps_total ps' = ps_total ps" "ps_hash ps' = ps_hash ps" "ps_parts ps' = (ps_parts ps)[unat (part_Index p) := Some p]"
    using AddPart_cases(2) [OF assms, of p] by blast
  have c: "unat (ps_count ps') = Suc (unat (ps_count ps))" by (rule AddPart_counts [OF assms ps'(2) _ _ ps'(5)]) (use True in auto)
  show ?thesis using True ps' c IsComplete_iff [OF ps'(2)] held_bits [OF ps'(2)]
    by (intro exI [of _ "(True, NoError)"] exI [of _ ps']) (simp add: part_ok_def)
next
  case False
  then have "\<exists>res. PartSet_AddPart H p ps = Some (res, ps) \<and>
    (if unat (part_Index p) \<ge> length (ps_parts ps) then res = (False, Err ErrPartSetUnexpectedIndex)
     else if ps_parts ps ! unat (part_Index p) \<noteq> None then res = (False, NoError)
     else res = (False, Err ErrPartSetInvalidProof) \<and> \<not> part_ok H ps (unat (part_Index p)) p)"
    using AddPart_cases(1) [OF assms, of p] by (auto split: if_splits)
  then show ?thesis using assms IsComplete_iff [OF assms] held_bits [OF assms]
    by (elim exE, intro exI, intro conjI) (auto simp: part_ok_def split: if_splits)
qed

theorem AddPart_exact_witness:
  "\<exists>ps. PartSet_AddPart demo_hash (part_of demo_hash [[3]] 0) (NewPartSetFromHeader \<lparr>Total = 1, psh_Hash = merkle_root demo_hash [[3]]\<rparr>) =
      Some ((True, NoError), ps) \<and> ps_parts ps = [Some (part_of demo_hash [[3]] 0)] \<and> unat (ps_count ps) = 1 \<and> PartSet_IsComplete ps"
proof -
  let ?ps = "NewPartSetFromHeader \<lparr>Total = 1, psh_Hash = merkle_root demo_hash [[3]]\<rparr>"
  have i: "ps_inv demo_hash ?ps" by (rule NewPartSetFromHeader_inv) simp
  have "part_ok demo_hash ?ps 0 (part_of demo_hash [[3]] 0)"
    by (rule part_of_ok [OF demo_hash_nonempty]) (simp_all add: NewPartSetFromHeader_def)
  moreover have "ps_parts ?ps = [None]" "ps_count ?ps = 0" "part_Index (part_of demo_hash [[3]] 0) = 0"
    by (simp_all add: NewPartSetFromHeader_def part_of_def)
  ultimately show ?thesis using AddPart_exact [OF i, of "part_of demo_hash [[3]] 0"] by (auto simp: part_ok_def)
qed



definition misplaced :: Part where
  "misplaced = (part_of demo_hash [[7], [8]] 0)\<lparr>part_Index := 1\<rparr>"

text \<open>
  The place is not checked. A proof carries its own index and total, and \<open>AddPart\<close> does not
  compare them with the index of the part or the total of the set: the first part of two is
  accepted as the second, with its genuine proof, and the set becomes complete with the wrong data.
\<close>

theorem AddPart_accepts_misplaced:
  "case receive demo_hash [misplaced, part_of demo_hash [[7], [8]] 0]
      (NewPartSetFromHeader \<lparr>Total = 2, psh_Hash = merkle_root demo_hash [[7], [8]]\<rparr>) of
     None \<Rightarrow> False
   | Some ps \<Rightarrow> PartSet_IsComplete ps \<and>
       (case PartSet_GetReader ps of None \<Rightarrow> False | Some psr \<Rightarrow>
          map_option fst (PartSetReader_Read 2 psr) = Some ([7, 7], NoError))"
  by code_simp

end
