(* ===== verification/Priv_Validator.thy ===== *)
theory Priv_Validator
  imports Part_Set Vote_Set "HOL-Library.Product_Lexorder"
begin

text \<open>
  The local validator and the agent of the consensus state,
  \<^verbatim>\<open>consensus/tbft/types/priv_validator.go\<close>. A validator remembers the height, round and step it signed
  last, with the sign bytes and the signature, and refuses to go back. A call that changes its
  argument returns it; panics are \<^term>\<open>None\<close>. The lock of the source orders the calls.
\<close>

section \<open>The local validator\<close>

text \<open>What the file uses of the codec, the clock and the key: each may fail.\<close>

record keyring =
  parseVote :: "bytes \<Rightarrow> CanonicalJSONVote option"
  parseProposal :: "bytes \<Rightarrow> CanonicalJSONProposal option"
  parseTime :: "string \<Rightarrow> int option"
  keySign :: "bytes \<Rightarrow> bytes \<Rightarrow> bytes option"
  keyPublic :: "bytes \<Rightarrow> pubkey"

abbreviation stepNone :: byte where "stepNone \<equiv> 0"
abbreviation stepPropose :: byte where "stepPropose \<equiv> 1"
abbreviation stepPrevote :: byte where "stepPrevote \<equiv> 2"
abbreviation stepPrecommit :: byte where "stepPrecommit \<equiv> 3"

datatype priv_error =
  ErrHeightRegression | ErrRoundRegression | ErrStepRegression | ErrNoLastSignature | ErrConflictingData | ErrSignFailed

definition voteToStep :: "Vote \<Rightarrow> byte option" where
  "voteToStep vote =
     (if Type vote = VoteTypePrevote then Some stepPrevote
      else if Type vote = VoteTypePrecommit then Some stepPrecommit
      else None)"

record privValidator =
  PrivKey :: bytes
  LastHeight :: u64
  LastRound :: u64
  LastStep :: byte
  LastSignature :: "bytes option"
  LastSignBytes :: "bytes option"

definition NewPrivValidator :: "bytes \<Rightarrow> privValidator" where
  "NewPrivValidator priv =
     \<lparr>PrivKey = priv, LastHeight = 0, LastRound = 0, LastStep = stepNone, LastSignature = None, LastSignBytes = None\<rparr>"

definition privValidator_Reset :: "privValidator \<Rightarrow> privValidator" where
  "privValidator_Reset pv =
     pv\<lparr>LastHeight := 0, LastRound := 0, LastStep := 0, LastSignature := None, LastSignBytes := None\<rparr>"

definition privValidator_saveSigned :: "u64 \<Rightarrow> int \<Rightarrow> byte \<Rightarrow> bytes option \<Rightarrow> bytes option \<Rightarrow> privValidator \<Rightarrow> privValidator" where
  "privValidator_saveSigned height rnd step signBytes sig pv =
     pv\<lparr>LastHeight := height, LastRound := to_uint rnd, LastStep := step, LastSignature := sig, LastSignBytes := signBytes\<rparr>"

definition privValidator_GetAddress :: "env \<Rightarrow> keyring \<Rightarrow> privValidator \<Rightarrow> bytes" where
  "privValidator_GetAddress E K pv = keyAddress E (keyPublic K (PrivKey pv))"

definition privValidator_GetPubKey :: "keyring \<Rightarrow> privValidator \<Rightarrow> pubkey" where
  "privValidator_GetPubKey K pv = keyPublic K (PrivKey pv)"

definition privValidator_checkHRS :: "u64 \<Rightarrow> int \<Rightarrow> byte \<Rightarrow> privValidator \<Rightarrow> (bool \<times> priv_error go_error) option" where
  "privValidator_checkHRS height rnd step pv =
     (if LastHeight pv > height then Some (False, Err ErrHeightRegression)
      else if LastHeight pv = height then
        (if to_int (LastRound pv) > rnd then Some (False, Err ErrRoundRegression)
         else if to_int (LastRound pv) = rnd then
           (if LastStep pv > step then Some (False, Err ErrStepRegression)
            else if LastStep pv = step then
              (if LastSignBytes pv \<noteq> None
               then (if LastSignature pv = None then None else Some (True, NoError))
               else Some (False, Err ErrNoLastSignature))
            else Some (False, NoError))
         else Some (False, NoError))
      else Some (False, NoError))"

text \<open>The comparison with the timestamps set to one value; the unmarshalled bytes must parse.\<close>

definition checkVotesOnlyDifferByTimestamp :: "env \<Rightarrow> keyring \<Rightarrow> int \<Rightarrow> bytes \<Rightarrow> bytes \<Rightarrow> (int \<times> bool) option" where
  "checkVotesOnlyDifferByTimestamp E K now lastSignBytes newSignBytes = do {
     lastVote \<leftarrow> parseVote K lastSignBytes;
     newVote \<leftarrow> parseVote K newSignBytes;
     lastTime \<leftarrow> parseTime K (cv_Timestamp lastVote);
     let t = CanonicalTime E now;
     Some (lastTime, jsonVote E (newVote\<lparr>cv_Timestamp := t\<rparr>) = jsonVote E (lastVote\<lparr>cv_Timestamp := t\<rparr>))
   }"

definition checkProposalsOnlyDifferByTimestamp :: "env \<Rightarrow> keyring \<Rightarrow> int \<Rightarrow> bytes \<Rightarrow> bytes \<Rightarrow> (int \<times> bool) option" where
  "checkProposalsOnlyDifferByTimestamp E K now lastSignBytes newSignBytes = do {
     lastProposal \<leftarrow> parseProposal K lastSignBytes;
     newProposal \<leftarrow> parseProposal K newSignBytes;
     lastTime \<leftarrow> parseTime K (cp_Timestamp lastProposal);
     let t = CanonicalTime E now;
     Some (lastTime, jsonProposal E (newProposal\<lparr>cp_Timestamp := t\<rparr>) = jsonProposal E (lastProposal\<lparr>cp_Timestamp := t\<rparr>))
   }"

definition privValidator_signVote ::
  "env \<Rightarrow> keyring \<Rightarrow> int \<Rightarrow> string \<Rightarrow> Vote \<Rightarrow> privValidator \<Rightarrow> (priv_error go_error \<times> Vote \<times> privValidator) option" where
  "privValidator_signVote E K now chainID vote pv = do {
     step \<leftarrow> voteToStep vote;
     let signBytes = Vote_SignBytes E chainID vote;
     (sameHRS, err) \<leftarrow> privValidator_checkHRS (Height vote) (to_int (Round vote)) step pv;
     if err \<noteq> NoError then Some (err, vote, pv)
     else if sameHRS then
       (if signBytes = slice_bytes (LastSignBytes pv)
        then Some (NoError, vote\<lparr>Signature := slice_bytes (LastSignature pv)\<rparr>, pv)
        else do {
          (timestamp, ok) \<leftarrow> checkVotesOnlyDifferByTimestamp E K now (slice_bytes (LastSignBytes pv)) signBytes;
          Some (if ok then (NoError, vote\<lparr>Timestamp := timestamp, Signature := slice_bytes (LastSignature pv)\<rparr>, pv)
                else (Err ErrConflictingData, vote, pv))
        })
     else (case keySign K (PrivKey pv) signBytes of
             None \<Rightarrow> Some (Err ErrSignFailed, vote, pv)
           | Some sig \<Rightarrow> Some (NoError, vote\<lparr>Signature := sig\<rparr>,
               privValidator_saveSigned (Height vote) (to_int (Round vote)) step (Some signBytes) (Some sig) pv))
   }"

definition privValidator_signProposal ::
  "env \<Rightarrow> keyring \<Rightarrow> int \<Rightarrow> string \<Rightarrow> Proposal \<Rightarrow> privValidator \<Rightarrow> (priv_error go_error \<times> Proposal \<times> privValidator) option" where
  "privValidator_signProposal E K now chainID proposal pv = do {
     let step = stepPropose;
     let signBytes = Proposal_SignBytes E chainID proposal;
     (sameHRS, err) \<leftarrow> privValidator_checkHRS (pHeight proposal) (to_int (pRound proposal)) step pv;
     if err \<noteq> NoError then Some (err, proposal, pv)
     else if sameHRS then
       (if signBytes = slice_bytes (LastSignBytes pv)
        then Some (NoError, proposal\<lparr>pSignature := slice_bytes (LastSignature pv)\<rparr>, pv)
        else do {
          (timestamp, ok) \<leftarrow> checkProposalsOnlyDifferByTimestamp E K now (slice_bytes (LastSignBytes pv)) signBytes;
          Some (if ok then (NoError, proposal\<lparr>pTimestamp := timestamp, pSignature := slice_bytes (LastSignature pv)\<rparr>, pv)
                else (Err ErrConflictingData, proposal, pv))
        })
     else (case keySign K (PrivKey pv) signBytes of
             None \<Rightarrow> Some (Err ErrSignFailed, proposal, pv)
           | Some sig \<Rightarrow> Some (NoError, proposal\<lparr>pSignature := sig\<rparr>,
               privValidator_saveSigned (pHeight proposal) (to_int (pRound proposal)) step (Some signBytes) (Some sig) pv))
   }"

definition privValidator_SignVote ::
  "env \<Rightarrow> keyring \<Rightarrow> int \<Rightarrow> string \<Rightarrow> Vote \<Rightarrow> privValidator \<Rightarrow> (priv_error go_error \<times> Vote \<times> privValidator) option" where
  "privValidator_SignVote E K now chainID vote pv = privValidator_signVote E K now chainID vote pv"

definition privValidator_SignProposal ::
  "env \<Rightarrow> keyring \<Rightarrow> int \<Rightarrow> string \<Rightarrow> Proposal \<Rightarrow> privValidator \<Rightarrow> (priv_error go_error \<times> Proposal \<times> privValidator) option" where
  "privValidator_SignProposal E K now chainID proposal pv = privValidator_signProposal E K now chainID proposal pv"

section \<open>The agent of the consensus state\<close>

text \<open>The proxy to the node is not part of the package; blocks are the values it hands out.\<close>

record CommitteeMember =
  Coinbase :: bytes
  CommitteeBase :: bytes
  Publickey :: bytes
  Flag :: "32 word"
  MType :: "32 word"

record 'blk agent =
  GetCurrentHeight :: nat
  FetchFastBlock :: "u64 \<Rightarrow> CommitteeMember list \<Rightarrow> 'blk option \<times> string go_error"
  VerifyFastBlock :: "'blk \<Rightarrow> bool \<Rightarrow> PbftSign option \<times> string go_error"
  BroadcastConsensus :: "'blk \<Rightarrow> string go_error"
  GetFastLastProposer :: bytes
  NumberU64 :: "'blk \<Rightarrow> u64"
  rlpEncode :: "'blk \<Rightarrow> bytes option"
  rlpDecode :: "bytes \<Rightarrow> 'blk option"
  aminoMarshal :: "bytes \<Rightarrow> bytes option"
  aminoUnmarshal :: "bytes \<Rightarrow> bytes option"

datatype agent_error =
  ErrOverHeightRange | ErrNoMoreHeight | ErrBlockNotHave | ErrParam | ErrValidatorsNil | ErrPeerNotValidator
  | ErrNotComplete | ErrCodec | ErrAgent string

definition agent_result :: "string go_error \<Rightarrow> agent_error go_error" where
  "agent_result err = (case err of NoError \<Rightarrow> NoError | Err e \<Rightarrow> Err (ErrAgent e))"

record StateAgentImpl =
  sa_Priv :: "privValidator option"
  sa_Validators :: "ValidatorSet option"
  sa_ids :: "string set option"
  sa_ChainID :: string
  sa_LastHeight :: u64
  sa_BeginHeight :: u64
  sa_EndHeight :: u64
  sa_CID :: u64

definition NewStateAgent ::
  "(bytes \<Rightarrow> string) \<Rightarrow> 'blk agent \<Rightarrow> string \<Rightarrow> ValidatorSet option \<Rightarrow> u64 \<Rightarrow> u64 \<Rightarrow> StateAgentImpl" where
  "NewStateAgent hex A chainID vals height cid =
     \<lparr>sa_Priv = None, sa_Validators = vals, sa_ids = ValidatorSet_MakeIDs hex vals, sa_ChainID = chainID,
      sa_LastHeight = of_nat (GetCurrentHeight A), sa_BeginHeight = height, sa_EndHeight = 0, sa_CID = cid\<rparr>"

abbreviation MaxBlockBytes :: nat where "MaxBlockBytes \<equiv> 1048510"

definition MakePartSet :: "(rlp \<Rightarrow> bytes) \<Rightarrow> 'blk agent \<Rightarrow> u64 \<Rightarrow> 'blk \<Rightarrow> (PartSet option \<times> agent_error go_error) option" where
  "MakePartSet RlpHash A partSize block = do {
     bzs \<leftarrow> rlpEncode A block;
     case aminoMarshal A bzs of
       None \<Rightarrow> Some (None, Err ErrCodec)
     | Some bz \<Rightarrow> do {
         ps \<leftarrow> NewPartSetFromData RlpHash bz partSize;
         Some (Some ps, NoError)
       }
   }"

text \<open>The decoder reads what the reader of the set delivers, up to the size limit.\<close>

definition MakeBlockFromPartSet :: "'blk agent \<Rightarrow> PartSet \<Rightarrow> ('blk option \<times> agent_error go_error) option" where
  "MakeBlockFromPartSet A reader =
     (if PartSet_IsComplete reader then do {
        psr \<leftarrow> PartSet_GetReader reader;
        ((bz, _), _) \<leftarrow> PartSetReader_Read MaxBlockBytes psr;
        case aminoUnmarshal A bz of
          None \<Rightarrow> Some (None, Err ErrCodec)
        | Some b \<Rightarrow> (case rlpDecode A b of
                      None \<Rightarrow> Some (None, Err ErrCodec)
                    | Some block \<Rightarrow> Some (Some block, NoError))
      }
      else Some (None, Err ErrNotComplete))"

definition StateAgentImpl_PrivReset :: "StateAgentImpl \<Rightarrow> StateAgentImpl option" where
  "StateAgentImpl_PrivReset state = do {
     p \<leftarrow> sa_Priv state;
     Some (state\<lparr>sa_Priv := Some (privValidator_Reset p)\<rparr>)
   }"

definition StateAgentImpl_HasPeerID :: "string \<Rightarrow> StateAgentImpl \<Rightarrow> agent_error go_error" where
  "StateAgentImpl_HasPeerID peer state =
     (case sa_ids state of
        None \<Rightarrow> Err ErrValidatorsNil
      | Some ids \<Rightarrow> if peer \<in> ids then NoError else Err ErrPeerNotValidator)"

definition StateAgentImpl_SetEndHeight :: "u64 \<Rightarrow> StateAgentImpl \<Rightarrow> StateAgentImpl" where
  "StateAgentImpl_SetEndHeight h state = state\<lparr>sa_EndHeight := h\<rparr>"

definition StateAgentImpl_SetBeginHeight :: "u64 \<Rightarrow> StateAgentImpl \<Rightarrow> StateAgentImpl" where
  "StateAgentImpl_SetBeginHeight h state =
     (if sa_EndHeight state > 0 \<and> h < sa_EndHeight state then state\<lparr>sa_BeginHeight := h\<rparr> else state)"

definition StateAgentImpl_GetChainID :: "StateAgentImpl \<Rightarrow> string" where
  "StateAgentImpl_GetChainID state = sa_ChainID state"

definition StateAgentImpl_SetPrivValidator :: "privValidator \<Rightarrow> StateAgentImpl \<Rightarrow> StateAgentImpl" where
  "StateAgentImpl_SetPrivValidator priv state = state\<lparr>sa_Priv := Some priv\<rparr>"

definition StateAgentImpl_UpdateValidator ::
  "(bytes \<Rightarrow> string) \<Rightarrow> ValidatorSet option \<Rightarrow> bool \<Rightarrow> StateAgentImpl \<Rightarrow> StateAgentImpl" where
  "StateAgentImpl_UpdateValidator hex vset makeids state =
     (let state = state\<lparr>sa_Validators := vset\<rparr>
      in if makeids then state\<lparr>sa_ids := ValidatorSet_MakeIDs hex (sa_Validators state)\<rparr> else state)"

definition StateAgentImpl_MakePartSet ::
  "(rlp \<Rightarrow> bytes) \<Rightarrow> 'blk agent \<Rightarrow> u64 \<Rightarrow> 'blk \<Rightarrow> (PartSet option \<times> agent_error go_error) option" where
  "StateAgentImpl_MakePartSet RlpHash A partSize block = MakePartSet RlpHash A partSize block"

text \<open>
  The argument is the list \<open>Infos\<close> of the switch, if there is one. \<open>MakeBlock\<close> reads the number of the
  block it was given when there was no error, nil or not.
\<close>

definition StateAgentImpl_MakeBlock ::
  "'blk agent \<Rightarrow> CommitteeMember list option \<Rightarrow> StateAgentImpl \<Rightarrow> ('blk option \<times> agent_error go_error) option" where
  "StateAgentImpl_MakeBlock A v state =
     (let info = (case v of None \<Rightarrow> [] | Some infos \<Rightarrow> infos);
          (block, err) = FetchFastBlock A (sa_CID state) info
      in if err \<noteq> NoError then Some (None, agent_result err)
         else do {
           b \<leftarrow> block;
           Some (if sa_EndHeight state > 0 \<and> NumberU64 A b > sa_EndHeight state then (None, Err ErrOverHeightRange)
                 else if sa_BeginHeight state > NumberU64 A b then (None, Err ErrNoMoreHeight)
                 else (Some b, NoError))
         })"

definition StateAgentImpl_ConsensusCommit :: "'blk agent \<Rightarrow> 'blk option \<Rightarrow> agent_error go_error" where
  "StateAgentImpl_ConsensusCommit A block =
     (case block of None \<Rightarrow> Err ErrParam | Some b \<Rightarrow> agent_result (BroadcastConsensus A b))"

text \<open>The log statement reads \<open>sign.FastHeight\<close> before the test for nil.\<close>

definition StateAgentImpl_ValidateBlock ::
  "'blk agent \<Rightarrow> 'blk option \<Rightarrow> bool \<Rightarrow> StateAgentImpl \<Rightarrow> (KeepBlockSign option \<times> agent_error go_error) option" where
  "StateAgentImpl_ValidateBlock A block result state =
     (case block of
        None \<Rightarrow> Some (None, Err ErrBlockNotHave)
      | Some b \<Rightarrow>
          if sa_EndHeight state > 0 \<and> NumberU64 A b > sa_EndHeight state then Some (None, Err ErrOverHeightRange)
          else if sa_BeginHeight state > NumberU64 A b then Some (None, Err ErrNoMoreHeight)
          else
            let (sign, err) = VerifyFastBlock A b result
            in do {
              s \<leftarrow> sign;
              Some (Some \<lparr>kResult = ucast (sResult s), kSign = Sign s, kHash = FastHash s\<rparr>, agent_result err)
            })"

definition StateAgentImpl_GetValidator :: "StateAgentImpl \<Rightarrow> ValidatorSet option" where
  "StateAgentImpl_GetValidator state = sa_Validators state"

definition StateAgentImpl_GetLastValidator :: "StateAgentImpl \<Rightarrow> ValidatorSet option" where
  "StateAgentImpl_GetLastValidator state = sa_Validators state"

definition StateAgentImpl_GetLastBlockHeight :: "'blk agent \<Rightarrow> StateAgentImpl \<Rightarrow> u64 \<times> StateAgentImpl" where
  "StateAgentImpl_GetLastBlockHeight A state =
     (let state = state\<lparr>sa_LastHeight := of_nat (GetCurrentHeight A)\<rparr> in (sa_LastHeight state, state))"

definition StateAgentImpl_GetAddress :: "env \<Rightarrow> keyring \<Rightarrow> StateAgentImpl \<Rightarrow> bytes option" where
  "StateAgentImpl_GetAddress E K state = map_option (privValidator_GetAddress E K) (sa_Priv state)"

definition StateAgentImpl_GetPubKey :: "keyring \<Rightarrow> StateAgentImpl \<Rightarrow> pubkey option" where
  "StateAgentImpl_GetPubKey K state = map_option (privValidator_GetPubKey K) (sa_Priv state)"

definition StateAgentImpl_SignVote ::
  "env \<Rightarrow> keyring \<Rightarrow> int \<Rightarrow> string \<Rightarrow> Vote \<Rightarrow> StateAgentImpl \<Rightarrow> (priv_error go_error \<times> Vote \<times> StateAgentImpl) option" where
  "StateAgentImpl_SignVote E K now chainID vote state = do {
     pv \<leftarrow> sa_Priv state;
     (err, vote, pv) \<leftarrow> privValidator_SignVote E K now chainID vote pv;
     Some (err, vote, state\<lparr>sa_Priv := Some pv\<rparr>)
   }"

definition StateAgentImpl_SignProposal ::
  "env \<Rightarrow> keyring \<Rightarrow> int \<Rightarrow> string \<Rightarrow> Proposal \<Rightarrow> StateAgentImpl \<Rightarrow> (priv_error go_error \<times> Proposal \<times> StateAgentImpl) option" where
  "StateAgentImpl_SignProposal E K now chainID proposal state = do {
     pv \<leftarrow> sa_Priv state;
     (err, proposal, pv) \<leftarrow> privValidator_signProposal E K now chainID proposal pv;
     Some (err, proposal, state\<lparr>sa_Priv := Some pv\<rparr>)
   }"

section \<open>Height, round and step only grow\<close>

type_synonym hrs = "u64 \<times> int \<times> byte"

definition last_hrs :: "privValidator \<Rightarrow> hrs" where
  "last_hrs pv = (LastHeight pv, to_int (LastRound pv), LastStep pv)"

text \<open>A signature is kept with the bytes it was made for.\<close>

definition pv_inv :: "keyring \<Rightarrow> privValidator \<Rightarrow> bool" where
  "pv_inv K pv \<longleftrightarrow> (case LastSignBytes pv of
     None \<Rightarrow> LastSignature pv = None
   | Some sb \<Rightarrow> LastSignature pv \<noteq> None \<and> keySign K (PrivKey pv) sb = LastSignature pv)"

lemma pv_inv_new [simp]: "pv_inv K (NewPrivValidator priv)"
  by (simp add: pv_inv_def NewPrivValidator_def)

lemma pv_inv_reset [simp]: "pv_inv K (privValidator_Reset pv)"
  by (simp add: pv_inv_def privValidator_Reset_def)

lemma checkHRS_eq:
  assumes "pv_inv K pv"
  shows "privValidator_checkHRS h r s pv =
    Some (if (h, r, s) < last_hrs pv
          then (False, Err (if h < LastHeight pv then ErrHeightRegression
                            else if r < to_int (LastRound pv) then ErrRoundRegression else ErrStepRegression))
          else if (h, r, s) = last_hrs pv \<and> LastSignBytes pv = None then (False, Err ErrNoLastSignature)
          else ((h, r, s) = last_hrs pv, NoError))"
  using assms by (auto simp: privValidator_checkHRS_def last_hrs_def pv_inv_def split: option.splits)

lemma last_hrs_saveSigned [simp]:
  "int64 r \<Longrightarrow> last_hrs (privValidator_saveSigned h r s sb sig pv) = (h, r, s)"
  by (simp add: last_hrs_def privValidator_saveSigned_def)

text \<open>
  What the two signing methods have in common: they refuse, or they return the signature that the
  validator then holds for exactly the requested height, round and step.
\<close>

definition signs :: "keyring \<Rightarrow> hrs \<Rightarrow> bytes \<Rightarrow> privValidator \<Rightarrow> priv_error go_error \<Rightarrow> bytes \<Rightarrow> privValidator \<Rightarrow> bool" where
  "signs K x sb pv err sig pv' \<longleftrightarrow> pv_inv K pv' \<and> PrivKey pv' = PrivKey pv \<and>
     (if err \<noteq> NoError then pv' = pv
      else last_hrs pv' = x \<and> LastSignature pv' = Some sig \<and>
        (if last_hrs pv = x then pv' = pv else last_hrs pv < x \<and> LastSignBytes pv' = Some sb))"

lemma signs_refuse: "pv_inv K pv \<Longrightarrow> signs K x sb pv (Err e) sig pv"
  by (simp add: signs_def)

lemma signs_again: "pv_inv K pv \<Longrightarrow> last_hrs pv = x \<Longrightarrow> LastSignature pv = Some sig \<Longrightarrow> signs K x sb pv NoError sig pv"
  by (simp add: signs_def)

lemma signs_fresh:
  assumes "last_hrs pv < (h, r, s)" "int64 r" "keySign K (PrivKey pv) sb = Some sig"
  shows "signs K (h, r, s) sb pv NoError sig (privValidator_saveSigned h r s (Some sb) (Some sig) pv)"
proof -
  have "last_hrs pv \<noteq> (h, r, s)" using assms(1) by (metis less_irrefl)
  then show ?thesis using assms by (simp add: signs_def pv_inv_def del: less_prod_simp) (simp add: privValidator_saveSigned_def)
qed

text \<open>The cases of a request with respect to what was signed last.\<close>

lemma request_cases:
  assumes "pv_inv K pv"
  obtains (stale) e where "privValidator_checkHRS h r s pv = Some (False, Err e)"
  | (same) sb sig where "privValidator_checkHRS h r s pv = Some (True, NoError)" "last_hrs pv = (h, r, s)"
      "LastSignBytes pv = Some sb" "LastSignature pv = Some sig"
  | (fresh) "privValidator_checkHRS h r s pv = Some (False, NoError)" "last_hrs pv < (h, r, s)"
proof -
  consider "(h, r, s) < last_hrs pv" | "(h, r, s) = last_hrs pv" "LastSignBytes pv = None"
    | sb sig where "(h, r, s) = last_hrs pv" "LastSignBytes pv = Some sb" "LastSignature pv = Some sig"
    | "last_hrs pv < (h, r, s)" "\<not> (h, r, s) < last_hrs pv" "(h, r, s) \<noteq> last_hrs pv"
    using assms neqE [of "(h, r, s)" "last_hrs pv"] less_asym [of "(h, r, s)" "last_hrs pv"]
    by (cases "LastSignBytes pv"; cases "LastSignature pv"; simp add: pv_inv_def del: less_prod_simp; blast)
  then show thesis
    by cases (auto simp del: less_prod_simp simp: checkHRS_eq [OF assms] intro: that)
qed

lemma signVote_signs:
  assumes inv: "pv_inv K pv" and step: "voteToStep v = Some s"
    and run: "privValidator_SignVote E K now chainID v pv = Some (err, v', pv')"
  shows "signs K (Height v, to_int (Round v), s) (Vote_SignBytes E chainID v) pv err (Signature v') pv'"
  using inv
proof (cases rule: request_cases [where h = "Height v" and r = "to_int (Round v)" and s = s, case_names stale same fresh, consumes 1])
  case (stale e)
  then show ?thesis
    using run inv by (auto simp: privValidator_SignVote_def privValidator_signVote_def step intro: signs_refuse)
next
  case (same sb sig)
  then show ?thesis
    using run inv by (auto simp: privValidator_SignVote_def privValidator_signVote_def step slice_bytes_def Let_def
      signs_refuse signs_again split: if_splits Option.bind_splits)
next
  case fresh
  then show ?thesis
    using run inv by (auto simp del: less_prod_simp simp: privValidator_SignVote_def privValidator_signVote_def step Let_def
      signs_refuse signs_fresh split: option.splits)
qed

lemma signProposal_signs:
  assumes inv: "pv_inv K pv" and run: "privValidator_signProposal E K now chainID p pv = Some (err, p', pv')"
  shows "signs K (pHeight p, to_int (pRound p), stepPropose) (Proposal_SignBytes E chainID p) pv err (pSignature p') pv'"
  using inv
proof (cases rule: request_cases [where h = "pHeight p" and r = "to_int (pRound p)" and s = stepPropose, case_names stale same fresh, consumes 1])
  case (stale e)
  then show ?thesis using run inv by (auto simp: privValidator_signProposal_def intro: signs_refuse)
next
  case (same sb sig)
  then show ?thesis
    using run inv by (auto simp: privValidator_signProposal_def slice_bytes_def Let_def
      signs_refuse signs_again split: if_splits Option.bind_splits)
next
  case fresh
  then show ?thesis
    using run inv by (auto simp del: less_prod_simp simp: privValidator_signProposal_def Let_def
      signs_refuse signs_fresh split: option.splits)
qed

section \<open>Runs\<close>

text \<open>
  The successful calls of a run: the height, round and step requested, the bytes the signature is
  for, and the signature returned in the vote or proposal.
\<close>

type_synonym sign_log = "(hrs \<times> bytes \<times> bytes) list"

definition log_entry :: "hrs \<Rightarrow> priv_error go_error \<Rightarrow> bytes \<Rightarrow> privValidator \<Rightarrow> sign_log" where
  "log_entry x err sig pv = (if err = NoError then [(x, slice_bytes (LastSignBytes pv), sig)] else [])"

inductive sign_step :: "env \<Rightarrow> keyring \<Rightarrow> privValidator \<times> sign_log \<Rightarrow> privValidator \<times> sign_log \<Rightarrow> bool" for E K where
  step_vote: "voteToStep v = Some s \<Longrightarrow> privValidator_SignVote E K now chainID v pv = Some (err, v', pv') \<Longrightarrow>
    sign_step E K (pv, log) (pv', log_entry (Height v, to_int (Round v), s) err (Signature v') pv' @ log)"
| step_proposal: "privValidator_SignProposal E K now chainID p pv = Some (err, p', pv') \<Longrightarrow>
    sign_step E K (pv, log) (pv', log_entry (pHeight p, to_int (pRound p), stepPropose) err (pSignature p') pv' @ log)"

inductive_cases sign_stepE: "sign_step E K S T"

definition entry_ok :: "keyring \<Rightarrow> privValidator \<Rightarrow> hrs \<times> bytes \<times> bytes \<Rightarrow> bool" where
  "entry_ok K pv e \<longleftrightarrow> keySign K (PrivKey pv) (fst (snd e)) = Some (snd (snd e)) \<and> fst e \<le> last_hrs pv \<and>
     (fst e = last_hrs pv \<longrightarrow> LastSignBytes pv = Some (fst (snd e)) \<and> LastSignature pv = Some (snd (snd e)))"

definition log_inv :: "keyring \<Rightarrow> bytes \<Rightarrow> privValidator \<times> sign_log \<Rightarrow> bool" where
  "log_inv K key S \<longleftrightarrow> pv_inv K (fst S) \<and> PrivKey (fst S) = key \<and> (\<forall>e \<in> set (snd S). entry_ok K (fst S) e) \<and>
     (\<forall>e \<in> set (snd S). \<forall>e' \<in> set (snd S). fst e = fst e' \<longrightarrow> e = e')"

lemma entry_ok_later:
  assumes "entry_ok K pv e" "PrivKey pv' = PrivKey pv" "last_hrs pv < last_hrs pv'"
  shows "entry_ok K pv' e" "fst e \<noteq> last_hrs pv'"
proof -
  have "fst e \<le> last_hrs pv" using assms(1) by (simp add: entry_ok_def)
  then have lt: "fst e < last_hrs pv'" using assms(3) by (rule order.strict_trans1)
  then show ne: "fst e \<noteq> last_hrs pv'" by (rule less_imp_neq)
  show "entry_ok K pv' e" using assms(1,2) ne order.strict_implies_order [OF lt] by (simp add: entry_ok_def)
qed

lemma signs_log:
  assumes S: "log_inv K key (pv, log)" and sg: "signs K x sb pv err sig pv'"
  shows "log_inv K key (pv', log_entry x err sig pv' @ log)"
proof (cases "err = NoError")
  case True
  have new: "pv_inv K pv'" "PrivKey pv' = PrivKey pv" "last_hrs pv' = x" "LastSignature pv' = Some sig"
    "pv' = pv \<or> last_hrs pv < x" "key = PrivKey pv" using S sg True by (auto simp: signs_def log_inv_def split: if_splits)
  obtain b where b: "LastSignBytes pv' = Some b" "keySign K key b = Some sig"
    using new by (auto simp: pv_inv_def split: option.splits)
  let ?n = "(x, b, sig)"
  have "entry_ok K pv' ?n" using new b by (simp add: entry_ok_def)
  moreover have old: "entry_ok K pv' e \<and> (fst e = x \<longrightarrow> e = ?n)" if "e \<in> set log" for e
  proof -
    have e: "entry_ok K pv e" using S that by (simp add: log_inv_def)
    from new(5) show ?thesis
    proof
      assume "pv' = pv"
      then show ?thesis using e new(3,4) b(1) by (cases e) (auto simp: entry_ok_def)
    next
      assume "last_hrs pv < x"
      then show ?thesis using entry_ok_later [OF e new(2)] new(3) by auto
    qed
  qed
  ultimately have "\<forall>e \<in> set (?n # log). entry_ok K pv' e" by (simp del: split_paired_All)
  moreover have "e = e'" if "e \<in> set (?n # log)" "e' \<in> set (?n # log)" "fst e = fst e'" for e e'
  proof -
    have "\<forall>e \<in> set log. \<forall>e' \<in> set log. fst e = fst e' \<longrightarrow> e = e'" using S by (simp add: log_inv_def)
    then show ?thesis using that old [of e] old [of e'] by (metis fst_conv set_ConsD)
  qed
  moreover have "log_entry x err sig pv' @ log = ?n # log" using True b(1) by (simp add: log_entry_def slice_bytes_def)
  ultimately show ?thesis using new(1,2,6) unfolding log_inv_def by (simp only: fst_conv snd_conv) blast
next
  case False
  then show ?thesis using S sg by (simp add: signs_def log_entry_def)
qed

lemma sign_step_log: "log_inv K key S \<Longrightarrow> sign_step E K S T \<Longrightarrow> log_inv K key T"
proof (erule sign_stepE)
  fix v s now chainID pv err v' pv' log
  assume a: "log_inv K key S" "S = (pv, log)" "voteToStep v = Some s"
    "privValidator_SignVote E K now chainID v pv = Some (err, v', pv')"
    "T = (pv', log_entry (Height v, to_int (Round v), s) err (Signature v') pv' @ log)"
  then have "pv_inv K pv" by (simp add: log_inv_def)
  from signVote_signs [OF this a(3,4)] a(1) show "log_inv K key T" unfolding a(2,5) by (rule signs_log [rotated])
next
  fix now chainID p pv err p' pv' log
  assume a: "log_inv K key S" "S = (pv, log)" "privValidator_SignProposal E K now chainID p pv = Some (err, p', pv')"
    "T = (pv', log_entry (pHeight p, to_int (pRound p), stepPropose) err (pSignature p') pv' @ log)"
  then have "pv_inv K pv" by (simp add: log_inv_def)
  from signProposal_signs [OF this a(3) [unfolded privValidator_SignProposal_def]] a(1)
  show "log_inv K key T" unfolding a(2,4) by (rule signs_log [rotated])
qed

interpretation pvl: invariant_system "sign_step E K" "log_inv K key" for E K key
  by unfold_locales (rule sign_step_log)

section \<open>Properties\<close>

definition demo_keys :: keyring where
  "demo_keys = \<lparr>parseVote = (\<lambda>_. None), parseProposal = (\<lambda>_. None), parseTime = (\<lambda>_. None),
     keySign = (\<lambda>key m. Some (key @ m)), keyPublic = (\<lambda>key. key)\<rparr>"

definition demo_codec :: env where
  "demo_codec = \<lparr>hexEncode = (\<lambda>b. []), aminoHeader = (\<lambda>h. psh_Hash h), jsonVote = (\<lambda>v. cv_VoteType v # cb_Hash (cv_BlockID v)),
     jsonProposal = (\<lambda>p. cb_Hash (cp_POLBlockID p)), formatTime = (\<lambda>t. []), rlpHash = (\<lambda>b. 0 # b),
     sigToPub = (\<lambda>m s. None), keyAddress = (\<lambda>k. k)\<rparr>"

definition prevote_for :: "byte \<Rightarrow> Vote" where
  "prevote_for b = empty_precommit\<lparr>Height := 4, Type := VoteTypePrevote, vBlockID := zero_BlockID\<lparr>Hash := [b]\<rparr>\<rparr>"

text \<open>
  C29: as long as it is not reset, a validator never double signs. In any run of \<open>SignVote\<close> and
  \<open>SignProposal\<close> from a new validator, two successful calls for the same height, round and step
  return the same signature, made for the same bytes, and every signature returned is one of the
  key for the bytes recorded with it. A request below the last one signed is refused and changes
  nothing.
\<close>

theorem never_double_signs:
  assumes "(sign_step E K)\<^sup>*\<^sup>* (NewPrivValidator key, []) (pv, log)"
  shows "(\<forall>x sb sig sb' sig'. (x, sb, sig) \<in> set log \<longrightarrow> (x, sb', sig') \<in> set log \<longrightarrow> sb = sb' \<and> sig = sig') \<and>
    (\<forall>x sb sig. (x, sb, sig) \<in> set log \<longrightarrow> keySign K key sb = Some sig \<and> x \<le> last_hrs pv) \<and>
    (\<forall>v s now chainID. voteToStep v = Some s \<longrightarrow> (Height v, to_int (Round v), s) < last_hrs pv \<longrightarrow>
       (\<exists>e. privValidator_SignVote E K now chainID v pv = Some (Err e, v, pv)))"
proof -
  have inv: "log_inv K key (pv, log)"
    by (rule pvl.invar_reach [OF assms]) (simp add: log_inv_def, simp add: NewPrivValidator_def)
  then have pv: "pv_inv K pv" by (simp add: log_inv_def)
  have "\<exists>e. privValidator_SignVote E K now chainID v pv = Some (Err e, v, pv)"
    if "voteToStep v = Some s" "(Height v, to_int (Round v), s) < last_hrs pv" for v s now chainID
    using that checkHRS_eq [OF pv] by (auto simp del: less_prod_simp simp: privValidator_SignVote_def privValidator_signVote_def)
  then show ?thesis using inv unfolding log_inv_def entry_ok_def by fastforce
qed

theorem never_double_signs_witness:
  "\<exists>pv. (sign_step demo_codec demo_keys)\<^sup>*\<^sup>* (NewPrivValidator [9], []) (pv, [((4, 0, stepPrevote), [0, 1, 7], [9, 0, 1, 7])]) \<and>
     keySign demo_keys [9] [0, 1, 7] = Some [9, 0, 1, 7]"
proof -
  define pv where "pv = privValidator_saveSigned 4 0 stepPrevote (Some [0, 1, 7]) (Some [9, 0, 1, 7]) (NewPrivValidator [9])"
  have v: "voteToStep (prevote_for 7) = Some stepPrevote" "Height (prevote_for 7) = 4" "to_int (Round (prevote_for 7)) = 0"
    by code_simp+
  have "privValidator_SignVote demo_codec demo_keys 0 [] (prevote_for 7) (NewPrivValidator [9]) =
      Some (NoError, (prevote_for 7)\<lparr>Signature := [9, 0, 1, 7]\<rparr>, pv)"
    unfolding pv_def by code_simp
  from sign_step.step_vote [OF v(1) this, of "[]"]
  have "sign_step demo_codec demo_keys (NewPrivValidator [9], []) (pv, [((4, 0, stepPrevote), [0, 1, 7], [9, 0, 1, 7])])"
    by (simp add: log_entry_def v pv_def privValidator_saveSigned_def slice_bytes_def)
  then have run: "(sign_step demo_codec demo_keys)\<^sup>*\<^sup>* (NewPrivValidator [9], []) (pv, [((4, 0, stepPrevote), [0, 1, 7], [9, 0, 1, 7])])" ..
  from never_double_signs [OF run] run show ?thesis by auto
qed

text \<open>
  A reset forgets what was signed. After \<open>PrivReset\<close>, which the consensus state calls when the
  committee changes, the validator signs a second prevote for another block at the same height and
  round.
\<close>

theorem reset_allows_double_sign:
  "case privValidator_SignVote demo_codec demo_keys 0 [] (prevote_for 7) (NewPrivValidator [9]) of
     None \<Rightarrow> False
   | Some (err, v, pv) \<Rightarrow> err = NoError \<and>
      privValidator_SignVote demo_codec demo_keys 0 [] (prevote_for 8) pv = None \<and>
      (case privValidator_SignVote demo_codec demo_keys 0 [] (prevote_for 8) (privValidator_Reset pv) of
         None \<Rightarrow> False
       | Some (err', v', pv') \<Rightarrow> err' = NoError \<and> Height v' = Height v \<and> Round v' = Round v \<and> Type v' = Type v \<and>
           vBlockID v' \<noteq> vBlockID v \<and> Signature v' \<noteq> Signature v)"
  by code_simp

text \<open>
  The sign bytes are a hash, but a request to sign other bytes at the last height, round and
  step decodes them as JSON. If no hash is the encoding of a vote, such a request panics instead of
  returning the error for conflicting data; the same bytes return the last signature.
\<close>

theorem resign_conflict_panics:
  assumes "\<And>b. parseVote K (rlpHash E b) = None" "pv_inv K pv" "voteToStep v = Some s"
    "last_hrs pv = (Height v, to_int (Round v), s)" "LastSignBytes pv = Some (rlpHash E b)"
  shows "privValidator_SignVote E K now chainID v pv =
    (if Vote_SignBytes E chainID v = rlpHash E b
     then Some (NoError, v\<lparr>Signature := slice_bytes (LastSignature pv)\<rparr>, pv) else None)"
  using assms checkHRS_eq [OF assms(2), of "Height v" "to_int (Round v)" s]
  by (simp add: privValidator_SignVote_def privValidator_signVote_def Let_def slice_bytes_def checkVotesOnlyDifferByTimestamp_def)

theorem resign_conflict_panics_witness:
  "privValidator_SignVote demo_codec demo_keys 0 [] (prevote_for 8)
     (privValidator_saveSigned 4 0 stepPrevote (Some [0, 1, 7]) (Some [9, 0, 1, 7]) (NewPrivValidator [9])) = None"
proof -
  let ?pv = "privValidator_saveSigned 4 0 stepPrevote (Some [0, 1, 7]) (Some [9, 0, 1, 7]) (NewPrivValidator [9])"
  have "pv_inv demo_keys ?pv" "voteToStep (prevote_for 8) = Some stepPrevote"
    "last_hrs ?pv = (Height (prevote_for 8), to_int (Round (prevote_for 8)), stepPrevote)"
    "LastSignBytes ?pv = Some (rlpHash demo_codec [1, 7])" "Vote_SignBytes demo_codec [] (prevote_for 8) \<noteq> rlpHash demo_codec [1, 7]"
    "parseVote demo_keys (rlpHash demo_codec b) = None" for b
    by (code_simp | simp add: demo_keys_def)+
  from resign_conflict_panics [where K = demo_keys and E = demo_codec, OF this(6,1,2,3,4)] this(5) show ?thesis by simp
qed

text \<open>A proxy whose blocks are their own encodings.\<close>

definition demo_agent :: "bytes agent" where
  "demo_agent = \<lparr>GetCurrentHeight = 3, FetchFastBlock = (\<lambda>_ _. (None, Err [])), VerifyFastBlock = (\<lambda>_ _. (None, Err [])),
     BroadcastConsensus = (\<lambda>_. NoError), GetFastLastProposer = [], NumberU64 = (\<lambda>b. of_nat (length b)),
     rlpEncode = Some, rlpDecode = Some, aminoMarshal = Some, aminoUnmarshal = Some\<rparr>"

text \<open>
  C33: a block that a proposer encodes and cuts into parts is decoded to the same block by a peer
  that has the header and received every part in any order, provided the codec decodes what it
  encodes and the encoding is within the size limit. Before the last part arrives the peer gets the
  error for an incomplete set.
\<close>

theorem block_transfer_roundtrip:
  assumes "\<And>v. H v \<noteq> []" "rlpEncode A block = Some bzs" "aminoMarshal A bzs = Some bz" "bz \<noteq> []"
    "aminoUnmarshal A bz = Some bzs" "rlpDecode A bzs = Some block" "length bz \<le> MaxBlockBytes"
    "0 < unat partSize" "unat partSize < 2 ^ 62"
    "\<forall>i \<in> set sent. i < length (chunks bz (unat partSize))"
  shows "\<exists>src ps. MakePartSet H A partSize block = Some (Some src, NoError) \<and>
    receive H (map (part_of H (chunks bz (unat partSize))) sent) (NewPartSetFromHeader (PartSet_Header (Some src))) = Some ps \<and>
    MakeBlockFromPartSet A ps =
      Some (if {..<length (chunks bz (unat partSize))} \<subseteq> set sent then (Some block, NoError) else (None, Err ErrNotComplete))"
proof -
  have size: "length bz + unat partSize < 2 ^ 63 - 1" using assms(7,9) by simp
  obtain src ps where ps: "NewPartSetFromData H bz partSize = Some src"
    "receive H (map (part_of H (chunks bz (unat partSize))) sent) (NewPartSetFromHeader (PartSet_Header (Some src))) = Some ps"
    "PartSet_IsComplete ps \<longleftrightarrow> {..<length (chunks bz (unat partSize))} \<subseteq> set sent"
    "PartSet_IsComplete ps \<longrightarrow> (\<exists>psr. PartSet_GetReader ps = Some psr \<and> (\<forall>p \<in> set (psr_parts psr). p \<noteq> None) \<and> unread psr = bz)"
    using transfer_unread [where H = H, OF assms(1,8) size assms(4,10)] by blast
  have "MakePartSet H A partSize block = Some (Some src, NoError)"
    using assms(2,3) ps(1) by (simp add: MakePartSet_def)
  moreover have "MakeBlockFromPartSet A ps = Some (Some block, NoError)" if c: "PartSet_IsComplete ps"
  proof -
    obtain psr where psr: "PartSet_GetReader ps = Some psr" "\<forall>p \<in> set (psr_parts psr). p \<noteq> None" "unread psr = bz"
      using ps(4) c by blast
    obtain err psr' where "PartSetReader_Read MaxBlockBytes psr = Some ((bz, err), psr')"
      using Read_spec [OF psr(2), of MaxBlockBytes] psr(3) assms(7) by auto
    then show ?thesis using c psr(1) assms(5,6) by (simp add: MakeBlockFromPartSet_def)
  qed
  moreover have "MakeBlockFromPartSet A ps = Some (None, Err ErrNotComplete)" if "\<not> PartSet_IsComplete ps"
    using that by (simp add: MakeBlockFromPartSet_def)
  ultimately show ?thesis using ps(2,3) by auto
qed

theorem block_transfer_roundtrip_witness:
  "\<exists>src ps. MakePartSet demo_hash demo_agent 2 [7, 8, 9] = Some (Some src, NoError) \<and>
     receive demo_hash (map (part_of demo_hash [[7, 8], [9]]) [1, 0]) (NewPartSetFromHeader (PartSet_Header (Some src))) = Some ps \<and>
     MakeBlockFromPartSet demo_agent ps = Some (Some [7, 8, 9], NoError)"
proof -
  have c: "chunks [7, 8, 9] (unat (2 :: u64)) = [[7, 8], [9]]" by (simp add: chunks_def)
  have "{..<length [[7, 8], [9 :: byte]]} \<subseteq> set [1, 0]" by auto
  then show ?thesis
    using block_transfer_roundtrip [where H = demo_hash and A = demo_agent and partSize = 2 and block = "[7, 8, 9]"
      and bzs = "[7, 8, 9]" and bz = "[7, 8, 9]" and sent = "[1, 0]", OF demo_hash_nonempty]
    unfolding c by (auto simp: demo_agent_def)
qed

definition in_range :: "'blk agent \<Rightarrow> StateAgentImpl \<Rightarrow> 'blk \<Rightarrow> bool" where
  "in_range A state b \<longleftrightarrow> sa_BeginHeight state \<le> NumberU64 A b \<and> (sa_EndHeight state = 0 \<or> NumberU64 A b \<le> sa_EndHeight state)"

lemma range_guards:
  "(sa_EndHeight state > 0 \<and> NumberU64 A b > sa_EndHeight state) \<or> sa_BeginHeight state > NumberU64 A b \<longleftrightarrow> \<not> in_range A state b"
  by (auto simp: in_range_def not_less not_le word_neq_0_conv)

lemma ValidateBlock_in_range:
  "in_range A state b \<Longrightarrow> StateAgentImpl_ValidateBlock A (Some b) res state =
    map_option (\<lambda>s. (Some \<lparr>kResult = ucast (sResult s), kSign = Sign s, kHash = FastHash s\<rparr>, agent_result (snd (VerifyFastBlock A b res))))
      (fst (VerifyFastBlock A b res))"
  using range_guards [of state A b]
  by (cases "VerifyFastBlock A b res"; cases "fst (VerifyFastBlock A b res)") (simp_all add: StateAgentImpl_ValidateBlock_def)

lemma ValidateBlock_out_of_range:
  "\<not> in_range A state b \<Longrightarrow> \<exists>e. StateAgentImpl_ValidateBlock A (Some b) res state = Some (None, Err e)"
  using range_guards [of state A b] by (auto simp: StateAgentImpl_ValidateBlock_def)

lemma MakeBlock_range:
  assumes "StateAgentImpl_MakeBlock A v state = Some (Some block, err)"
  shows "in_range A state block \<and> err = NoError"
proof -
  obtain b e where f: "FetchFastBlock A (sa_CID state) (case v of None \<Rightarrow> [] | Some infos \<Rightarrow> infos) = (b, e)" by fastforce
  show ?thesis using assms f range_guards [of state A block]
    by (cases e; cases b) (auto simp: StateAgentImpl_MakeBlock_def split: if_splits)
qed

text \<open>
  The agent hands on only blocks within the heights of its committee, from \<open>BeginHeight\<close> to
  \<open>EndHeight\<close> if that is set; any other block is an error before the proxy is asked. Inside the range
  \<open>ValidateBlock\<close> returns the signature of the proxy, and panics exactly when the proxy returns none,
  since the log statement reads it before the test for nil.
\<close>

theorem agent_height_range:
  "(StateAgentImpl_ValidateBlock A (Some b) res state = None \<longleftrightarrow>
      in_range A state b \<and> fst (VerifyFastBlock A b res) = None) \<and>
   (\<forall>sign err. StateAgentImpl_ValidateBlock A (Some b) res state = Some (Some sign, err) \<longrightarrow> in_range A state b) \<and>
   (\<forall>block err. StateAgentImpl_MakeBlock A v state = Some (Some block, err) \<longrightarrow> in_range A state block \<and> err = NoError)"
  using ValidateBlock_in_range [of A state b res] ValidateBlock_out_of_range [of A state b res] MakeBlock_range [of A v state]
  by (cases "in_range A state b") auto

theorem agent_height_range_witness:
  "StateAgentImpl_ValidateBlock demo_agent (Some [1, 2]) True (NewStateAgent (\<lambda>_. []) demo_agent [] None 1 0) = None"
  using agent_height_range [of demo_agent "[1, 2]" True "NewStateAgent (\<lambda>_. []) demo_agent [] None 1 0"]
  by (simp add: in_range_def demo_agent_def NewStateAgent_def)

end
