(* ===== verification/Health.thy ===== *)
theory Health
  imports Priv_Validator "HOL-Library.AList"
begin

text \<open>
  The health manager, \<^verbatim>\<open>consensus/tbft/types/health.go\<close>: it counts the seconds each committee member has
  been silent and proposes to switch a silent member for a spare one. Members are shared by pointer
  between the lists of the manager and the switches, so they live in a store: a reference is a
  natural number, nil is \<^term>\<open>None\<close>. The map \<open>Work\<close> is an association list whose order is the order in which
  the runtime iterates over the map; nothing below depends on it. A switch sent by
  \<open>go h.Switch(..)\<close> is appended to the list of messages to the consensus state. Every member has a
  validator with a public key: the nil pointers on which \<open>Equal\<close> would panic are not modelled. The minimal
  number of committee members, a constant of another package, is an argument.
\<close>

section \<open>Members and switches\<close>

abbreviation HealthOut :: int where "HealthOut \<equiv> 1800"
abbreviation BlackDoorCount :: int where "BlackDoorCount \<equiv> 4"

abbreviation StateUnusedFlag :: "32 word" where "StateUnusedFlag \<equiv> 0xa0"
abbreviation StateUsedFlag :: "32 word" where "StateUsedFlag \<equiv> 0xa1"
abbreviation StateSwitchingFlag :: "32 word" where "StateSwitchingFlag \<equiv> 0xa2"
abbreviation StateRemovedFlag :: "32 word" where "StateRemovedFlag \<equiv> 0xa3"
abbreviation StateAppendFlag :: "32 word" where "StateAppendFlag \<equiv> 0xa4"
abbreviation TypeFixed :: "32 word" where "TypeFixed \<equiv> 0xa1"
abbreviation TypeBack :: "32 word" where "TypeBack \<equiv> 0xa3"

datatype switch_part = SwitchPartWork | SwitchPartBack | SwitchPartSeed

definition wrap32 :: "int \<Rightarrow> int" where
  "wrap32 x = sint (word_of_int x :: 32 word)"

record Health =
  hl_ID :: string
  hl_IP :: string
  hl_Port :: "32 word"
  hl_Tick :: int
  hl_State :: "32 word"
  hl_HType :: "32 word"
  hl_Val :: Validator
  hl_Self :: bool

definition NewHealth :: "string \<Rightarrow> 32 word \<Rightarrow> 32 word \<Rightarrow> Validator \<Rightarrow> bool \<Rightarrow> Health" where
  "NewHealth pid t state val self =
     \<lparr>hl_ID = pid, hl_IP = [], hl_Port = 0, hl_Tick = 0, hl_State = state, hl_HType = t, hl_Val = val, hl_Self = self\<rparr>"

type_synonym href = nat
type_synonym members = "href \<Rightarrow> Health"

definition Health_Equal :: "members \<Rightarrow> href option \<Rightarrow> href option \<Rightarrow> bool" where
  "Health_Equal st h other =
     (case (h, other) of
        (None, None) \<Rightarrow> True
      | (Some a, Some b) \<Rightarrow> hl_ID (st a) = hl_ID (st b) \<and> PubKey (hl_Val (st a)) = PubKey (hl_Val (st b))
      | _ \<Rightarrow> False)"

definition CommitteeMember_Compared :: "CommitteeMember \<Rightarrow> CommitteeMember \<Rightarrow> bool" where
  "CommitteeMember_Compared c d \<longleftrightarrow>
     MType c = MType d \<and> Coinbase c = Coinbase d \<and> CommitteeBase c = CommitteeBase d \<and> Publickey c = Publickey d"

record SwitchValidator =
  sv_Remove :: "href option"
  sv_Add :: "href option"
  sv_Infos :: "CommitteeMember list option"
  sv_Resion :: string
  sv_From :: int
  sv_DoorCount :: int
  sv_Round :: int
  sv_ID :: u64

text \<open>The length and the elements of a slice that may be nil.\<close>

definition infos :: "SwitchValidator \<Rightarrow> CommitteeMember list" where
  "infos sv = (case sv_Infos sv of None \<Rightarrow> [] | Some ms \<Rightarrow> ms)"

definition EqualCommitteeMemberArray :: "CommitteeMember list option \<Rightarrow> CommitteeMember list option \<Rightarrow> bool" where
  "EqualCommitteeMemberArray a b =
     (case (a, b) of
        (None, None) \<Rightarrow> True
      | (Some xs, Some ys) \<Rightarrow> list_all (\<lambda>v. list_ex (\<lambda>vm. CommitteeMember_Compared v vm) ys) xs
      | _ \<Rightarrow> False)"

definition SwitchValidator_Equal :: "members \<Rightarrow> SwitchValidator option \<Rightarrow> SwitchValidator option \<Rightarrow> bool" where
  "SwitchValidator_Equal st s other =
     (case (s, other) of
        (None, None) \<Rightarrow> True
      | (Some a, Some b) \<Rightarrow> sv_ID a = sv_ID b \<and> Health_Equal st (sv_Remove a) (sv_Remove b) \<and>
          Health_Equal st (sv_Add a) (sv_Add b) \<and> EqualCommitteeMemberArray (sv_Infos a) (sv_Infos b)
      | _ \<Rightarrow> False)"

definition SwitchValidator_EqualWithoutID :: "members \<Rightarrow> SwitchValidator option \<Rightarrow> SwitchValidator option \<Rightarrow> bool" where
  "SwitchValidator_EqualWithoutID st s other =
     (case (s, other) of
        (None, None) \<Rightarrow> True
      | (Some a, Some b) \<Rightarrow> Health_Equal st (sv_Remove a) (sv_Remove b) \<and>
          Health_Equal st (sv_Add a) (sv_Add b) \<and> EqualCommitteeMemberArray (sv_Infos a) (sv_Infos b)
      | _ \<Rightarrow> False)"

definition SwitchValidator_EqualWithRemove :: "members \<Rightarrow> SwitchValidator option \<Rightarrow> SwitchValidator option \<Rightarrow> bool" where
  "SwitchValidator_EqualWithRemove st s other =
     (case (s, other) of
        (None, None) \<Rightarrow> True
      | (Some a, Some b) \<Rightarrow> Health_Equal st (sv_Remove a) (sv_Remove b)
      | _ \<Rightarrow> False)"

section \<open>The manager\<close>

record HealthMgr =
  hm_members :: members
  hm_Work :: "(string \<times> href) list"
  hm_Back :: "href list"
  hm_seed :: "href list"
  hm_curSwitch :: "SwitchValidator list"
  hm_sent :: "SwitchValidator list"
  hm_ticking :: bool
  hm_cid :: u64
  hm_uid :: u64
  hm_enable :: bool

text \<open>
  The package variable \<open>EnableHealthMgr\<close> is the field \<^term>\<open>hm_enable\<close>; a new manager finds the value the
  variable has at that time, which is false once any manager was started or stopped.
\<close>

definition NewHealthMgr :: "bool \<Rightarrow> members \<Rightarrow> u64 \<Rightarrow> HealthMgr" where
  "NewHealthMgr enableHealthMgr st cid =
     \<lparr>hm_members = st, hm_Work = [], hm_Back = [], hm_seed = [], hm_curSwitch = [], hm_sent = [], hm_ticking = False,
      hm_cid = cid, hm_uid = or (push_bit 32 cid) 100, hm_enable = enableHealthMgr\<rparr>"

definition HealthMgr_Sum :: "HealthMgr \<Rightarrow> nat" where
  "HealthMgr_Sum h = length (hm_Work h) + length (hm_Back h) + length (hm_seed h)"

definition HealthMgr_PutWorkHealth :: "href \<Rightarrow> HealthMgr \<Rightarrow> HealthMgr" where
  "HealthMgr_PutWorkHealth he h = h\<lparr>hm_Work := AList.update (hl_ID (hm_members h he)) he (hm_Work h)\<rparr>"

definition HealthMgr_PutBackHealth :: "href option \<Rightarrow> HealthMgr \<Rightarrow> HealthMgr" where
  "HealthMgr_PutBackHealth he h =
     (case he of
        None \<Rightarrow> h
      | Some r \<Rightarrow> if hl_HType (hm_members h r) = TypeFixed then h\<lparr>hm_seed := hm_seed h @ [r]\<rparr>
                  else h\<lparr>hm_Back := hm_Back h @ [r]\<rparr>)"

definition HealthMgr_GetHealthTick :: "string \<Rightarrow> HealthMgr \<Rightarrow> int" where
  "HealthMgr_GetHealthTick pid h =
     (case find (\<lambda>v. hl_ID (hm_members h v) = pid) (map snd (hm_Work h) @ hm_Back h @ hm_seed h) of
        Some v \<Rightarrow> hl_Tick (hm_members h v)
      | None \<Rightarrow> - 1)"

definition HealthMgr_getHealthFromPart :: "bytes \<Rightarrow> switch_part \<Rightarrow> HealthMgr \<Rightarrow> href option" where
  "HealthMgr_getHealthFromPart address part h =
     find (\<lambda>v. address = Address (hl_Val (hm_members h v)))
       (case part of SwitchPartBack \<Rightarrow> hm_Back h | SwitchPartWork \<Rightarrow> map snd (hm_Work h) | SwitchPartSeed \<Rightarrow> hm_seed h)"

definition HealthMgr_GetHealth :: "bytes \<Rightarrow> HealthMgr \<Rightarrow> href option" where
  "HealthMgr_GetHealth adress h =
     (case HealthMgr_getHealthFromPart adress SwitchPartWork h of
        Some v \<Rightarrow> Some v
      | None \<Rightarrow> (case HealthMgr_getHealthFromPart adress SwitchPartBack h of
                   Some v \<Rightarrow> Some v
                 | None \<Rightarrow> HealthMgr_getHealthFromPart adress SwitchPartSeed h))"

text \<open>A write through a pointer.\<close>

definition upd :: "href \<Rightarrow> (Health \<Rightarrow> Health) \<Rightarrow> HealthMgr \<Rightarrow> HealthMgr" where
  "upd r f h = h\<lparr>hm_members := (hm_members h)(r := f (hm_members h r))\<rparr>"

definition HealthMgr_UpdataHealthInfo :: "string \<Rightarrow> string \<Rightarrow> 32 word \<Rightarrow> bytes \<Rightarrow> HealthMgr \<Rightarrow> HealthMgr" where
  "HealthMgr_UpdataHealthInfo pid ip port pk h =
     (case HealthMgr_GetHealth pk h of
        None \<Rightarrow> h
      | Some enter \<Rightarrow> if hl_ID (hm_members h enter) \<noteq> []
                      then upd enter (\<lambda>v. v\<lparr>hl_ID := pid, hl_IP := ip, hl_Port := port\<rparr>) h else h)"

definition HealthMgr_OnStart :: "HealthMgr \<Rightarrow> HealthMgr" where
  "HealthMgr_OnStart h =
     (let h = h\<lparr>hm_enable := False\<rparr>
      in if \<not> hm_ticking h \<and> hm_enable h then h\<lparr>hm_ticking := True\<rparr> else h)"

definition HealthMgr_getCurSV :: "HealthMgr \<Rightarrow> SwitchValidator option" where
  "HealthMgr_getCurSV h = (case hm_curSwitch h of [] \<Rightarrow> None | sv # _ \<Rightarrow> Some sv)"

definition HealthMgr_setCurSV :: "SwitchValidator option \<Rightarrow> HealthMgr \<Rightarrow> HealthMgr" where
  "HealthMgr_setCurSV sv h =
     (case sv of
        Some s \<Rightarrow> if hm_curSwitch h = [] then h\<lparr>hm_curSwitch := hm_curSwitch h @ [s]\<rparr> else h
      | None \<Rightarrow> h)"

definition HealthMgr_removeCurSV :: "HealthMgr \<Rightarrow> HealthMgr" where
  "HealthMgr_removeCurSV h = (case hm_curSwitch h of [] \<Rightarrow> h | _ # rest \<Rightarrow> h\<lparr>hm_curSwitch := rest\<rparr>)"

definition HealthMgr_Switch :: "SwitchValidator option \<Rightarrow> HealthMgr \<Rightarrow> HealthMgr" where
  "HealthMgr_Switch s h = (case s of None \<Rightarrow> h | Some sv \<Rightarrow> h\<lparr>hm_sent := hm_sent h @ [sv]\<rparr>)"

definition to_address :: "bytes \<Rightarrow> bytes" where
  "to_address b = (let b = drop (length b - 20) b in replicate (20 - length b) 0 @ b)"

definition new_member :: "bytes \<Rightarrow> 32 word \<Rightarrow> CommitteeMember" where
  "new_member base flag = \<lparr>Coinbase = replicate 20 0, CommitteeBase = to_address base, Publickey = [], Flag = flag, MType = 0\<rparr>"

definition HealthMgr_makeSwitchValidators ::
  "href \<Rightarrow> href option \<Rightarrow> string \<Rightarrow> int \<Rightarrow> HealthMgr \<Rightarrow> SwitchValidator \<times> HealthMgr" where
  "HealthMgr_makeSwitchValidators remove add resion frm h =
     (let vals = (case add of None \<Rightarrow> [] | Some a \<Rightarrow> [new_member (Address (hl_Val (hm_members h a))) StateAppendFlag])
                 @ [new_member (Address (hl_Val (hm_members h remove))) StateRemovedFlag];
          uid = hm_uid h;
          h = h\<lparr>hm_uid := hm_uid h + 1\<rparr>
      in (\<lparr>sv_Remove = Some remove, sv_Add = add, sv_Infos = Some vals, sv_Resion = resion, sv_From = frm,
           sv_DoorCount = 0, sv_Round = - 1, sv_ID = uid\<rparr>, h))"

text \<open>The first unused spare becomes a switching one by compare-and-swap.\<close>

definition HealthMgr_pickUnuseValidator :: "HealthMgr \<Rightarrow> href option \<times> HealthMgr" where
  "HealthMgr_pickUnuseValidator h =
     (case find (\<lambda>v. hl_State (hm_members h v) = StateUnusedFlag) (hm_Back h @ hm_seed h) of
        None \<Rightarrow> (None, h)
      | Some v \<Rightarrow> (Some v, upd v (\<lambda>m. m\<lparr>hl_State := StateSwitchingFlag\<rparr>) h))"

definition start_switch :: "href \<Rightarrow> HealthMgr \<Rightarrow> HealthMgr" where
  "start_switch v h =
     (let (back, h) = HealthMgr_pickUnuseValidator h;
          (cur, h) = HealthMgr_makeSwitchValidators v back ''Switch'' 0 h;
          h = upd v (\<lambda>m. m\<lparr>hl_State := StateSwitchingFlag\<rparr>) h;
          h = HealthMgr_setCurSV (Some cur) h
      in HealthMgr_Switch (Some cur) h)"

definition tick_member :: "href \<Rightarrow> bool \<Rightarrow> HealthMgr \<Rightarrow> HealthMgr" where
  "tick_member v sshift h =
     (let m = hm_members h v
      in if hl_State m = StateUsedFlag \<and> hl_HType m \<noteq> TypeFixed \<and> \<not> hl_Self m then
           (let val = wrap32 (hl_Tick m + 1);
                h = upd v (\<lambda>m. m\<lparr>hl_Tick := val\<rparr>) h
            in if sshift \<and> val > HealthOut + 60 \<and> hl_State (hm_members h v) = StateUsedFlag \<and> \<not> hl_Self (hm_members h v) \<and>
                  HealthMgr_getCurSV h = None
               then start_switch v h else h)
         else h)"

definition HealthMgr_checkSwitchValidator :: "href \<Rightarrow> bool \<Rightarrow> HealthMgr \<Rightarrow> HealthMgr option" where
  "HealthMgr_checkSwitchValidator v sshift h =
     (let h = tick_member v sshift h
      in case HealthMgr_getCurSV h of
           None \<Rightarrow> Some h
         | Some sv0 \<Rightarrow> do {
             r \<leftarrow> sv_Remove sv0;
             Some (if hl_Tick (hm_members h r) < HealthOut \<and> sv_From sv0 = 0
                   then HealthMgr_Switch (Some (sv0\<lparr>sv_From := 1\<rparr>)) h else h)
           })"

definition HealthMgr_work :: "bool \<Rightarrow> HealthMgr \<Rightarrow> HealthMgr option" where
  "HealthMgr_work sshift h =
     (if \<not> hm_enable h then Some h
      else go_for (\<lambda>v h. HealthMgr_checkSwitchValidator v sshift h) (map snd (hm_Work h) @ hm_Back h) h)"

definition HealthMgr_isShiftSV :: "nat \<Rightarrow> HealthMgr \<Rightarrow> bool \<times> nat" where
  "HealthMgr_isShiftSV minimumCommitteeNumber h =
     (let cnt = length (filter (\<lambda>v. hl_State (hm_members h v) = StateUsedFlag) (map snd (hm_Work h) @ hm_Back h @ hm_seed h))
      in (cnt > minimumCommitteeNumber, cnt))"

text \<open>The members named by the entries of a result; \<open>enter2\<close> is nil when there is one entry.\<close>

definition result_members :: "CommitteeMember list \<Rightarrow> HealthMgr \<Rightarrow> (href option \<times> href option) option" where
  "result_members es h = do {
     enter1 \<leftarrow> go_nth es 0;
     if Flag enter1 = StateAppendFlag then do {
       enter2 \<leftarrow> go_nth es 1;
       Some (HealthMgr_GetHealth (CommitteeBase enter1) h,
             if Flag enter2 = StateRemovedFlag then HealthMgr_GetHealth (CommitteeBase enter2) h else None)
     }
     else Some (None, if Flag enter1 = StateRemovedFlag then HealthMgr_GetHealth (CommitteeBase enter1) h else None)
   }"

definition set_member :: "32 word \<Rightarrow> href option \<Rightarrow> HealthMgr \<Rightarrow> HealthMgr" where
  "set_member state v h = (case v of None \<Rightarrow> h | Some r \<Rightarrow> upd r (\<lambda>m. m\<lparr>hl_State := state, hl_Tick := 0\<rparr>) h)"

definition HealthMgr_switchResult :: "SwitchValidator \<Rightarrow> HealthMgr \<Rightarrow> HealthMgr option" where
  "HealthMgr_switchResult res h =
     (if \<not> hm_enable h then Some h
      else
        let st = hm_members h;
            h = (case HealthMgr_getCurSV h of
                   Some cur \<Rightarrow>
                     if (sv_From res = 1 \<and> SwitchValidator_Equal st (Some cur) (Some res)) \<or>
                        SwitchValidator_EqualWithoutID st (Some cur) (Some res) \<or>
                        SwitchValidator_EqualWithRemove st (Some cur) (Some res)
                     then HealthMgr_removeCurSV h else h
                 | None \<Rightarrow> h)
        in if sv_From res = 0 \<and> length (infos res) > 0 \<and> length (infos res) < 3
           then do {
             (add, remove) \<leftarrow> result_members (infos res) h;
             Some (set_member StateUsedFlag add (set_member StateRemovedFlag remove h))
           }
           else Some h)"

definition HealthMgr_Update :: "string \<Rightarrow> HealthMgr \<Rightarrow> HealthMgr" where
  "HealthMgr_Update pid h =
     (case map_of (hm_Work h) pid of
        Some v \<Rightarrow> if hl_HType (hm_members h v) \<noteq> TypeFixed then upd v (\<lambda>m. m\<lparr>hl_Tick := 0\<rparr>) h
                  else (case find (\<lambda>v. hl_ID (hm_members h v) = pid) (hm_Back h) of
                          Some w \<Rightarrow> if hl_HType (hm_members h w) \<noteq> TypeFixed then upd w (\<lambda>m. m\<lparr>hl_Tick := 0\<rparr>) h else h
                        | None \<Rightarrow> h)
      | None \<Rightarrow> (case find (\<lambda>v. hl_ID (hm_members h v) = pid) (hm_Back h) of
                   Some w \<Rightarrow> if hl_HType (hm_members h w) \<noteq> TypeFixed then upd w (\<lambda>m. m\<lparr>hl_Tick := 0\<rparr>) h else h
                 | None \<Rightarrow> h))"

datatype health_error = ErrNotEnabled | ErrRemoveNotFound | ErrWrongState

definition HealthMgr_verifySwitchEnter :: "href option \<Rightarrow> href option \<Rightarrow> HealthMgr \<Rightarrow> health_error go_error" where
  "HealthMgr_verifySwitchEnter remove add h =
     (case remove of
        None \<Rightarrow> Err ErrRemoveNotFound
      | Some r \<Rightarrow>
          let rTick = hl_Tick (hm_members h r);
              rState = hl_State (hm_members h r);
              rRes = (rState \<ge> StateUsedFlag \<and> rState \<le> StateSwitchingFlag \<and> rTick \<ge> HealthOut);
              aRes = (case add of
                        Some a \<Rightarrow> hl_State (hm_members h a) \<noteq> StateRemovedFlag \<and> hl_State (hm_members h a) \<noteq> StateUsedFlag
                      | None \<Rightarrow> True)
          in if rRes \<and> aRes then NoError else Err ErrWrongState)"

definition HealthMgr_VerifySwitch :: "SwitchValidator \<Rightarrow> HealthMgr \<Rightarrow> health_error go_error" where
  "HealthMgr_VerifySwitch sv h =
     (if \<not> hm_enable h then Err ErrNotEnabled
      else case HealthMgr_getCurSV h of
             Some sv0 \<Rightarrow> if SwitchValidator_Equal (hm_members h) (Some sv0) (Some sv) then NoError
                         else HealthMgr_verifySwitchEnter (sv_Remove sv) (sv_Add sv) h
           | None \<Rightarrow> HealthMgr_verifySwitchEnter (sv_Remove sv) (sv_Add sv) h)"

text \<open>The flag of the first member with the address of an entry.\<close>

definition set_flag :: "href list \<Rightarrow> CommitteeMember \<Rightarrow> HealthMgr \<Rightarrow> HealthMgr" where
  "set_flag vs v h =
     (case find (\<lambda>r. CommitteeBase v = Address (hl_Val (hm_members h r))) vs of
        None \<Rightarrow> h
      | Some r \<Rightarrow> upd r (\<lambda>m. m\<lparr>hl_State := Flag v\<rparr>) h)"

text \<open>The backward loop over the current switches deletes those whose members are not back in their old states.\<close>

definition restored :: "members \<Rightarrow> CommitteeMember list \<Rightarrow> href \<Rightarrow> href option \<Rightarrow> bool" where
  "restored st ms remove add \<longleftrightarrow>
     list_ex (\<lambda>v. CommitteeBase v = Address (hl_Val (st remove)) \<and> Flag v = StateUsedFlag) ms \<and>
     list_ex (\<lambda>v. case add of None \<Rightarrow> True | Some a \<Rightarrow> CommitteeBase v = Address (hl_Val (st a)) \<and> Flag v = StateUnusedFlag) ms"

definition HealthMgr_checkSaveSwitchValidator :: "CommitteeMember list \<Rightarrow> HealthMgr \<Rightarrow> HealthMgr" where
  "HealthMgr_checkSaveSwitchValidator ms h =
     h\<lparr>hm_curSwitch := filter (\<lambda>sv. case sv_Remove sv of
          None \<Rightarrow> True
        | Some r \<Rightarrow> restored (hm_members h) ms r (sv_Add sv)) (hm_curSwitch h)\<rparr>"

definition HealthMgr_UpdateFromCommittee :: "CommitteeMember list \<Rightarrow> CommitteeMember list \<Rightarrow> HealthMgr \<Rightarrow> HealthMgr" where
  "HealthMgr_UpdateFromCommittee ms backMember h =
     (let h = fold (\<lambda>v h. set_flag (map snd (hm_Work h)) v h) ms h;
          h = fold (\<lambda>v h. if MType v = TypeBack then set_flag (hm_Back h) v h
                          else if MType v = TypeFixed then set_flag (hm_seed h) v h else h) backMember h
      in HealthMgr_checkSaveSwitchValidator (ms @ backMember) h)"

section \<open>At most one switch\<close>

definition hm_ok :: "HealthMgr \<Rightarrow> bool" where
  "hm_ok h \<longleftrightarrow> length (hm_curSwitch h) \<le> 1 \<and> (\<forall>sv \<in> set (hm_curSwitch h). sv_Remove sv \<noteq> None)"

lemma upd_fields [simp]:
  "hm_curSwitch (upd r f h) = hm_curSwitch h" "hm_enable (upd r f h) = hm_enable h" "hm_sent (upd r f h) = hm_sent h"
  "hm_Work (upd r f h) = hm_Work h" "hm_Back (upd r f h) = hm_Back h" "hm_seed (upd r f h) = hm_seed h"
  "hm_ticking (upd r f h) = hm_ticking h" "hm_members (upd r f h) = (hm_members h)(r := f (hm_members h r))"
  by (simp_all add: upd_def)

lemma pick_fields [simp]:
  "hm_curSwitch (snd (HealthMgr_pickUnuseValidator h)) = hm_curSwitch h"
  "hm_enable (snd (HealthMgr_pickUnuseValidator h)) = hm_enable h"
  "hm_ticking (snd (HealthMgr_pickUnuseValidator h)) = hm_ticking h"
  by (simp_all add: HealthMgr_pickUnuseValidator_def split: option.splits)

lemma start_switch_fields:
  "hm_curSwitch h = [] \<Longrightarrow> \<exists>sv. hm_curSwitch (start_switch v h) = [sv] \<and> sv_Remove sv = Some v \<and> sv_From sv = 0"
  "hm_enable (start_switch v h) = hm_enable h" "hm_ticking (start_switch v h) = hm_ticking h"
  by (simp_all add: start_switch_def Let_def split_beta HealthMgr_makeSwitchValidators_def HealthMgr_setCurSV_def HealthMgr_Switch_def)

lemma getCurSV_None [simp]: "HealthMgr_getCurSV h = None \<longleftrightarrow> hm_curSwitch h = []"
  by (simp add: HealthMgr_getCurSV_def split: list.splits)

lemma getCurSV_Some: "HealthMgr_getCurSV h = Some sv \<Longrightarrow> sv \<in> set (hm_curSwitch h)"
  by (auto simp: HealthMgr_getCurSV_def split: list.splits)

lemma tick_member_fields:
  "hm_ok h \<Longrightarrow> hm_ok (tick_member v b h)" "hm_enable (tick_member v b h) = hm_enable h"
  "hm_ticking (tick_member v b h) = hm_ticking h" "hm_curSwitch h \<noteq> [] \<Longrightarrow> hm_curSwitch (tick_member v b h) = hm_curSwitch h"
  using start_switch_fields [where h = "upd v (\<lambda>m. m\<lparr>hl_Tick := wrap32 (hl_Tick (hm_members h v) + 1)\<rparr>) h" and v = v]
  by (auto simp: tick_member_def Let_def hm_ok_def)

lemma Switch_fields [simp]:
  "hm_curSwitch (HealthMgr_Switch s h) = hm_curSwitch h" "hm_enable (HealthMgr_Switch s h) = hm_enable h"
  "hm_ticking (HealthMgr_Switch s h) = hm_ticking h" "hm_members (HealthMgr_Switch s h) = hm_members h"
  by (simp_all add: HealthMgr_Switch_def split: option.splits)

lemma check_ok:
  assumes "hm_ok h"
  obtains h' where "HealthMgr_checkSwitchValidator v b h = Some h'" "hm_ok h'" "hm_enable h' = hm_enable h" "hm_ticking h' = hm_ticking h"
    "hm_curSwitch h' = hm_curSwitch (tick_member v b h)" "hm_members h' = hm_members (tick_member v b h)"
proof -
  let ?h = "tick_member v b h"
  have ok: "hm_ok ?h" "hm_enable ?h = hm_enable h" "hm_ticking ?h = hm_ticking h" using assms tick_member_fields by auto
  note result = that
  show thesis
  proof (cases "HealthMgr_getCurSV ?h")
    case None
    then have "HealthMgr_checkSwitchValidator v b h = Some ?h" unfolding HealthMgr_checkSwitchValidator_def Let_def None by simp
    then show thesis by (rule result) (simp_all add: ok)
  next
    case (Some sv)
    then obtain r where "sv_Remove sv = Some r" using ok(1) getCurSV_Some unfolding hm_ok_def by blast
    then show thesis using Some ok
      by (intro result [of "if hl_Tick (hm_members ?h r) < HealthOut \<and> sv_From sv = 0
          then HealthMgr_Switch (Some (sv\<lparr>sv_From := 1\<rparr>)) ?h else ?h"])
        (simp_all add: HealthMgr_checkSwitchValidator_def Let_def hm_ok_def)
  qed
qed

lemma work_loop_ok:
  "hm_ok h \<Longrightarrow> \<exists>h'. go_for (\<lambda>v h. HealthMgr_checkSwitchValidator v b h) vs h = Some h' \<and> hm_ok h' \<and>
     hm_enable h' = hm_enable h \<and> hm_ticking h' = hm_ticking h"
proof (induction vs arbitrary: h)
  case (Cons v vs)
  obtain h1 where h1: "HealthMgr_checkSwitchValidator v b h = Some h1" "hm_ok h1" "hm_enable h1 = hm_enable h" "hm_ticking h1 = hm_ticking h"
    by (rule check_ok [OF Cons.prems])
  then show ?case using Cons.IH [OF h1(2)] by simp
qed simp

lemma work_ok: "hm_ok h \<Longrightarrow> \<exists>h'. HealthMgr_work b h = Some h' \<and> hm_ok h' \<and> hm_enable h' = hm_enable h \<and> hm_ticking h' = hm_ticking h"
  using work_loop_ok [of h b "map snd (hm_Work h) @ hm_Back h"] by (cases "hm_enable h") (simp_all add: HealthMgr_work_def)

lemma set_member_fields [simp]:
  "hm_curSwitch (set_member s v h) = hm_curSwitch h" "hm_enable (set_member s v h) = hm_enable h" "hm_ticking (set_member s v h) = hm_ticking h"
  by (simp_all add: set_member_def split: option.splits)

lemma removeCurSV_fields:
  "hm_ok h \<Longrightarrow> hm_ok (HealthMgr_removeCurSV h)" "hm_enable (HealthMgr_removeCurSV h) = hm_enable h"
  "hm_ticking (HealthMgr_removeCurSV h) = hm_ticking h"
  by (auto simp: HealthMgr_removeCurSV_def hm_ok_def split: list.splits)

definition lone_append :: "SwitchValidator \<Rightarrow> bool" where
  "lone_append res \<longleftrightarrow> sv_From res = 0 \<and> length (infos res) = 1 \<and> Flag (hd (infos res)) = StateAppendFlag"

lemma result_members_None:
  "0 < length es \<Longrightarrow> length es < 3 \<Longrightarrow> result_members es h = None \<longleftrightarrow> length es = 1 \<and> Flag (hd es) = StateAppendFlag"
  by (auto simp: result_members_def go_nth_def hd_conv_nth less_Suc_eq numeral_3_eq_3)

lemma switchResult_ok:
  assumes "hm_ok h"
  shows "HealthMgr_switchResult res h = None \<longleftrightarrow> hm_enable h \<and> lone_append res"
    and "HealthMgr_switchResult res h = Some h' \<Longrightarrow> hm_ok h' \<and> hm_enable h' = hm_enable h \<and> hm_ticking h' = hm_ticking h"
proof -
  define h1 where "h1 = (case HealthMgr_getCurSV h of
       Some cur \<Rightarrow>
         if (sv_From res = 1 \<and> SwitchValidator_Equal (hm_members h) (Some cur) (Some res)) \<or>
            SwitchValidator_EqualWithoutID (hm_members h) (Some cur) (Some res) \<or>
            SwitchValidator_EqualWithRemove (hm_members h) (Some cur) (Some res)
         then HealthMgr_removeCurSV h else h
     | None \<Rightarrow> h)"
  have h1: "hm_ok h1" "hm_enable h1 = hm_enable h" "hm_ticking h1 = hm_ticking h"
    using assms removeCurSV_fields by (auto simp: h1_def split: option.splits)
  have eq: "HealthMgr_switchResult res h =
      (if \<not> hm_enable h then Some h
       else if sv_From res = 0 \<and> length (infos res) > 0 \<and> length (infos res) < 3
       then map_option (\<lambda>(add, remove). set_member StateUsedFlag add (set_member StateRemovedFlag remove h1)) (result_members (infos res) h1)
       else Some h1)"
    unfolding HealthMgr_switchResult_def Let_def h1_def [symmetric] by (auto simp: map_option_case split: Option.bind_splits option.splits)
  show "HealthMgr_switchResult res h = None \<longleftrightarrow> hm_enable h \<and> lone_append res"
    using result_members_None [of "infos res" h1] by (auto simp: eq lone_append_def)
  show "HealthMgr_switchResult res h = Some h' \<Longrightarrow> hm_ok h' \<and> hm_enable h' = hm_enable h \<and> hm_ticking h' = hm_ticking h"
    using assms h1 by (auto simp: eq hm_ok_def split: if_splits)
qed

lemma set_flag_fields [simp]:
  "hm_curSwitch (set_flag vs v h) = hm_curSwitch h" "hm_enable (set_flag vs v h) = hm_enable h" "hm_ticking (set_flag vs v h) = hm_ticking h"
  by (simp_all add: set_flag_def split: option.splits)

lemma fold_fields:
  assumes "\<And>v h. g (f v h) = g h"
  shows "g (fold f vs h) = g h"
  using assms by (induction vs arbitrary: h) auto

lemma UpdateFromCommittee_ok:
  "hm_ok h \<Longrightarrow> hm_ok (HealthMgr_UpdateFromCommittee ms bs h) \<and>
    hm_enable (HealthMgr_UpdateFromCommittee ms bs h) = hm_enable h \<and> hm_ticking (HealthMgr_UpdateFromCommittee ms bs h) = hm_ticking h"
  by (auto simp: HealthMgr_UpdateFromCommittee_def Let_def HealthMgr_checkSaveSwitchValidator_def hm_ok_def
      fold_fields [where g = hm_curSwitch] fold_fields [where g = hm_enable] fold_fields [where g = hm_ticking]
      intro: le_trans [OF length_filter_le])

section \<open>Runs\<close>

text \<open>One action of the manager or of a caller; \<open>n\<close> is the minimal number of committee members.\<close>

inductive hm_step :: "nat \<Rightarrow> HealthMgr \<Rightarrow> HealthMgr \<Rightarrow> bool" for n where
  hm_tick: "HealthMgr_work (fst (HealthMgr_isShiftSV n h)) h = Some h' \<Longrightarrow> hm_step n h h'"
| hm_result: "HealthMgr_switchResult res h = Some h' \<Longrightarrow> hm_step n h h'"
| hm_update: "hm_step n h (HealthMgr_Update pid h)"
| hm_committee: "hm_step n h (HealthMgr_UpdateFromCommittee ms bs h)"
| hm_info: "hm_step n h (HealthMgr_UpdataHealthInfo pid ip port pk h)"
| hm_work: "hm_step n h (HealthMgr_PutWorkHealth r h)"
| hm_back: "hm_step n h (HealthMgr_PutBackHealth r' h)"

lemma hm_step_ok:
  assumes "hm_ok h" "hm_step n h h'"
  shows "hm_ok h' \<and> hm_enable h' = hm_enable h \<and> hm_ticking h' = hm_ticking h"
  using assms(2)
proof cases
  case hm_tick
  then show ?thesis using work_ok [OF assms(1), of "fst (HealthMgr_isShiftSV n h)"] by auto
next
  case (hm_result res)
  then show ?thesis using switchResult_ok(2) [OF assms(1)] by blast
next
  case (hm_committee ms bs)
  then show ?thesis using UpdateFromCommittee_ok [OF assms(1)] by simp
qed (use assms(1) in \<open>auto simp: HealthMgr_Update_def HealthMgr_UpdataHealthInfo_def HealthMgr_PutWorkHealth_def
    HealthMgr_PutBackHealth_def hm_ok_def split: option.splits\<close>)

interpretation hmi: invariant_system "hm_step n" hm_ok for n
  by unfold_locales (auto dest: hm_step_ok)

interpretation hmo: invariant_system "hm_step n" "\<lambda>h. hm_ok h \<and> \<not> hm_enable h \<and> \<not> hm_ticking h" for n
  by unfold_locales (auto dest: hm_step_ok)

section \<open>A silent member is switched\<close>

text \<open>A member in use, neither fixed nor this node, whose next tick exceeds the limit.\<close>

definition overdue :: "Health \<Rightarrow> bool" where
  "overdue m \<longleftrightarrow> hl_State m = StateUsedFlag \<and> hl_HType m \<noteq> TypeFixed \<and> \<not> hl_Self m \<and> HealthOut + 60 < wrap32 (hl_Tick m + 1)"

text \<open>The manager as a tick leaves it while no switch is in progress: only ticks have changed.\<close>

definition ticked :: "href set \<Rightarrow> HealthMgr \<Rightarrow> HealthMgr \<Rightarrow> bool" where
  "ticked R h k \<longleftrightarrow> hm_Work k = hm_Work h \<and> hm_Back k = hm_Back h \<and> hm_seed k = hm_seed h \<and> hm_curSwitch k = hm_curSwitch h \<and>
     hm_sent k = hm_sent h \<and> (\<forall>r. r \<notin> R \<longrightarrow> hm_members k r = hm_members h r) \<and>
     (\<forall>r. hl_State (hm_members k r) = hl_State (hm_members h r) \<and> hl_Val (hm_members k r) = hl_Val (hm_members h r))"

lemma ticked_refl: "ticked R h h"
  by (simp add: ticked_def)

lemma ticked_trans: "ticked R h k \<Longrightarrow> ticked Q k l \<Longrightarrow> R \<subseteq> T \<Longrightarrow> Q \<subseteq> T \<Longrightarrow> ticked T h l"
  unfolding ticked_def by (metis subsetD)

lemma tick_member_ticked: "\<not> overdue (hm_members h x) \<or> hm_curSwitch h \<noteq> [] \<Longrightarrow> ticked {x} h (tick_member x b h)"
  by (auto simp: tick_member_def overdue_def ticked_def Let_def)

lemma check_ticked:
  assumes "if hm_curSwitch h = [] then \<not> overdue (hm_members h x)
    else \<exists>sv r. hm_curSwitch h = [sv] \<and> sv_Remove sv = Some r \<and> r \<noteq> x \<and> HealthOut \<le> hl_Tick (hm_members h r)"
  shows "\<exists>k. HealthMgr_checkSwitchValidator x b h = Some k \<and> ticked {x} h k"
proof -
  have t: "ticked {x} h (tick_member x b h)" by (rule tick_member_ticked) (use assms in \<open>auto split: if_splits\<close>)
  show ?thesis
  proof (cases "hm_curSwitch h = []")
    case True
    then show ?thesis using t by (auto simp: HealthMgr_checkSwitchValidator_def Let_def HealthMgr_getCurSV_def ticked_def)
  next
    case False
    then obtain sv r where r: "hm_curSwitch h = [sv]" "sv_Remove sv = Some r" "r \<noteq> x" "HealthOut \<le> hl_Tick (hm_members h r)"
      using assms by auto
    then have "HealthMgr_getCurSV (tick_member x b h) = Some sv" "hm_members (tick_member x b h) r = hm_members h r"
      using t by (auto simp: HealthMgr_getCurSV_def ticked_def)
    then show ?thesis using t r(2,4) by (simp add: HealthMgr_checkSwitchValidator_def Let_def)
  qed
qed

lemma loop_before:
  assumes "hm_curSwitch h = []" "distinct xs" "\<forall>x \<in> set xs. \<not> overdue (hm_members h x)"
  shows "\<exists>k. go_for (\<lambda>v h. HealthMgr_checkSwitchValidator v b h) xs h = Some k \<and> ticked (set xs) h k"
  using assms
proof (induction xs arbitrary: h)
  case (Cons x xs)
  obtain k where k: "HealthMgr_checkSwitchValidator x b h = Some k" "ticked {x} h k" using check_ticked [of h x b] Cons.prems by auto
  have "\<forall>y \<in> set xs. \<not> overdue (hm_members k y)" "hm_curSwitch k = []" using k(2) Cons.prems by (auto simp: ticked_def)
  then obtain l where "go_for (\<lambda>v h. HealthMgr_checkSwitchValidator v b h) xs k = Some l" "ticked (set xs) k l"
    using Cons.IH Cons.prems(2) by auto
  then show ?case using k ticked_trans [OF k(2), of "set xs" l "insert x (set xs)"] by auto
qed (simp add: ticked_refl)

lemma loop_after:
  assumes "hm_curSwitch h = [sv]" "sv_Remove sv = Some r" "r \<notin> set ys" "HealthOut \<le> hl_Tick (hm_members h r)"
  shows "\<exists>k. go_for (\<lambda>v h. HealthMgr_checkSwitchValidator v b h) ys h = Some k \<and> ticked (set ys) h k"
  using assms
proof (induction ys arbitrary: h)
  case (Cons y ys)
  obtain k where k: "HealthMgr_checkSwitchValidator y b h = Some k" "ticked {y} h k" using check_ticked [of h y b] Cons.prems by auto
  have "hm_curSwitch k = [sv]" "hm_members k r = hm_members h r" using k(2) Cons.prems by (auto simp: ticked_def)
  then obtain l where "go_for (\<lambda>v h. HealthMgr_checkSwitchValidator v b h) ys k = Some l" "ticked (set ys) k l"
    using Cons.IH [of k] Cons.prems by auto
  then show ?case using k ticked_trans [OF k(2), of "set ys" l "insert y (set ys)"] by auto
qed (simp add: ticked_refl)

text \<open>The switch that is started: what it names and what is sent.\<close>

lemma check_starts:
  assumes "hm_curSwitch h = []" "overdue (hm_members h r)"
  shows "\<exists>sv k. HealthMgr_checkSwitchValidator r True h = Some k \<and> hm_curSwitch k = [sv] \<and> hm_sent k = hm_sent h @ [sv] \<and>
    sv_Remove sv = Some r \<and> sv_From sv = 0 \<and> sv_Add sv = find (\<lambda>v. hl_State (hm_members h v) = StateUnusedFlag) (hm_Back h @ hm_seed h) \<and>
    infos sv \<noteq> [] \<and> last (infos sv) = new_member (Address (hl_Val (hm_members h r))) StateRemovedFlag \<and>
    hl_State (hm_members k r) = StateSwitchingFlag \<and> HealthOut \<le> hl_Tick (hm_members k r)"
proof -
  let ?h = "upd r (\<lambda>m. m\<lparr>hl_Tick := wrap32 (hl_Tick (hm_members h r) + 1)\<rparr>) h"
  have t: "tick_member r True h = start_switch r ?h" using assms by (simp add: tick_member_def overdue_def Let_def)
  have f: "find (\<lambda>v. hl_State (hm_members ?h v) = StateUnusedFlag) xs = find (\<lambda>v. hl_State (hm_members h v) = StateUnusedFlag) xs" for xs
    by (rule arg_cong [where f = "\<lambda>P. find P xs"]) auto
  have ne: "a \<noteq> r" if "find (\<lambda>v. hl_State (hm_members h v) = StateUnusedFlag) (hm_Back h @ hm_seed h) = Some a" for a
    using that assms(2) by (auto simp: find_Some_iff overdue_def)
  let ?k = "start_switch r ?h"
  obtain sv where sv: "hm_curSwitch ?k = [sv]" "hm_sent ?k = hm_sent h @ [sv]" "sv_Remove sv = Some r" "sv_From sv = 0"
    "sv_Add sv = find (\<lambda>v. hl_State (hm_members h v) = StateUnusedFlag) (hm_Back h @ hm_seed h)"
    "infos sv \<noteq> []" "last (infos sv) = new_member (Address (hl_Val (hm_members h r))) StateRemovedFlag"
    "hl_State (hm_members ?k r) = StateSwitchingFlag" "hl_Tick (hm_members ?k r) = wrap32 (hl_Tick (hm_members h r) + 1)"
    using assms(1) ne f
    by (cases "find (\<lambda>v. hl_State (hm_members h v) = StateUnusedFlag) (hm_Back h @ hm_seed h)")
      (auto simp: start_switch_def Let_def HealthMgr_pickUnuseValidator_def HealthMgr_makeSwitchValidators_def
        HealthMgr_setCurSV_def HealthMgr_Switch_def infos_def)
  have "HealthMgr_checkSwitchValidator r True h = Some ?k"
    using sv assms(2) by (simp add: HealthMgr_checkSwitchValidator_def t Let_def HealthMgr_getCurSV_def overdue_def)
  then show ?thesis using sv assms(2) by (intro exI [of _ sv] exI [of _ ?k]) (simp add: overdue_def)
qed

section \<open>Properties\<close>

definition demo_members :: members where
  "demo_members r = NewHealth [] 0 StateUsedFlag \<lparr>Address = [of_nat r], PubKey = [], VotingPower = 1, Accum = 0\<rparr> False"

text \<open>
  C37: from a new manager, every sequence of ticks, results and updates keeps at most one switch in
  progress, and that switch names a member to remove. A tick never panics. Handling a result panics
  exactly when the manager is enabled and the result has a single entry that appends a member,
  because the second entry is read although there is none.
\<close>

theorem health_switch_invariant:
  assumes "(hm_step n)\<^sup>*\<^sup>* (NewHealthMgr e st cid) h"
  shows "length (hm_curSwitch h) \<le> 1 \<and> (\<forall>sv \<in> set (hm_curSwitch h). sv_Remove sv \<noteq> None) \<and> HealthMgr_work b h \<noteq> None \<and>
    (HealthMgr_switchResult res h = None \<longleftrightarrow> hm_enable h \<and> sv_From res = 0 \<and>
       (\<exists>m. infos res = [m] \<and> Flag m = StateAppendFlag))"
proof -
  have ok: "hm_ok h" by (rule hmi.invar_reach [OF assms]) (simp add: hm_ok_def NewHealthMgr_def)
  have "lone_append res \<longleftrightarrow> sv_From res = 0 \<and> (\<exists>m. infos res = [m] \<and> Flag m = StateAppendFlag)"
    by (auto simp: lone_append_def length_Suc_conv)
  then show ?thesis using ok work_ok [OF ok, of b] switchResult_ok(1) [OF ok, of res] by (auto simp: hm_ok_def)
qed

theorem health_switch_invariant_witness:
  "HealthMgr_switchResult \<lparr>sv_Remove = None, sv_Add = Some 0, sv_Infos = Some [new_member [1] StateAppendFlag], sv_Resion = [],
     sv_From = 0, sv_DoorCount = 0, sv_Round = 0, sv_ID = 0\<rparr> (NewHealthMgr True demo_members 0) = None"
  using health_switch_invariant [OF rtranclp.rtrancl_refl [of "hm_step 0" "NewHealthMgr True demo_members 0"], of _
    "\<lparr>sv_Remove = None, sv_Add = Some 0, sv_Infos = Some [new_member [1] StateAppendFlag], sv_Resion = [],
     sv_From = 0, sv_DoorCount = 0, sv_Round = 0, sv_ID = 0\<rparr>"]
  by (simp add: infos_def new_member_def NewHealthMgr_def)

text \<open>
  C38: a silent member is put up for a switch. When the manager is enabled, may shift members and has no
  switch in progress, a tick that visits its members in any order starts a switch for the first
  one that is in use, neither fixed nor this node, and silent for more than the limit: this switch is
  the one in progress and the only one sent, it removes that member, whose address is its last entry,
  for the first unused spare, if there is one, and the member is marked as switching.
\<close>

theorem silent_member_is_switched:
  assumes "hm_enable h" "hm_curSwitch h = []" "map snd (hm_Work h) @ hm_Back h = xs @ r # ys" "distinct (xs @ r # ys)"
    and "\<forall>x \<in> set xs. \<not> overdue (hm_members h x)" "overdue (hm_members h r)"
  shows "\<exists>h' sv. HealthMgr_work True h = Some h' \<and> hm_curSwitch h' = [sv] \<and> hm_sent h' = hm_sent h @ [sv] \<and>
    sv_Remove sv = Some r \<and> sv_From sv = 0 \<and> sv_Add sv = find (\<lambda>v. hl_State (hm_members h v) = StateUnusedFlag) (hm_Back h @ hm_seed h) \<and>
    infos sv \<noteq> [] \<and> last (infos sv) = new_member (Address (hl_Val (hm_members h r))) StateRemovedFlag \<and>
    hl_State (hm_members h' r) = StateSwitchingFlag"
proof -
  let ?loop = "go_for (\<lambda>v h. HealthMgr_checkSwitchValidator v True h)"
  obtain h1 where h1: "?loop xs h = Some h1" "ticked (set xs) h h1" using loop_before [OF assms(2) _ assms(5), of True] assms(4) by auto
  have same: "hm_members h1 r = hm_members h r" "hm_curSwitch h1 = []" using h1(2) assms(2,4) by (auto simp: ticked_def)
  obtain sv h2 where h2: "HealthMgr_checkSwitchValidator r True h1 = Some h2" "hm_curSwitch h2 = [sv]" "hm_sent h2 = hm_sent h1 @ [sv]"
    "sv_Remove sv = Some r" "sv_From sv = 0" "sv_Add sv = find (\<lambda>v. hl_State (hm_members h1 v) = StateUnusedFlag) (hm_Back h1 @ hm_seed h1)"
    "infos sv \<noteq> []" "last (infos sv) = new_member (Address (hl_Val (hm_members h1 r))) StateRemovedFlag"
    "hl_State (hm_members h2 r) = StateSwitchingFlag" "HealthOut \<le> hl_Tick (hm_members h2 r)"
    using check_starts [OF same(2), of r] assms(6) unfolding same(1) by blast
  obtain h3 where h3: "?loop ys h2 = Some h3" "ticked (set ys) h2 h3"
    using loop_after [OF h2(2,4) _ h2(10), of ys True] assms(4) by auto
  have "HealthMgr_work True h = Some h3" using assms(1) h1(1) h2(1) h3(1) by (simp add: HealthMgr_work_def assms(3) go_for_append)
  then show ?thesis using h2 h3(2) h1(2) same by (intro exI [of _ h3] exI [of _ sv]) (simp add: ticked_def)
qed

definition silent_mgr :: HealthMgr where
  "silent_mgr = (NewHealthMgr True (\<lambda>r. (demo_members r)\<lparr>hl_Tick := (if r = 3 then 1900 else 7)\<rparr>) 0)
     \<lparr>hm_Work := [(''a'', 2), (''b'', 3)], hm_Back := [4]\<rparr>"

theorem silent_member_is_switched_witness:
  "\<exists>h' sv. HealthMgr_work True silent_mgr = Some h' \<and> hm_curSwitch h' = [sv] \<and> hm_sent h' = [sv] \<and> sv_Remove sv = Some 3"
proof -
  have w: "wrap32 1901 = 1901" "wrap32 8 = 8" by (simp_all add: wrap32_def)
  have "hm_enable silent_mgr" "hm_curSwitch silent_mgr = []" "map snd (hm_Work silent_mgr) @ hm_Back silent_mgr = [2] @ 3 # [4]"
    "distinct ([2 :: href] @ 3 # [4])" "\<forall>x \<in> set [2]. \<not> overdue (hm_members silent_mgr x)" "overdue (hm_members silent_mgr 3)"
    by (simp_all add: silent_mgr_def NewHealthMgr_def overdue_def demo_members_def NewHealth_def w)
  from silent_member_is_switched [OF this] show ?thesis by (auto simp: silent_mgr_def NewHealthMgr_def)
qed

text \<open>
  A started manager does nothing. \<open>OnStart\<close> clears the global \<open>EnableHealthMgr\<close> before it tests it,
  so the ticker is never made; from then on no tick changes anything, no result is handled and
  every switch that a proposal carries is rejected.
\<close>

theorem started_manager_is_idle:
  assumes "(hm_step n)\<^sup>*\<^sup>* (HealthMgr_OnStart (NewHealthMgr e st cid)) h"
  shows "\<not> hm_ticking h \<and> HealthMgr_work b h = Some h \<and> HealthMgr_switchResult res h = Some h \<and>
    HealthMgr_VerifySwitch sv h = Err ErrNotEnabled"
proof -
  have "hm_ok h \<and> \<not> hm_enable h \<and> \<not> hm_ticking h"
    by (rule hmo.invar_reach [OF assms]) (simp add: hm_ok_def NewHealthMgr_def HealthMgr_OnStart_def Let_def)
  then show ?thesis by (simp add: HealthMgr_work_def HealthMgr_switchResult_def HealthMgr_VerifySwitch_def)
qed

theorem started_manager_is_idle_witness:
  "HealthMgr_work True (HealthMgr_OnStart silent_mgr) = Some (HealthMgr_OnStart silent_mgr) \<and>
   \<not> hm_ticking (HealthMgr_OnStart (NewHealthMgr True demo_members 1))"
  using started_manager_is_idle [OF rtranclp.rtrancl_refl [of "hm_step 0" "HealthMgr_OnStart (NewHealthMgr True demo_members 1)"]]
  by (simp add: HealthMgr_work_def HealthMgr_OnStart_def Let_def)

end
