(* ===== verification/Block_Store.thy ===== *)
theory Block_Store
  imports Part_Set "HOL-Library.AList"
begin

text \<open>
  The store of committed blocks in \<^verbatim>\<open>consensus/tbft/types/datas.go\<close>. The map from heights to blocks is an
  association list with distinct heights, whose order is the order in which the runtime
  iterates over the map; the results below hold for every order.
\<close>

section \<open>The operations\<close>

abbreviation MaxLimitBlockStore :: nat where "MaxLimitBlockStore \<equiv> 200"

record 'blk BlockMeta =
  bm_Block :: 'blk
  bm_BlockID :: BlockID
  bm_BlockPacks :: "PartSet option"
  bm_SeenCommit :: Commit
  bm_Proposal :: "Proposal option"

type_synonym 'blk BlockStore = "(u64 \<times> 'blk BlockMeta) list"

definition NewBlockStore :: "'blk BlockStore" where
  "NewBlockStore = []"

definition BlockStore_LoadBlockMeta :: "u64 \<Rightarrow> 'blk BlockStore \<Rightarrow> 'blk BlockMeta option" where
  "BlockStore_LoadBlockMeta height b = map_of b height"

definition BlockStore_LoadBlockPart :: "u64 \<Rightarrow> u64 \<Rightarrow> 'blk BlockStore \<Rightarrow> Part option option" where
  "BlockStore_LoadBlockPart height index b =
     (case map_of b height of
        Some v \<Rightarrow> do { ps \<leftarrow> bm_BlockPacks v; PartSet_GetPart ps index }
      | None \<Rightarrow> Some None)"

definition BlockStore_MaxBlockHeight :: "'blk BlockStore \<Rightarrow> u64" where
  "BlockStore_MaxBlockHeight b =
     fold (\<lambda>k cur. let cur = (if cur = 0 then k else cur) in if cur < k then k else cur) (map fst b) 0"

definition BlockStore_MinBlockHeight :: "'blk BlockStore \<Rightarrow> u64" where
  "BlockStore_MinBlockHeight b =
     fold (\<lambda>k cur. let cur = (if cur = 0 then k else cur) in if cur > k then k else cur) (map fst b) 0"

definition BlockStore_LoadBlockCommit :: "u64 \<Rightarrow> 'blk BlockStore \<Rightarrow> Commit option" where
  "BlockStore_LoadBlockCommit height b = map_option bm_SeenCommit (map_of b height)"

text \<open>The number of the block is an argument.\<close>

definition BlockStore_SaveBlock ::
  "u64 \<Rightarrow> 'blk \<Rightarrow> PartSet option \<Rightarrow> Commit \<Rightarrow> Proposal option \<Rightarrow> 'blk BlockStore \<Rightarrow> 'blk BlockStore option" where
  "BlockStore_SaveBlock number block blockParts seenCommit proposal b = do {
     b \<leftarrow> (if length b \<ge> MaxLimitBlockStore then
             (let k = BlockStore_MinBlockHeight b
              in do { go_assert (\<not> k \<le> 0); Some (AList.delete k b) })
           else Some b);
     Some (if map_of b number = None
           then b @ [(number, \<lparr>bm_Block = block, bm_BlockID = cBlockID seenCommit, bm_BlockPacks = blockParts,
                               bm_SeenCommit = seenCommit, bm_Proposal = proposal\<rparr>)]
           else b)
   }"

section \<open>The extreme heights\<close>

lemma max_fold:
  "fold (\<lambda>k cur. let cur = (if cur = 0 then k else cur) in if cur < k then k else cur) ks c = fold max ks (c :: u64)"
proof (induction ks arbitrary: c)
  case (Cons k ks)
  have "(let cur = (if c = 0 then k else c) in if cur < k then k else cur) = max k c"
    by (auto simp: max_def Let_def not_le intro: antisym)
  then show ?case using Cons by simp
qed simp

lemma fold_max_insert: "fold max ks c = Max (insert c (set ks))" for c :: "'a :: linorder"
  by (simp only: Max.set_eq_fold list.set(2) [symmetric])

lemma fold_min_insert: "fold min ks c = Min (insert c (set ks))" for c :: "'a :: linorder"
  by (simp only: Min.set_eq_fold list.set(2) [symmetric])

lemma MaxBlockHeight_eq: "BlockStore_MaxBlockHeight b = Max (insert 0 (fst ` set b))"
  unfolding BlockStore_MaxBlockHeight_def max_fold fold_max_insert by simp

lemma min_fold:
  "0 \<notin> set ks \<Longrightarrow> c \<noteq> 0 \<Longrightarrow>
    fold (\<lambda>k cur. let cur = (if cur = 0 then k else cur) in if cur > k then k else cur) ks c = fold min ks (c :: u64)"
proof (induction ks arbitrary: c)
  case (Cons k ks)
  have "(let cur = (if c = 0 then k else c) in if cur > k then k else cur) = min k c"
    using Cons.prems by (auto simp: min_def Let_def)
  moreover have "min k c \<noteq> 0" using Cons.prems by (auto simp: min_def)
  ultimately show ?case using Cons by simp
qed simp

lemma MinBlockHeight_eq:
  assumes "0 \<notin> fst ` set b" "b \<noteq> []"
  shows "BlockStore_MinBlockHeight b = Min (fst ` set b)"
proof -
  obtain k ks where k: "map fst b = k # ks" using assms(2) by (cases b) auto
  have nz: "k \<noteq> 0" "0 \<notin> set ks" using assms(1) k by (metis image_set list.set_intros)+
  have "BlockStore_MinBlockHeight b = fold min ks k"
    unfolding BlockStore_MinBlockHeight_def k using nz min_fold [OF nz(2,1)] by simp
  also have "\<dots> = Min (set (map fst b))" unfolding k by (simp add: fold_min_insert)
  finally show ?thesis by simp
qed

section \<open>The invariant\<close>

definition store_ok :: "'blk BlockStore \<Rightarrow> bool" where
  "store_ok b \<longleftrightarrow> distinct (map fst b) \<and> length b \<le> MaxLimitBlockStore \<and> 0 \<notin> fst ` set b"

lemma store_ok_new: "store_ok NewBlockStore"
  by (simp add: store_ok_def NewBlockStore_def)

definition kept :: "u64 \<Rightarrow> 'blk BlockStore \<Rightarrow> bool" where
  "kept k b \<longleftrightarrow> (length b \<ge> MaxLimitBlockStore \<longrightarrow> k \<noteq> Min (fst ` set b))"

lemma SaveBlock_ok:
  assumes ok: "store_ok b" and n: "number \<noteq> 0"
  shows "\<exists>b'. BlockStore_SaveBlock number block parts commit proposal b = Some b' \<and> store_ok b' \<and>
    (\<forall>k. map_of b' k = (if kept k b \<and> map_of b k \<noteq> None then map_of b k
       else if k = number then Some \<lparr>bm_Block = block, bm_BlockID = cBlockID commit, bm_BlockPacks = parts,
         bm_SeenCommit = commit, bm_Proposal = proposal\<rparr> else None))"
proof -
  define c where "c = (if length b \<ge> MaxLimitBlockStore then AList.delete (Min (fst ` set b)) b else b)"
  have min: "b \<noteq> [] \<Longrightarrow> Min (fst ` set b) \<in> fst ` set b" by (intro Min_in) auto
  have c: "map_of c = (\<lambda>k. if kept k b then map_of b k else None)"
    by (auto simp: c_def kept_def delete_conv)
  have dist: "distinct (map fst c)" using ok by (auto simp: c_def store_ok_def distinct_delete)
  have len: "length c < MaxLimitBlockStore"
  proof (cases "length b \<ge> MaxLimitBlockStore")
    case True
    then have "b \<noteq> []" by auto
    from min [OF this] obtain v where "(Min (fst ` set b), v) \<in> set b" unfolding image_iff by force
    then have "length (AList.delete (Min (fst ` set b)) b) < length b"
      unfolding AList.delete_eq by (intro length_filter_less) auto
    then show ?thesis using True ok by (simp add: c_def store_ok_def)
  qed (simp add: c_def)
  have zero: "0 \<notin> fst ` set c" using ok by (auto simp: c_def store_ok_def AList.delete_eq)
  have first: "(if length b \<ge> MaxLimitBlockStore then
             (let k = BlockStore_MinBlockHeight b in do { go_assert (\<not> k \<le> 0); Some (AList.delete k b) })
           else Some b) = Some c"
  proof (cases "length b \<ge> MaxLimitBlockStore")
    case True
    then have b: "b \<noteq> []" by auto
    have m: "BlockStore_MinBlockHeight b = Min (fst ` set b)" by (rule MinBlockHeight_eq) (use ok b in \<open>auto simp: store_ok_def\<close>)
    have "Min (fst ` set b) \<noteq> 0" using min [OF b] ok unfolding store_ok_def by metis
    then show ?thesis using True by (simp add: m c_def Let_def)
  qed (simp add: c_def)
  let ?m = "\<lparr>bm_Block = block, bm_BlockID = cBlockID commit, bm_BlockPacks = parts, bm_SeenCommit = commit, bm_Proposal = proposal\<rparr>"
  let ?b = "if map_of c number = None then c @ [(number, ?m)] else c"
  have "BlockStore_SaveBlock number block parts commit proposal b = Some ?b"
    unfolding BlockStore_SaveBlock_def first by simp
  moreover have "store_ok ?b"
    using dist len zero n by (auto simp: store_ok_def map_of_eq_None_iff)
  moreover have "map_of ?b k = (if kept k b \<and> map_of b k \<noteq> None then map_of b k else if k = number then Some ?m else None)" for k
    using c by (auto simp: map_add_def split: option.splits)
  ultimately show ?thesis by (intro exI [of _ ?b]) blast
qed

section \<open>Saving the next block\<close>

lemma MaxBlockHeight_ge: "k \<in> fst ` set b \<Longrightarrow> k \<le> BlockStore_MaxBlockHeight b"
  unfolding MaxBlockHeight_eq by (intro Max_ge) auto

lemma MaxBlockHeight_is:
  assumes "number \<in> fst ` set b" "\<And>k. k \<in> fst ` set b \<Longrightarrow> k \<le> number"
  shows "BlockStore_MaxBlockHeight b = number"
  unfolding MaxBlockHeight_eq using assms by (intro Max_eqI) auto

lemma map_of_keys: "k \<in> fst ` set b \<longleftrightarrow> map_of b k \<noteq> None"
  by (simp add: map_of_eq_None_iff)

text \<open>
  C39: When a block above every stored height is saved, as a commit does, the save does not
  panic and the store stays well formed with at most 200 blocks at distinct positive
  heights. The saved block is then found at its height together with its parts, its commit
  and its proposal, its height is the maximal one, and every other height keeps its
  entry, except that a full store drops its lowest block and only that.\<close>

theorem SaveBlock_exact:
  assumes ok: "store_ok b" and above: "BlockStore_MaxBlockHeight b < number"
  shows "\<exists>b'. BlockStore_SaveBlock number block parts commit proposal b = Some b' \<and> store_ok b' \<and>
    BlockStore_LoadBlockMeta number b' = Some \<lparr>bm_Block = block, bm_BlockID = cBlockID commit,
      bm_BlockPacks = parts, bm_SeenCommit = commit, bm_Proposal = proposal\<rparr> \<and>
    BlockStore_LoadBlockCommit number b' = Some commit \<and>
    BlockStore_MaxBlockHeight b' = number \<and>
    (\<forall>k. k \<noteq> number \<longrightarrow> BlockStore_LoadBlockMeta k b' =
       (if length b = 200 \<and> k = BlockStore_MinBlockHeight b then None else BlockStore_LoadBlockMeta k b))"
proof -
  have n: "number \<noteq> 0" using above by auto
  have fresh: "map_of b number = None"
    using above MaxBlockHeight_ge [of number b] by (force simp: map_of_keys)
  obtain b' where b': "BlockStore_SaveBlock number block parts commit proposal b = Some b'" "store_ok b'"
    and get: "\<And>k. map_of b' k = (if kept k b \<and> map_of b k \<noteq> None then map_of b k
       else if k = number then Some \<lparr>bm_Block = block, bm_BlockID = cBlockID commit, bm_BlockPacks = parts,
         bm_SeenCommit = commit, bm_Proposal = proposal\<rparr> else None)"
    using SaveBlock_ok [OF ok n] by metis
  have new: "map_of b' number = Some \<lparr>bm_Block = block, bm_BlockID = cBlockID commit, bm_BlockPacks = parts,
         bm_SeenCommit = commit, bm_Proposal = proposal\<rparr>" using get [of number] fresh by simp
  have max: "BlockStore_MaxBlockHeight b' = number"
  proof (rule MaxBlockHeight_is)
    show "number \<in> fst ` set b'" using new by (simp add: map_of_keys)
  next
    fix k assume "k \<in> fst ` set b'"
    then have "k = number \<or> k \<in> fst ` set b"
      using get [of k] by (simp add: map_of_keys split: if_splits)
    then show "k \<le> number" using above MaxBlockHeight_ge [of k b] by force
  qed
  have kept: "kept k b \<longleftrightarrow> \<not> (length b = 200 \<and> k = BlockStore_MinBlockHeight b)" for k
  proof (cases "length b \<ge> MaxLimitBlockStore")
    case True
    then have "BlockStore_MinBlockHeight b = Min (fst ` set b)"
      using ok by (intro MinBlockHeight_eq) (auto simp: store_ok_def)
    then show ?thesis using True ok by (simp add: kept_def store_ok_def)
  qed (simp add: kept_def)
  show ?thesis
    using b' new max get kept
    by (intro exI [of _ b']) (auto simp: BlockStore_LoadBlockMeta_def BlockStore_LoadBlockCommit_def)
qed

text \<open>A store that is full.\<close>

definition demo_meta :: "string BlockMeta" where
  "demo_meta = \<lparr>bm_Block = ''block'', bm_BlockID = \<lparr>Hash = [2], PartsHeader = zero_header\<rparr>, bm_BlockPacks = None,
     bm_SeenCommit = \<lparr>cBlockID = \<lparr>Hash = [2], PartsHeader = zero_header\<rparr>, Precommits = [], firstPrecommit = None, bitArray = None\<rparr>,
     bm_Proposal = None\<rparr>"

definition full_store :: "string BlockStore" where
  "full_store = map (\<lambda>i. (of_nat (Suc i), demo_meta)) [0..<200]"

lemma full_store_keys: "fst ` set full_store = (\<lambda>i. of_nat (Suc i)) ` {0..<200}" "length full_store = 200"
  by (simp_all add: full_store_def image_image)

lemma unat_200: "i < 200 \<Longrightarrow> unat (of_nat (Suc i) :: u64) = Suc i"
  by (rule unat_of_nat64) simp

lemma full_store_ok: "store_ok full_store"
proof -
  have "inj_on (\<lambda>i. of_nat (Suc i) :: u64) {0..<200}" by (rule inj_onI) (metis atLeastLessThan_iff nat.inject unat_200)
  then have "distinct (map fst full_store)" by (simp add: full_store_def comp_def distinct_map)
  moreover have "0 \<notin> fst ` set full_store"
    unfolding full_store_keys using unat_200 by (metis (no_types, lifting) atLeastLessThan_iff imageE nat.distinct(1) unat_0)
  ultimately show ?thesis using full_store_keys(2) by (simp add: store_ok_def)
qed

lemma full_store_bounds: "BlockStore_MaxBlockHeight full_store < 201" "BlockStore_MinBlockHeight full_store = 1"
proof -
  have le: "k < 201" "1 \<le> k" if "k \<in> fst ` set full_store" for k
    using that unat_200 unfolding full_store_keys by (auto simp: word_less_nat_alt word_le_nat_alt)
  then show "BlockStore_MaxBlockHeight full_store < 201" unfolding MaxBlockHeight_eq by (subst Max_less_iff) auto
  have "1 \<in> fst ` set full_store" unfolding full_store_keys by (rule image_eqI [of _ _ 0]) simp_all
  then have "Min (fst ` set full_store) = 1" using le by (intro Min_eqI) auto
  moreover have "full_store \<noteq> []" using full_store_keys(2) by auto
  ultimately show "BlockStore_MinBlockHeight full_store = 1"
    using full_store_ok by (subst MinBlockHeight_eq) (auto simp: store_ok_def)
qed

theorem SaveBlock_exact_witness:
  "\<exists>b'. BlockStore_SaveBlock 201 ''new'' None (bm_SeenCommit demo_meta) None full_store = Some b' \<and>
     BlockStore_MaxBlockHeight b' = 201 \<and> BlockStore_LoadBlockMeta 1 full_store \<noteq> None \<and> BlockStore_LoadBlockMeta 1 b' = None \<and>
     BlockStore_LoadBlockMeta 2 b' = BlockStore_LoadBlockMeta 2 full_store \<and> BlockStore_LoadBlockMeta 2 full_store \<noteq> None"
proof -
  have in12: "1 \<in> fst ` set full_store" "2 \<in> fst ` set full_store"
    unfolding full_store_keys by (rule image_eqI [of _ _ 0], simp_all, rule image_eqI [of _ _ 1], simp_all)
  from SaveBlock_exact [OF full_store_ok full_store_bounds(1), of "''new''" None "bm_SeenCommit demo_meta" None] obtain b' where
    b': "BlockStore_SaveBlock 201 ''new'' None (bm_SeenCommit demo_meta) None full_store = Some b'" "BlockStore_MaxBlockHeight b' = 201"
    "\<And>k. k \<noteq> 201 \<Longrightarrow> BlockStore_LoadBlockMeta k b' =
       (if length full_store = 200 \<and> k = BlockStore_MinBlockHeight full_store then None else BlockStore_LoadBlockMeta k full_store)"
    by blast
  show ?thesis
    using b'(1,2) b'(3) [of 1] b'(3) [of 2] in12 full_store_keys(2) full_store_bounds(2)
    by (intro exI [of _ b']) (simp add: BlockStore_LoadBlockMeta_def map_of_keys)
qed

end
