(* ===== verification/Consensus_State.thy ===== *)
theory Consensus_State
  imports Height_Vote_Set Health Block_Store
begin

text \<open>
  The consensus state machine, \<^verbatim>\<open>consensus/tbft/state.go\<close> with the round state of
  \<^verbatim>\<open>consensus/tbft/types/round_state.go\<close>. A handler takes the state and returns the new one;
  a panic, which ends the receive routine, is \<^term>\<open>None\<close>.

  \<^item> Effects are recorded in the state: messages to the own queue, requests to the two timers,
    events, notices to the health manager and the blocks handed to the chain are lists to which
    the handlers append.
  \<^item> The answers of the node (its height, its blocks) are the field \<open>cs_agent\<close>; handing a block to the chain
    changes it by \<open>w_commit\<close>, and between two steps it may change in any way.
  \<^item> Every reading of the clock is a new one: \<open>w_now\<close> at the number of readings so far.
  \<^item> \<open>cs_shared\<close> tells whether \<open>cs.Validators\<close> is the object that the agent holds, so that a proposer
    cached through one is seen through the other. Blocks and part sets with the same content
    are taken to be the same object.
  \<^item> The private validator is one object with the one of the agent, as \<^verbatim>\<open>node.go\<close> sets them.
  \<^item> The block is a type parameter. Of the block type that the engine imports, \<^verbatim>\<open>core/types/block.go\<close>
    defines the hash, the number and the transactions, and lacks \<open>SetSign\<close>, \<open>SwitchInfos\<close> and \<open>IsProposal\<close>,
    which the engine calls; all of them, like the consensus parameters, are fields of the world or of
    the agent.
  \<^item> The switches in \<open>svs\<close> are values. In the code a switch that the health manager sent is also its current
    one, so that marking it as restored in \<open>switchHandle\<close> is seen by the manager; here it is not.
  \<^item> The receive routine is one turn per received item; the bound \<open>maxSteps\<close>, which is zero outside of tests,
    and the quit channel are not modelled.
\<close>

section \<open>The state\<close>

type_synonym RoundStepType = byte

abbreviation RoundStepNewHeight :: RoundStepType where "RoundStepNewHeight \<equiv> 0x01"
abbreviation RoundStepNewRound :: RoundStepType where "RoundStepNewRound \<equiv> 0x02"
abbreviation RoundStepPropose :: RoundStepType where "RoundStepPropose \<equiv> 0x03"
abbreviation RoundStepPrevote :: RoundStepType where "RoundStepPrevote \<equiv> 0x04"
abbreviation RoundStepPrevoteWait :: RoundStepType where "RoundStepPrevoteWait \<equiv> 0x05"
abbreviation RoundStepPrecommit :: RoundStepType where "RoundStepPrecommit \<equiv> 0x06"
abbreviation RoundStepPrecommitWait :: RoundStepType where "RoundStepPrecommitWait \<equiv> 0x07"
abbreviation RoundStepCommit :: RoundStepType where "RoundStepCommit \<equiv> 0x08"
abbreviation RoundStepBlockSync :: RoundStepType where "RoundStepBlockSync \<equiv> 0xee"

definition RoundStepType_String :: "RoundStepType \<Rightarrow> string" where
  "RoundStepType_String rs =
     (if rs = RoundStepNewHeight then ''RoundStepNewHeight''
      else if rs = RoundStepNewRound then ''RoundStepNewRound''
      else if rs = RoundStepPropose then ''RoundStepPropose''
      else if rs = RoundStepPrevote then ''RoundStepPrevote''
      else if rs = RoundStepPrevoteWait then ''RoundStepPrevoteWait''
      else if rs = RoundStepPrecommit then ''RoundStepPrecommit''
      else if rs = RoundStepPrecommitWait then ''RoundStepPrecommitWait''
      else if rs = RoundStepCommit then ''RoundStepCommit''
      else if rs = RoundStepBlockSync then ''RoundStepBlockSync''
      else ''RoundStepUnknown'')"

text \<open>The zero time is \<^term>\<open>None\<close>.\<close>

record 'blk RoundState =
  rs_Height :: u64
  rs_Round :: u64
  rs_Step :: RoundStepType
  rs_StartTime :: int
  rs_CommitTime :: "int option"
  rs_Validators :: "ValidatorSet option"
  rs_Proposal :: "Proposal option"
  rs_ProposalBlock :: "'blk option"
  rs_ProposalBlockParts :: "PartSet option"
  rs_LockedRound :: u64
  rs_LockedBlock :: "'blk option"
  rs_LockedBlockParts :: "PartSet option"
  rs_ValidRound :: u64
  rs_ValidBlock :: "'blk option"
  rs_ValidBlockParts :: "PartSet option"
  rs_Votes :: "HeightVoteSet option"
  rs_CommitRound :: u64
  rs_LastCommit :: "VoteSet option"

datatype ConsensusMessage =
    ProposalMessage "Proposal option"
  | BlockPartMessage u64 u64 "Part option"
  | VoteMessage "Vote option"
  | ValidatorUpdateMessage "ValidatorSet option" u64 u64

record msgInfo =
  Msg :: ConsensusMessage
  PeerID :: string

record timeoutInfo =
  ti_Duration :: int
  ti_Height :: u64
  ti_Round :: u64
  ti_Step :: RoundStepType
  ti_Wait :: u64

datatype cs_event = EventNewRoundStep u64 u64 RoundStepType | EventVote Vote

datatype cs_error =
    ErrInvalidProposalSignature
  | ErrInvalidProposalPOLRound
  | ErrAddingVote
  | ErrVoteHeightMismatch
  | ErrVotes hvs_error
  | ErrParts part_error
  | ErrMakeBlock agent_error
  | ErrHealthMgrNotInit

record CommitteeInfo =
  cm_StartHeight :: nat
  cm_Members :: "CommitteeMember list"
  cm_BackMembers :: "CommitteeMember list"

record 'blk ConsensusState = "'blk RoundState" +
  cs_state :: StateAgentImpl
  cs_shared :: bool
  cs_agent :: "'blk agent"
  cs_blockStore :: "'blk BlockStore"
  cs_proposalForCatchup :: "Proposal option"
  cs_peerMsgQueue :: "msgInfo list"
  cs_internalMsgQueue :: "msgInfo list"
  cs_timeoutTicker :: "timeoutInfo list"
  cs_timeoutTask :: "timeoutInfo list"
  cs_taskTimeOut :: int
  cs_evsw :: "cs_event list"
  cs_nSteps :: int
  cs_svs :: "SwitchValidator list"
  cs_hm :: "HealthMgr option"
  cs_cm :: "CommitteeInfo option"
  cs_chanFrom :: "SwitchValidator list"
  cs_clock :: nat
  cs_committed :: "'blk list"

text \<open>What the code uses of other packages.\<close>

record ConsensusConfig =
  cfg_Propose :: "int \<Rightarrow> int"
  cfg_Prevote :: "int \<Rightarrow> int"
  cfg_Precommit :: "int \<Rightarrow> int"
  cfg_Commit :: "int \<Rightarrow> int"
  cfg_CatchupTime :: "int \<Rightarrow> int"
  cfg_CreateEmptyBlocks :: bool
  cfg_WaitForEmptyBlocks :: "int \<Rightarrow> bool"
  cfg_EmptyBlocksIntervalForPer :: "int \<Rightarrow> int"
  cfg_SkipTimeoutCommit :: bool

text \<open>
  The packages around the code, the clock and the block type. \<open>w_committee\<close> is not read by the code: it
  stands for the committees that the elections give, for the statements about whose votes count.
\<close>

record 'blk world =
  w_env :: env
  w_keys :: keyring
  w_hash :: "rlp \<Rightarrow> bytes"
  w_now :: "nat \<Rightarrow> int"
  w_commit :: "'blk \<Rightarrow> 'blk agent \<Rightarrow> 'blk agent"
  w_config :: ConsensusConfig
  blk_Hash :: "'blk \<Rightarrow> bytes"
  blk_Transactions :: "'blk \<Rightarrow> nat"
  blk_IsProposal :: "'blk \<Rightarrow> bool"
  blk_SwitchInfos :: "'blk \<Rightarrow> CommitteeMember list"
  blk_SetSign :: "PbftSign list \<Rightarrow> 'blk \<Rightarrow> 'blk"
  w_committee :: "Validator list \<Rightarrow> bool"

definition time_Now :: "'blk world \<Rightarrow> 'blk ConsensusState \<Rightarrow> int \<times> 'blk ConsensusState" where
  "time_Now W cs = (w_now W (cs_clock cs), cs\<lparr>cs_clock := Suc (cs_clock cs)\<rparr>)"

definition GetAddress :: "'blk world \<Rightarrow> privValidator \<Rightarrow> bytes" where
  "GetAddress W pv = privValidator_GetAddress (w_env W) (w_keys W) pv"

definition GetLastBlockHeight :: "'blk ConsensusState \<Rightarrow> u64 \<times> 'blk ConsensusState" where
  "GetLastBlockHeight cs =
     (let (h, state) = StateAgentImpl_GetLastBlockHeight (cs_agent cs) (cs_state cs) in (h, cs\<lparr>cs_state := state\<rparr>))"

text \<open>A write to the object \<open>cs.Validators\<close> points to.\<close>

definition set_validators :: "ValidatorSet \<Rightarrow> 'blk ConsensusState \<Rightarrow> 'blk ConsensusState" where
  "set_validators v cs =
     (let cs = cs\<lparr>rs_Validators := Some v\<rparr>
      in if cs_shared cs then cs\<lparr>cs_state := (cs_state cs)\<lparr>sa_Validators := Some v\<rparr>\<rparr> else cs)"

text \<open>A write to a block or to a part set is seen by every field that holds it.\<close>

definition written :: "'a \<Rightarrow> 'a \<Rightarrow> 'a option \<Rightarrow> 'a option" where
  "written old new p = (if p = Some old then Some new else p)"

section \<open>Queues, timers and events\<close>

definition ConsensusState_SetHealthMgr :: "HealthMgr option \<Rightarrow> 'blk ConsensusState \<Rightarrow> 'blk ConsensusState" where
  "ConsensusState_SetHealthMgr h cs = cs\<lparr>cs_hm := h\<rparr>"

definition ConsensusState_SetCommitteeInfo :: "CommitteeInfo option \<Rightarrow> 'blk ConsensusState \<Rightarrow> 'blk ConsensusState" where
  "ConsensusState_SetCommitteeInfo c cs = cs\<lparr>cs_cm := c\<rparr>"

definition ConsensusState_GetRoundState :: "'blk ConsensusState \<Rightarrow> 'blk RoundState" where
  "ConsensusState_GetRoundState cs = RoundState.truncate cs"

definition enqueue :: "ConsensusMessage \<Rightarrow> string \<Rightarrow> 'blk ConsensusState \<Rightarrow> 'blk ConsensusState" where
  "enqueue m peerID cs =
     (if peerID = [] then cs\<lparr>cs_internalMsgQueue := cs_internalMsgQueue cs @ [\<lparr>Msg = m, PeerID = []\<rparr>]\<rparr>
      else cs\<lparr>cs_peerMsgQueue := cs_peerMsgQueue cs @ [\<lparr>Msg = m, PeerID = peerID\<rparr>]\<rparr>)"

definition ConsensusState_AddVote :: "Vote option \<Rightarrow> string \<Rightarrow> 'blk ConsensusState \<Rightarrow> 'blk ConsensusState" where
  "ConsensusState_AddVote vote peerID cs = enqueue (VoteMessage vote) peerID cs"

definition ConsensusState_SetProposal :: "Proposal option \<Rightarrow> string \<Rightarrow> 'blk ConsensusState \<Rightarrow> 'blk ConsensusState" where
  "ConsensusState_SetProposal proposal peerID cs = enqueue (ProposalMessage proposal) peerID cs"

definition ConsensusState_UpdateValidatorsSet ::
  "ValidatorSet option \<Rightarrow> u64 \<Rightarrow> u64 \<Rightarrow> 'blk ConsensusState \<Rightarrow> 'blk ConsensusState" where
  "ConsensusState_UpdateValidatorsSet vset uHeight eHeight cs = enqueue (ValidatorUpdateMessage vset uHeight eHeight) [] cs"

definition ConsensusState_AddProposalBlockPart ::
  "u64 \<Rightarrow> u64 \<Rightarrow> Part option \<Rightarrow> string \<Rightarrow> 'blk ConsensusState \<Rightarrow> 'blk ConsensusState" where
  "ConsensusState_AddProposalBlockPart height rnd part peerID cs = enqueue (BlockPartMessage height rnd part) peerID cs"

definition ConsensusState_SetProposalAndBlock ::
  "Proposal \<Rightarrow> PartSet \<Rightarrow> string \<Rightarrow> 'blk ConsensusState \<Rightarrow> 'blk ConsensusState option" where
  "ConsensusState_SetProposalAndBlock proposal parts peerID cs =
     go_for (\<lambda>i cs. do {
       part \<leftarrow> PartSet_GetPart parts (of_nat i);
       Some (ConsensusState_AddProposalBlockPart (pHeight proposal) (pRound proposal) part peerID cs)
     }) [0..<nat (to_int (PartSet_Total (Some parts)))] (ConsensusState_SetProposal (Some proposal) peerID cs)"

definition ConsensusState_updateHeight :: "u64 \<Rightarrow> 'blk ConsensusState \<Rightarrow> 'blk ConsensusState" where
  "ConsensusState_updateHeight height cs = cs\<lparr>rs_Height := height\<rparr>"

definition ConsensusState_updateRoundStep :: "int \<Rightarrow> RoundStepType \<Rightarrow> 'blk ConsensusState \<Rightarrow> 'blk ConsensusState" where
  "ConsensusState_updateRoundStep rnd step cs = cs\<lparr>rs_Round := to_uint rnd, rs_Step := step\<rparr>"

definition ConsensusState_scheduleTimeoutWithWait :: "timeoutInfo \<Rightarrow> 'blk ConsensusState \<Rightarrow> 'blk ConsensusState" where
  "ConsensusState_scheduleTimeoutWithWait ti cs = cs\<lparr>cs_timeoutTicker := cs_timeoutTicker cs @ [ti]\<rparr>"

definition ConsensusState_scheduleTimeout ::
  "int \<Rightarrow> u64 \<Rightarrow> int \<Rightarrow> RoundStepType \<Rightarrow> 'blk ConsensusState \<Rightarrow> 'blk ConsensusState" where
  "ConsensusState_scheduleTimeout duration height rnd step cs =
     cs\<lparr>cs_timeoutTicker := cs_timeoutTicker cs @
       [\<lparr>ti_Duration = duration, ti_Height = height, ti_Round = to_uint rnd, ti_Step = step, ti_Wait = 1\<rparr>]\<rparr>"

definition schedule_task :: "u64 \<Rightarrow> u64 \<Rightarrow> 'blk ConsensusState \<Rightarrow> 'blk ConsensusState" where
  "schedule_task height rnd cs =
     cs\<lparr>cs_timeoutTask := cs_timeoutTask cs @
       [\<lparr>ti_Duration = cs_taskTimeOut cs, ti_Height = height, ti_Round = rnd, ti_Step = RoundStepBlockSync, ti_Wait = 0\<rparr>]\<rparr>"

definition ConsensusState_scheduleRound0 :: "'blk world \<Rightarrow> 'blk ConsensusState \<Rightarrow> 'blk ConsensusState" where
  "ConsensusState_scheduleRound0 W cs =
     (let (now, cs) = time_Now W cs;
          sleepDuration = rs_StartTime cs - now;
          cs = ConsensusState_scheduleTimeout sleepDuration (rs_Height cs) 0 RoundStepNewHeight cs
      in schedule_task (rs_Height cs) (rs_Round cs) cs)"

definition ConsensusState_sendInternalMessage :: "msgInfo \<Rightarrow> 'blk ConsensusState \<Rightarrow> 'blk ConsensusState" where
  "ConsensusState_sendInternalMessage mi cs = cs\<lparr>cs_internalMsgQueue := cs_internalMsgQueue cs @ [mi]\<rparr>"

definition ConsensusState_newStep :: "'blk ConsensusState \<Rightarrow> 'blk ConsensusState" where
  "ConsensusState_newStep cs =
     cs\<lparr>cs_nSteps := cs_nSteps cs + 1,
        cs_evsw := cs_evsw cs @ [EventNewRoundStep (rs_Height cs) (rs_Round cs) (rs_Step cs)]\<rparr>"

section \<open>Moving to the height after the chain\<close>

definition ConsensusState_reconstructLastCommit :: "'blk world \<Rightarrow> 'blk ConsensusState \<Rightarrow> 'blk ConsensusState option" where
  "ConsensusState_reconstructLastCommit W cs =
     (let (LastBlockHeight, cs) = GetLastBlockHeight cs
      in case BlockStore_LoadBlockCommit LastBlockHeight (cs_blockStore cs) of
           None \<Rightarrow> Some cs
         | Some seenCommit \<Rightarrow>
             if LastBlockHeight = 0 then Some cs
             else do {
               (rnd, seenCommit) \<leftarrow> Commit_Round seenCommit;
               vals \<leftarrow> StateAgentImpl_GetLastValidator (cs_state cs);
               lastPrecommits \<leftarrow> NewVoteSet (StateAgentImpl_GetChainID (cs_state cs)) LastBlockHeight rnd VoteTypePrecommit vals;
               lastPrecommits \<leftarrow> go_for (\<lambda>precommit s. case precommit of
                   None \<Rightarrow> Some s
                 | Some v \<Rightarrow> do {
                     ((added, err), s) \<leftarrow> VoteSet_AddVote (w_env W) (Some v) (Some s);
                     go_assert (\<not> (\<not> added \<or> err \<noteq> NoError));
                     Some s
                   }) (Precommits seenCommit) lastPrecommits;
               go_assert (VoteSet_HasTwoThirdsMajority (Some lastPrecommits));
               Some (cs\<lparr>rs_LastCommit := Some lastPrecommits\<rparr>)
             })"

text \<open>\<open>time.Unix(t.Unix(), 0)\<close>: a time in nanoseconds cut to seconds.\<close>

definition cut_to_seconds :: "int \<Rightarrow> int" where
  "cut_to_seconds t = (t div 1000000000) * 1000000000"

definition start_time :: "'blk world \<Rightarrow> 'blk ConsensusState \<Rightarrow> int \<times> 'blk ConsensusState" where
  "start_time W cs =
     (case (rs_CommitTime cs, rs_Proposal cs) of
        (Some commitTime, Some proposal) \<Rightarrow>
          if rs_StartTime cs > cfg_CatchupTime (w_config W) (cut_to_seconds (pTimestamp proposal)) then time_Now W cs
          else (cfg_Commit (w_config W) commitTime, cs)
      | _ \<Rightarrow> let (now, cs) = time_Now W cs in (cfg_Commit (w_config W) now, cs))"

definition last_precommits :: "'blk ConsensusState \<Rightarrow> VoteSet option option" where
  "last_precommits cs =
     (case rs_Votes cs of
        None \<Rightarrow> Some None
      | Some votes \<Rightarrow>
          if to_int (rs_CommitRound cs) > - 1 then do {
            go_assert (VoteSet_HasTwoThirdsMajority (HeightVoteSet_Precommits votes (to_int (rs_CommitRound cs))));
            Some (HeightVoteSet_Precommits votes (to_int (rs_CommitRound cs)))
          }
          else Some None)"

definition ConsensusState_updateToState :: "'blk world \<Rightarrow> 'blk ConsensusState \<Rightarrow> 'blk ConsensusState option" where
  "ConsensusState_updateToState W cs = do {
     let (LastBlockHeight, cs) = GetLastBlockHeight cs;
     let validators = StateAgentImpl_GetValidator (cs_state cs);
     lastPrecommits \<leftarrow> last_precommits cs;
     let height = LastBlockHeight + 1;
     let cs = ConsensusState_updateHeight height cs;
     let cs = ConsensusState_updateRoundStep 0 RoundStepNewHeight cs;
     let (startTime, cs) = start_time W cs;
     vals \<leftarrow> validators;
     votes \<leftarrow> NewHeightVoteSet (StateAgentImpl_GetChainID (cs_state cs)) height vals;
     let cs = cs\<lparr>rs_StartTime := startTime, rs_Validators := validators, cs_shared := True, cs_proposalForCatchup := None,
       rs_Proposal := None, rs_ProposalBlock := None, rs_ProposalBlockParts := None,
       rs_LockedRound := 0, rs_LockedBlock := None, rs_LockedBlockParts := None,
       rs_ValidRound := 0, rs_ValidBlock := None, rs_ValidBlockParts := None,
       rs_Votes := Some votes, rs_CommitRound := - 1, rs_LastCommit := lastPrecommits\<rparr>;
     Some (ConsensusState_newStep cs)
   }"

definition ConsensusState_updateStateForSync :: "'blk world \<Rightarrow> 'blk ConsensusState \<Rightarrow> 'blk ConsensusState option" where
  "ConsensusState_updateStateForSync W cs = do {
     let oldH = rs_Height cs;
     let (last, cs) = GetLastBlockHeight cs;
     let newH = last + 1;
     cs \<leftarrow> (if oldH \<noteq> newH then do {
               cs \<leftarrow> ConsensusState_updateToState W cs;
               state \<leftarrow> StateAgentImpl_PrivReset (cs_state cs);
               let cs = cs\<lparr>cs_state := state\<rparr>;
               Some (ConsensusState_scheduleTimeout 1000000 (rs_Height cs) 0 RoundStepNewHeight cs)
             }
             else Some cs);
     Some (schedule_task (rs_Height cs) (rs_Round cs) cs)
   }"

definition zero_state :: "'blk world \<Rightarrow> StateAgentImpl \<Rightarrow> 'blk agent \<Rightarrow> 'blk BlockStore \<Rightarrow> 'blk ConsensusState" where
  "zero_state W state A store =
     \<lparr>rs_Height = 0, rs_Round = 0, rs_Step = 0, rs_StartTime = 0, rs_CommitTime = None, rs_Validators = None,
      rs_Proposal = None, rs_ProposalBlock = None, rs_ProposalBlockParts = None,
      rs_LockedRound = 0, rs_LockedBlock = None, rs_LockedBlockParts = None,
      rs_ValidRound = 0, rs_ValidBlock = None, rs_ValidBlockParts = None,
      rs_Votes = None, rs_CommitRound = 0, rs_LastCommit = None,
      cs_state = state, cs_shared = False, cs_agent = A, cs_blockStore = store, cs_proposalForCatchup = None,
      cs_peerMsgQueue = [], cs_internalMsgQueue = [], cs_timeoutTicker = [], cs_timeoutTask = [],
      cs_taskTimeOut = cfg_Propose (w_config W) 0, cs_evsw = [], cs_nSteps = 0, cs_svs = [], cs_hm = None, cs_cm = None,
      cs_chanFrom = [], cs_clock = 0, cs_committed = []\<rparr>"

definition NewConsensusState ::
  "'blk world \<Rightarrow> StateAgentImpl \<Rightarrow> 'blk agent \<Rightarrow> 'blk BlockStore \<Rightarrow> 'blk ConsensusState option" where
  "NewConsensusState W state A store = do {
     cs \<leftarrow> ConsensusState_updateToState W (zero_state W state A store);
     ConsensusState_reconstructLastCommit W cs
   }"

text \<open>The services that \<open>OnStart\<close> starts report no error when they are started once.\<close>

definition ConsensusState_OnStart ::
  "'blk world \<Rightarrow> 'blk ConsensusState \<Rightarrow> (cs_error go_error \<times> 'blk ConsensusState) option" where
  "ConsensusState_OnStart W cs =
     (if cs_hm cs = None then Some (Err ErrHealthMgrNotInit, cs)
      else do {
        cs \<leftarrow> ConsensusState_updateToState W cs;
        Some (NoError, ConsensusState_scheduleRound0 W cs)
      })"

section \<open>Switches of committee members\<close>

definition ConsensusState_notifyHealthMgr :: "SwitchValidator \<Rightarrow> 'blk ConsensusState \<Rightarrow> 'blk ConsensusState" where
  "ConsensusState_notifyHealthMgr sv cs = cs\<lparr>cs_chanFrom := cs_chanFrom cs @ [sv]\<rparr>"

text \<open>The members that the switches point to are those of the health manager.\<close>

definition ConsensusState_pickSwitchValidator ::
  "SwitchValidator \<Rightarrow> bool \<Rightarrow> 'blk ConsensusState \<Rightarrow> (SwitchValidator \<times> 'blk ConsensusState) option" where
  "ConsensusState_pickSwitchValidator sv by_id cs =
     (case cs_svs cs of
        [] \<Rightarrow> Some (sv, cs)
      | tmp # rest \<Rightarrow> do {
          hm \<leftarrow> cs_hm cs;
          Some (if (by_id \<and> SwitchValidator_Equal (hm_members hm) (Some tmp) (Some sv)) \<or>
                   (\<not> by_id \<and> SwitchValidator_EqualWithRemove (hm_members hm) (Some tmp) (Some sv))
                then (tmp, cs\<lparr>cs_svs := rest\<rparr>)
                else (sv, cs))
        })"

definition ConsensusState_switchHandle :: "SwitchValidator option \<Rightarrow> 'blk ConsensusState \<Rightarrow> 'blk ConsensusState option" where
  "ConsensusState_switchHandle s cs =
     (case s of
        None \<Rightarrow> Some cs
      | Some s \<Rightarrow>
          if sv_From s = 0 then Some (if length (cs_svs cs) = 0 then cs\<lparr>cs_svs := cs_svs cs @ [s]\<rparr> else cs)
          else if sv_From s = 1 then do {
            (v, cs) \<leftarrow> ConsensusState_pickSwitchValidator s True cs;
            Some (ConsensusState_notifyHealthMgr (v\<lparr>sv_From := 1\<rparr>) cs)
          }
          else Some cs)"

definition member_health :: "CommitteeMember \<Rightarrow> 32 word \<Rightarrow> 'blk ConsensusState \<Rightarrow> href option option" where
  "member_health m flag cs =
     (if Flag m = flag then do { hm \<leftarrow> cs_hm cs; Some (HealthMgr_GetHealth (CommitteeBase m) hm) } else Some None)"

definition switch_of :: "CommitteeMember list \<Rightarrow> href option \<Rightarrow> href option \<Rightarrow> SwitchValidator" where
  "switch_of sw remove add =
     \<lparr>sv_Remove = remove, sv_Add = add, sv_Infos = Some sw, sv_Resion = [], sv_From = 0, sv_DoorCount = 0, sv_Round = 0, sv_ID = 0\<rparr>"

text \<open>For the first block of a committee, and for more than two entries, the code only logs.\<close>

definition ConsensusState_swithResult :: "'blk world \<Rightarrow> 'blk \<Rightarrow> 'blk ConsensusState \<Rightarrow> 'blk ConsensusState option" where
  "ConsensusState_swithResult W block cs = do {
     let sw = blk_SwitchInfos W block;
     let (last, cs) = GetLastBlockHeight cs;
     cm \<leftarrow> cs_cm cs;
     if last + 1 = of_nat (cm_StartHeight cm) \<or> length sw > 2 then Some cs
     else case sw of
       aEnter # rEnter # _ \<Rightarrow> do {
         let cs = cs\<lparr>cs_state := StateAgentImpl_SetEndHeight (NumberU64 (cs_agent cs) block) (cs_state cs)\<rparr>;
         (add, remove) \<leftarrow>
           (if Flag aEnter = StateAppendFlag then do {
              add \<leftarrow> member_health aEnter StateAppendFlag cs;
              remove \<leftarrow> member_health rEnter StateRemovedFlag cs;
              Some (add, remove)
            }
            else do {
              remove \<leftarrow> member_health aEnter StateRemovedFlag cs;
              Some (None, remove)
            });
         if remove = None then Some cs
         else do {
           (sv, cs) \<leftarrow> ConsensusState_pickSwitchValidator (switch_of sw remove add) False cs;
           Some (ConsensusState_notifyHealthMgr sv cs)
         }
       }
     | _ \<Rightarrow> Some cs
   }"

definition ConsensusState_switchVerify :: "'blk world \<Rightarrow> 'blk \<Rightarrow> 'blk ConsensusState \<Rightarrow> bool option" where
  "ConsensusState_switchVerify W block cs =
     (let sw = blk_SwitchInfos W block
      in if length sw > 2 then do {
           cm \<leftarrow> cs_cm cs;
           Some (list_all (\<lambda>v. list_ex (\<lambda>vm. CommitteeBase v = CommitteeBase vm) (cm_Members cm @ cm_BackMembers cm)) sw)
         }
         else if length sw > 0 then do {
           let rEnter = (if length sw = 1 then sw ! 0 else sw ! 1);
           add \<leftarrow> (if length sw = 2 then member_health (sw ! 0) StateAppendFlag cs else Some None);
           remove \<leftarrow> member_health rEnter StateRemovedFlag cs;
           if remove = None then Some False
           else do {
             hm \<leftarrow> cs_hm cs;
             Some (HealthMgr_VerifySwitch (switch_of sw remove add) hm = NoError)
           }
         }
         else Some False)"

definition ConsensusState_validateBlock ::
  "'blk world \<Rightarrow> 'blk option \<Rightarrow> 'blk ConsensusState \<Rightarrow> (KeepBlockSign option \<times> agent_error go_error) option" where
  "ConsensusState_validateBlock W block cs =
     (case block of
        None \<Rightarrow> Some (None, Err ErrBlockNotHave)
      | Some b \<Rightarrow> do {
          res \<leftarrow> ConsensusState_switchVerify W b cs;
          let res = (if length (blk_SwitchInfos W b) = 0 then True else res);
          StateAgentImpl_ValidateBlock (cs_agent cs) (Some b) res (cs_state cs)
        })"

section \<open>Signing votes\<close>

definition ConsensusState_signVote ::
  "'blk world \<Rightarrow> byte \<Rightarrow> bytes \<Rightarrow> PartSetHeader \<Rightarrow> 'blk ConsensusState \<Rightarrow> ((Vote \<times> priv_error go_error) \<times> 'blk ConsensusState) option" where
  "ConsensusState_signVote W typeB hash header cs = do {
     pv \<leftarrow> sa_Priv (cs_state cs);
     let addr = GetAddress W pv;
     vals \<leftarrow> rs_Validators cs;
     let (valIndex, _) = ValidatorSet_GetByAddress vals addr;
     let (now, cs) = time_Now W cs;
     let vote = \<lparr>ValidatorAddress = addr, ValidatorIndex = to_uint valIndex, Height = rs_Height cs, Round = rs_Round cs,
       Result = VoteAgree, Timestamp = now, Type = typeB, vBlockID = \<lparr>Hash = hash, PartsHeader = header\<rparr>,
       Signature = [], ResultSign = []\<rparr>;
     let (now, cs) = time_Now W cs;
     (err, vote, pv) \<leftarrow> privValidator_SignVote (w_env W) (w_keys W) now (StateAgentImpl_GetChainID (cs_state cs)) vote pv;
     Some ((vote, err), cs\<lparr>cs_state := (cs_state cs)\<lparr>sa_Priv := Some pv\<rparr>\<rparr>)
   }"

definition ConsensusState_signAddVote ::
  "'blk world \<Rightarrow> byte \<Rightarrow> bytes \<Rightarrow> PartSetHeader \<Rightarrow> KeepBlockSign option \<Rightarrow> 'blk ConsensusState \<Rightarrow> (Vote option \<times> 'blk ConsensusState) option" where
  "ConsensusState_signAddVote W typeB hash header keepsign cs =
     (case sa_Priv (cs_state cs) of
        None \<Rightarrow> Some (None, cs)
      | Some pv \<Rightarrow> do {
          vals \<leftarrow> rs_Validators cs;
          if \<not> ValidatorSet_HasAddress vals (GetAddress W pv) then Some (None, cs)
          else do {
            ((vote, err), cs) \<leftarrow> ConsensusState_signVote W typeB hash header cs;
            if err \<noteq> NoError then Some (None, cs)
            else do {
              keepsign \<leftarrow> (if hash \<noteq> [] \<and> keepsign = None then do {
                              votes \<leftarrow> rs_Votes cs;
                              HeightVoteSet_GetSignsFromVote votes (to_int (rs_Round cs)) hash (GetAddress W pv)
                            }
                            else Some keepsign);
              let vote = (case keepsign of
                            Some k \<Rightarrow> if hash \<noteq> [] \<and> hash = kHash k then vote\<lparr>Result := kResult k, ResultSign := kSign k\<rparr> else vote
                          | None \<Rightarrow> vote);
              Some (Some vote, ConsensusState_sendInternalMessage \<lparr>Msg = VoteMessage (Some vote), PeerID = []\<rparr> cs)
            }
          }
        })"

section \<open>Prevotes\<close>

definition ConsensusState_isProposalComplete :: "'blk ConsensusState \<Rightarrow> bool option" where
  "ConsensusState_isProposalComplete cs =
     (case (rs_Proposal cs, rs_ProposalBlock cs) of
        (Some proposal, Some _) \<Rightarrow>
          if to_int (POLRound proposal) < 0 then Some True
          else do {
            votes \<leftarrow> rs_Votes cs;
            Some (VoteSet_HasTwoThirdsMajority (HeightVoteSet_Prevotes votes (to_int (POLRound proposal))))
          }
      | _ \<Rightarrow> Some False)"

definition ConsensusState_defaultDoPrevote :: "'blk world \<Rightarrow> u64 \<Rightarrow> int \<Rightarrow> 'blk ConsensusState \<Rightarrow> 'blk ConsensusState option" where
  "ConsensusState_defaultDoPrevote W height rnd cs =
     (case rs_LockedBlock cs of
        Some locked \<Rightarrow> do {
          (ksign, err) \<leftarrow> ConsensusState_validateBlock W (Some locked) cs;
          let tmp = blk_Hash W locked;
          (_, cs) \<leftarrow> (case ksign of
             None \<Rightarrow> ConsensusState_signAddVote W VoteTypePrevote [] zero_header None cs
           | Some _ \<Rightarrow> ConsensusState_signAddVote W VoteTypePrevote tmp (PartSet_Header (rs_LockedBlockParts cs)) ksign cs);
          Some cs
        }
      | None \<Rightarrow>
          (case rs_ProposalBlock cs of
             None \<Rightarrow> do {
               (_, cs) \<leftarrow> ConsensusState_signAddVote W VoteTypePrevote [] zero_header None cs;
               Some cs
             }
           | Some block \<Rightarrow> do {
               (ksign, err) \<leftarrow> ConsensusState_validateBlock W (Some block) cs;
               (_, cs) \<leftarrow> (case ksign of
                  None \<Rightarrow> ConsensusState_signAddVote W VoteTypePrevote [] zero_header None cs
                | Some _ \<Rightarrow> ConsensusState_signAddVote W VoteTypePrevote (blk_Hash W block)
                              (PartSet_Header (rs_ProposalBlockParts cs)) ksign cs);
               Some cs
             }))"

text \<open>The guard at the head of the functions that enter a step of a round.\<close>

definition behind :: "u64 \<Rightarrow> int \<Rightarrow> RoundStepType \<Rightarrow> 'blk ConsensusState \<Rightarrow> bool" where
  "behind height rnd step cs \<longleftrightarrow>
     rs_Height cs \<noteq> height \<or> rnd < to_int (rs_Round cs) \<or> (to_int (rs_Round cs) = rnd \<and> step \<le> rs_Step cs)"

definition ConsensusState_enterPrevote :: "'blk world \<Rightarrow> u64 \<Rightarrow> int \<Rightarrow> 'blk ConsensusState \<Rightarrow> 'blk ConsensusState option" where
  "ConsensusState_enterPrevote W height rnd cs =
     (if behind height rnd RoundStepPrevote cs then Some cs
      else do {
        _ \<leftarrow> ConsensusState_isProposalComplete cs;
        cs \<leftarrow> ConsensusState_defaultDoPrevote W height rnd cs;
        let cs = ConsensusState_updateRoundStep rnd RoundStepPrevote cs;
        Some (ConsensusState_newStep cs)
      })"

definition ConsensusState_enterPrevoteWait :: "'blk world \<Rightarrow> u64 \<Rightarrow> int \<Rightarrow> 'blk ConsensusState \<Rightarrow> 'blk ConsensusState option" where
  "ConsensusState_enterPrevoteWait W height rnd cs =
     (if behind height rnd RoundStepPrevoteWait cs then Some cs
      else do {
        votes \<leftarrow> rs_Votes cs;
        go_assert (VoteSet_HasTwoThirdsAny (HeightVoteSet_Prevotes votes rnd));
        let cs = ConsensusState_scheduleTimeout (cfg_Prevote (w_config W) rnd) height rnd RoundStepPrevoteWait cs;
        let cs = ConsensusState_updateRoundStep rnd RoundStepPrevoteWait cs;
        Some (ConsensusState_newStep cs)
      })"

section \<open>Precommits\<close>

definition precommit_nil :: "'blk world \<Rightarrow> 'blk ConsensusState \<Rightarrow> 'blk ConsensusState option" where
  "precommit_nil W cs = do {
     (_, cs) \<leftarrow> ConsensusState_signAddVote W VoteTypePrecommit [] zero_header None cs;
     Some cs
   }"

definition unlock :: "'blk ConsensusState \<Rightarrow> 'blk ConsensusState" where
  "unlock cs = cs\<lparr>rs_LockedRound := 0, rs_LockedBlock := None, rs_LockedBlockParts := None, cs_proposalForCatchup := None\<rparr>"

definition hashes_to :: "'blk world \<Rightarrow> 'blk option \<Rightarrow> bytes \<Rightarrow> bool" where
  "hashes_to W block hash = (case block of None \<Rightarrow> False | Some b \<Rightarrow> EqualHashes (blk_Hash W b) hash)"

text \<open>More than two thirds prevoted for the locked block: relock it.\<close>

definition precommit_locked :: "'blk world \<Rightarrow> int \<Rightarrow> BlockID \<Rightarrow> 'blk ConsensusState \<Rightarrow> 'blk ConsensusState option" where
  "precommit_locked W rnd blockID cs = do {
     let cs = cs\<lparr>rs_LockedRound := to_uint rnd\<rparr>;
     (ksign, err) \<leftarrow> ConsensusState_validateBlock W (rs_LockedBlock cs) cs;
     case ksign of
       None \<Rightarrow> precommit_nil W cs
     | Some _ \<Rightarrow> do {
         (_, cs) \<leftarrow> ConsensusState_signAddVote W VoteTypePrecommit (Hash blockID) (PartsHeader blockID) ksign cs;
         Some cs
       }
   }"

text \<open>For the proposal block: lock it if the node agrees to it.\<close>

definition precommit_proposal :: "'blk world \<Rightarrow> int \<Rightarrow> BlockID \<Rightarrow> 'blk ConsensusState \<Rightarrow> 'blk ConsensusState option" where
  "precommit_proposal W rnd blockID cs = do {
     (ksign, err) \<leftarrow> ConsensusState_validateBlock W (rs_ProposalBlock cs) cs;
     case ksign of
       None \<Rightarrow> precommit_nil W cs
     | Some k \<Rightarrow> do {
         let cs = (if kResult k = VoteAgree
                   then cs\<lparr>rs_LockedRound := to_uint rnd, rs_LockedBlock := rs_ProposalBlock cs,
                          rs_LockedBlockParts := rs_ProposalBlockParts cs, cs_proposalForCatchup := rs_Proposal cs\<rparr>
                   else cs);
         (_, cs) \<leftarrow> ConsensusState_signAddVote W VoteTypePrecommit (Hash blockID) (PartsHeader blockID) ksign cs;
         Some cs
       }
   }"

text \<open>For a block the node does not have: unlock and prepare to receive it.\<close>

definition precommit_unknown :: "'blk world \<Rightarrow> BlockID \<Rightarrow> 'blk ConsensusState \<Rightarrow> 'blk ConsensusState option" where
  "precommit_unknown W blockID cs = do {
     let cs = unlock cs;
     let cs = (if \<not> PartSet_HasHeader (rs_ProposalBlockParts cs) (PartsHeader blockID)
               then cs\<lparr>rs_ProposalBlock := None, rs_ProposalBlockParts := Some (NewPartSetFromHeader (PartsHeader blockID))\<rparr>
               else cs);
     precommit_nil W cs
   }"

definition precommit_vote :: "'blk world \<Rightarrow> int \<Rightarrow> 'blk ConsensusState \<Rightarrow> 'blk ConsensusState option" where
  "precommit_vote W rnd cs = do {
     votes \<leftarrow> rs_Votes cs;
     let (blockID, ok) = VoteSet_TwoThirdsMajority (HeightVoteSet_Prevotes votes rnd);
     if \<not> ok then precommit_nil W cs
     else do {
       go_assert (\<not> fst (HeightVoteSet_POLInfo votes) < rnd);
       if length (Hash blockID) = 0 then precommit_nil W (if rs_LockedBlock cs = None then cs else unlock cs)
       else if hashes_to W (rs_LockedBlock cs) (Hash blockID) then precommit_locked W rnd blockID cs
       else if hashes_to W (rs_ProposalBlock cs) (Hash blockID) then precommit_proposal W rnd blockID cs
       else precommit_unknown W blockID cs
     }
   }"

definition ConsensusState_enterPrecommit :: "'blk world \<Rightarrow> u64 \<Rightarrow> int \<Rightarrow> 'blk ConsensusState \<Rightarrow> 'blk ConsensusState option" where
  "ConsensusState_enterPrecommit W height rnd cs =
     (if behind height rnd RoundStepPrecommit cs then Some cs
      else do {
        cs \<leftarrow> precommit_vote W rnd cs;
        let cs = ConsensusState_updateRoundStep rnd RoundStepPrecommit cs;
        Some (ConsensusState_newStep cs)
      })"

definition ConsensusState_enterPrecommitWait :: "'blk world \<Rightarrow> u64 \<Rightarrow> int \<Rightarrow> 'blk ConsensusState \<Rightarrow> 'blk ConsensusState option" where
  "ConsensusState_enterPrecommitWait W height rnd cs =
     (if behind height rnd RoundStepPrecommitWait cs then Some cs
      else do {
        votes \<leftarrow> rs_Votes cs;
        go_assert (VoteSet_HasTwoThirdsAny (HeightVoteSet_Precommits votes rnd));
        let cs = ConsensusState_scheduleTimeout (cfg_Precommit (w_config W) rnd) height rnd RoundStepPrecommitWait cs;
        let cs = ConsensusState_updateRoundStep rnd RoundStepPrecommitWait cs;
        Some (ConsensusState_newStep cs)
      })"

section \<open>Commits\<close>

text \<open>
  The block that is signed is the object the round state holds, and the fallback for a missing
  proposal is computed but not used.
\<close>

definition sign_block :: "'blk world \<Rightarrow> PbftSign list \<Rightarrow> 'blk \<Rightarrow> 'blk ConsensusState \<Rightarrow> 'blk ConsensusState" where
  "sign_block W sigs block cs =
     (let new = blk_SetSign W sigs block
      in cs\<lparr>rs_ProposalBlock := written block new (rs_ProposalBlock cs), rs_LockedBlock := written block new (rs_LockedBlock cs),
            rs_ValidBlock := written block new (rs_ValidBlock cs)\<rparr>)"

definition save_block ::
  "'blk \<Rightarrow> PartSet option \<Rightarrow> 'blk ConsensusState \<Rightarrow> 'blk ConsensusState option" where
  "save_block block blockParts cs =
     (if BlockStore_MaxBlockHeight (cs_blockStore cs) < NumberU64 (cs_agent cs) block then do {
        votes \<leftarrow> rs_Votes cs;
        precommits \<leftarrow> HeightVoteSet_Precommits votes (to_int (rs_CommitRound cs));
        seenCommit \<leftarrow> VoteSet_MakeCommit precommits;
        store \<leftarrow> BlockStore_SaveBlock (NumberU64 (cs_agent cs) block) block blockParts seenCommit (rs_Proposal cs) (cs_blockStore cs);
        Some (cs\<lparr>cs_blockStore := store\<rparr>)
      }
      else Some cs)"

definition ConsensusState_finalizeCommit :: "'blk world \<Rightarrow> u64 \<Rightarrow> 'blk ConsensusState \<Rightarrow> 'blk ConsensusState option" where
  "ConsensusState_finalizeCommit W height cs =
     (if rs_Height cs \<noteq> height \<or> rs_Step cs \<noteq> RoundStepCommit then Some cs
      else do {
        votes \<leftarrow> rs_Votes cs;
        let voteset = HeightVoteSet_Precommits votes (to_int (rs_CommitRound cs));
        let (blockID, ok) = VoteSet_TwoThirdsMajority voteset;
        block \<leftarrow> rs_ProposalBlock cs;
        let blockParts = rs_ProposalBlockParts cs;
        let hash = blk_Hash W block;
        sigs \<leftarrow> VoteSet_MakePbftSigns (w_env W) voteset hash;
        go_assert ok;
        go_assert (PartSet_HasHeader blockParts (PartsHeader blockID));
        sigs \<leftarrow> (case sigs of Inl _ \<Rightarrow> None | Inr sigs \<Rightarrow> Some sigs);
        go_assert (EqualHashes hash (Hash blockID));
        let cs = sign_block W sigs block cs;
        let block = blk_SetSign W sigs block;
        cs \<leftarrow> ConsensusState_swithResult W block cs;
        let err = StateAgentImpl_ConsensusCommit (cs_agent cs) (Some block);
        let cs = cs\<lparr>cs_agent := w_commit W block (cs_agent cs), cs_committed := cs_committed cs @ [block]\<rparr>;
        if err \<noteq> NoError then Some cs
        else do {
          cs \<leftarrow> save_block block blockParts cs;
          cs \<leftarrow> ConsensusState_updateToState W cs;
          Some (ConsensusState_scheduleRound0 W cs)
        }
      })"

definition ConsensusState_tryFinalizeCommit :: "'blk world \<Rightarrow> u64 \<Rightarrow> 'blk ConsensusState \<Rightarrow> 'blk ConsensusState option" where
  "ConsensusState_tryFinalizeCommit W height cs = do {
     go_assert (\<not> rs_Height cs \<noteq> height);
     votes \<leftarrow> rs_Votes cs;
     let (blockID, ok) = VoteSet_TwoThirdsMajority (HeightVoteSet_Precommits votes (to_int (rs_CommitRound cs)));
     if \<not> ok \<or> length (Hash blockID) = 0 then Some cs
     else if \<not> hashes_to W (rs_ProposalBlock cs) (Hash blockID) then Some cs
     else ConsensusState_finalizeCommit W height cs
   }"

definition commit_block :: "'blk world \<Rightarrow> BlockID \<Rightarrow> 'blk ConsensusState \<Rightarrow> 'blk ConsensusState" where
  "commit_block W blockID cs =
     (let cs = (if hashes_to W (rs_LockedBlock cs) (Hash blockID)
                then cs\<lparr>rs_ProposalBlock := rs_LockedBlock cs, rs_ProposalBlockParts := rs_LockedBlockParts cs\<rparr>
                else cs)
      in if rs_ProposalBlock cs \<noteq> None \<and> \<not> hashes_to W (rs_ProposalBlock cs) (Hash blockID) \<and>
            \<not> PartSet_HasHeader (rs_ProposalBlockParts cs) (PartsHeader blockID)
         then cs\<lparr>rs_ProposalBlock := None, rs_ProposalBlockParts := Some (NewPartSetFromHeader (PartsHeader blockID))\<rparr>
         else cs)"

definition ConsensusState_enterCommit :: "'blk world \<Rightarrow> u64 \<Rightarrow> int \<Rightarrow> 'blk ConsensusState \<Rightarrow> 'blk ConsensusState option" where
  "ConsensusState_enterCommit W height commitRound cs =
     (if rs_Height cs \<noteq> height \<or> RoundStepCommit \<le> rs_Step cs then Some cs
      else do {
        votes \<leftarrow> rs_Votes cs;
        let (blockID, ok) = VoteSet_TwoThirdsMajority (HeightVoteSet_Precommits votes commitRound);
        go_assert ok;
        let cs = commit_block W blockID cs;
        let cs = ConsensusState_updateRoundStep (to_int (rs_Round cs)) RoundStepCommit cs;
        let (now, cs) = time_Now W cs;
        let cs = cs\<lparr>rs_CommitRound := to_uint commitRound, rs_CommitTime := Some now\<rparr>;
        let cs = ConsensusState_newStep cs;
        ConsensusState_tryFinalizeCommit W height cs
      })"

section \<open>Proposals\<close>

definition ConsensusState_isProposer :: "'blk world \<Rightarrow> 'blk ConsensusState \<Rightarrow> (bool \<times> 'blk ConsensusState) option" where
  "ConsensusState_isProposer W cs =
     (case rs_Validators cs of
        None \<Rightarrow> Some (False, cs)
      | Some vals \<Rightarrow> do {
          (proposer, vals) \<leftarrow> ValidatorSet_GetProposer vals;
          let cs = set_validators vals cs;
          Some (case (proposer, sa_Priv (cs_state cs)) of
                  (Some p, Some pv) \<Rightarrow> (Address p = GetAddress W pv, cs)
                | _ \<Rightarrow> (False, cs))
        })"

definition send_part :: "PartSet \<Rightarrow> nat \<Rightarrow> 'blk ConsensusState \<Rightarrow> 'blk ConsensusState option" where
  "send_part blockParts i cs = do {
     part \<leftarrow> PartSet_GetPart blockParts (of_nat i);
     Some (ConsensusState_sendInternalMessage \<lparr>Msg = BlockPartMessage (rs_Height cs) (rs_Round cs) part, PeerID = []\<rparr> cs)
   }"

definition ConsensusState_defaultDecideProposal ::
  "'blk world \<Rightarrow> u64 \<Rightarrow> int \<Rightarrow> 'blk option \<Rightarrow> PartSet option \<Rightarrow> 'blk ConsensusState \<Rightarrow> 'blk ConsensusState option" where
  "ConsensusState_defaultDecideProposal W height rnd blk bparts cs =
     (let (block, blockParts) =
            (if rs_LockedBlock cs \<noteq> None then (rs_LockedBlock cs, rs_LockedBlockParts cs)
             else if rs_ValidBlock cs \<noteq> None then (rs_ValidBlock cs, rs_ValidBlockParts cs)
             else (blk, bparts))
      in if rs_LockedBlock cs = None \<and> rs_ValidBlock cs = None \<and> (block = None \<or> blockParts = None) then Some cs
         else do {
           votes \<leftarrow> rs_Votes cs;
           let (polRound, polBlockID) = HeightVoteSet_POLInfo votes;
           let (now, cs) = time_Now W cs;
           let proposal = NewProposal now height rnd (PartSet_Header blockParts) (to_uint polRound) polBlockID;
           pv \<leftarrow> sa_Priv (cs_state cs);
           let (now, cs) = time_Now W cs;
           (err, proposal, pv) \<leftarrow>
             privValidator_SignProposal (w_env W) (w_keys W) now (StateAgentImpl_GetChainID (cs_state cs)) proposal pv;
           let cs = cs\<lparr>cs_state := (cs_state cs)\<lparr>sa_Priv := Some pv\<rparr>\<rparr>;
           if err \<noteq> NoError then Some cs
           else do {
             let cs = ConsensusState_sendInternalMessage \<lparr>Msg = ProposalMessage (Some proposal), PeerID = []\<rparr> cs;
             case blockParts of
               None \<Rightarrow> Some cs
             | Some ps \<Rightarrow> go_for (send_part ps) [0..<nat (to_int (PartSet_Total blockParts))] cs
           }
         })"

abbreviation BlockPartSizeBytes :: u64 where "BlockPartSizeBytes \<equiv> 65536"

text \<open>The switch at the head of the queue is offered in every fourth block.\<close>

definition offer_switch :: "int \<Rightarrow> SwitchValidator \<Rightarrow> SwitchValidator option \<times> SwitchValidator" where
  "offer_switch rnd tmp =
     (let due = (sv_DoorCount tmp = 0 \<or> sv_DoorCount tmp \<ge> BlackDoorCount);
          tmp' = (if due \<and> sv_Round tmp = - 1 then tmp\<lparr>sv_Round := rnd\<rparr> else tmp);
          tmp' = (if sv_DoorCount tmp' \<ge> BlackDoorCount then tmp'\<lparr>sv_DoorCount := 1\<rparr>
                  else tmp'\<lparr>sv_DoorCount := sv_DoorCount tmp' + 1\<rparr>)
      in (if due then Some tmp' else None, tmp'))"

definition ConsensusState_createProposalBlock ::
  "'blk world \<Rightarrow> int \<Rightarrow> 'blk ConsensusState \<Rightarrow> (('blk option \<times> PartSet option \<times> agent_error go_error) \<times> 'blk ConsensusState) option" where
  "ConsensusState_createProposalBlock W rnd cs = do {
     let (last, cs) = GetLastBlockHeight cs;
     cm \<leftarrow> cs_cm cs;
     let (v, cs) =
       (if last + 1 = of_nat (cm_StartHeight cm) then (Some (cm_Members cm @ cm_BackMembers cm), cs)
        else case cs_svs cs of
          [] \<Rightarrow> (None, cs)
        | tmp # rest \<Rightarrow> (let (v, tmp) = offer_switch rnd tmp in (map_option infos v, cs\<lparr>cs_svs := tmp # rest\<rparr>)));
     (block, err) \<leftarrow> StateAgentImpl_MakeBlock (cs_agent cs) v (cs_state cs);
     case block of
       Some b \<Rightarrow>
         if err = NoError then do {
           (parts, err2) \<leftarrow> StateAgentImpl_MakePartSet (w_hash W) (cs_agent cs) BlockPartSizeBytes b;
           Some ((block, parts, err2), cs)
         }
         else Some ((block, None, err), cs)
     | None \<Rightarrow> Some ((block, None, err), cs)
   }"

text \<open>What \<open>enterPropose\<close> and its caller do when the proposal step is entered.\<close>

definition propose_done :: "'blk world \<Rightarrow> u64 \<Rightarrow> int \<Rightarrow> 'blk ConsensusState \<Rightarrow> 'blk ConsensusState option" where
  "propose_done W height rnd cs = do {
     let cs = ConsensusState_updateRoundStep rnd RoundStepPropose cs;
     let cs = ConsensusState_newStep cs;
     complete \<leftarrow> ConsensusState_isProposalComplete cs;
     if complete then ConsensusState_enterPrevote W height (to_int (rs_Round cs)) cs else Some cs
   }"

definition ConsensusState_enterPropose ::
  "'blk world \<Rightarrow> u64 \<Rightarrow> int \<Rightarrow> 'blk option \<Rightarrow> PartSet option \<Rightarrow> 'blk ConsensusState \<Rightarrow> 'blk ConsensusState option" where
  "ConsensusState_enterPropose W height rnd blk bparts cs =
     (if behind height rnd RoundStepPropose cs then Some cs
      else do {
        let cs = ConsensusState_scheduleTimeout (cfg_Propose (w_config W) rnd) height rnd RoundStepPropose cs;
        (proposer, cs) \<leftarrow> ConsensusState_isProposer W cs;
        cs \<leftarrow> (if proposer then ConsensusState_defaultDecideProposal W height rnd blk bparts cs else Some cs);
        propose_done W height rnd cs
      })"

definition proposes :: "'blk world \<Rightarrow> 'blk ConsensusState \<Rightarrow> (bool \<times> 'blk ConsensusState) option" where
  "proposes W cs =
     (case sa_Priv (cs_state cs) of
        None \<Rightarrow> Some (False, cs)
      | Some pv \<Rightarrow> do {
          vals \<leftarrow> rs_Validators cs;
          if \<not> ValidatorSet_HasAddress vals (GetAddress W pv) then Some (False, cs)
          else ConsensusState_isProposer W cs
        })"

definition ConsensusState_tryEnterProposal ::
  "'blk world \<Rightarrow> u64 \<Rightarrow> int \<Rightarrow> u64 \<Rightarrow> 'blk ConsensusState \<Rightarrow> 'blk ConsensusState option" where
  "ConsensusState_tryEnterProposal W height rnd wait cs =
     (if behind height rnd RoundStepPropose cs then Some cs
      else do {
        (doing, cs) \<leftarrow> proposes W cs;
        ((block, blockParts), cs) \<leftarrow>
          (if doing then do {
             ((block, blockParts, err), cs) \<leftarrow> ConsensusState_createProposalBlock W rnd cs;
             Some (case block of
                     Some b \<Rightarrow> if err = NoError \<and> height = NumberU64 (cs_agent cs) b then ((block, blockParts), cs) else ((None, None), cs)
                   | None \<Rightarrow> ((None, None), cs))
           }
           else Some ((None, None), cs));
        case block of
          None \<Rightarrow> propose_done W height rnd
            (ConsensusState_scheduleTimeout (cfg_Propose (w_config W) rnd) height rnd RoundStepPropose cs)
        | Some b \<Rightarrow>
            if blk_Transactions W b = 0 \<and> cfg_CreateEmptyBlocks (w_config W) \<and> rnd = 0 \<and>
               cfg_WaitForEmptyBlocks (w_config W) (to_int wait) \<and> \<not> blk_IsProposal W b
            then Some (ConsensusState_scheduleTimeoutWithWait
              \<lparr>ti_Duration = cfg_EmptyBlocksIntervalForPer (w_config W) (to_int wait), ti_Height = height, ti_Round = to_uint rnd,
               ti_Step = RoundStepNewRound, ti_Wait = wait + 1\<rparr> cs)
            else ConsensusState_enterPropose W height rnd block blockParts cs
      })"

section \<open>Rounds\<close>

definition ConsensusState_enterNewRound :: "'blk world \<Rightarrow> u64 \<Rightarrow> int \<Rightarrow> 'blk ConsensusState \<Rightarrow> 'blk ConsensusState option" where
  "ConsensusState_enterNewRound W height rnd cs =
     (if rs_Height cs \<noteq> height \<or> rnd < to_int (rs_Round cs) \<or>
         (to_int (rs_Round cs) = rnd \<and> rs_Step cs \<noteq> RoundStepNewHeight)
      then Some cs
      else do {
        (validators, shared) \<leftarrow>
          (if to_int (rs_Round cs) < rnd then do {
             vals \<leftarrow> rs_Validators cs;
             vals \<leftarrow> ValidatorSet_IncrementAccum (to_uint (rnd - to_int (rs_Round cs))) (ValidatorSet_Copy vals);
             Some (Some vals, False)
           }
           else Some (rs_Validators cs, cs_shared cs));
        let cs = ConsensusState_updateRoundStep rnd RoundStepNewRound cs;
        let cs = cs\<lparr>rs_Validators := validators, cs_shared := shared\<rparr>;
        cs \<leftarrow> (if rnd = 0 then do {
                  vals \<leftarrow> rs_Validators cs;
                  Some (set_validators
                    (ValidatorSet_FindValidatorSetProposer (keyAddress (w_env W)) (GetFastLastProposer (cs_agent cs)) vals) cs)
                }
                else Some (cs\<lparr>rs_Proposal := None, rs_ProposalBlock := None, rs_ProposalBlockParts := None\<rparr>));
        votes \<leftarrow> rs_Votes cs;
        votes \<leftarrow> HeightVoteSet_SetRound (wrap64 (rnd + 1)) votes;
        ConsensusState_tryEnterProposal W height rnd 1 (cs\<lparr>rs_Votes := Some votes\<rparr>)
      })"

definition ConsensusState_validatorUpdate ::
  "'blk world \<Rightarrow> ValidatorSet option \<Rightarrow> u64 \<Rightarrow> u64 \<Rightarrow> 'blk ConsensusState \<Rightarrow> 'blk ConsensusState option" where
  "ConsensusState_validatorUpdate W vset uHeight eHeight cs = do {
     let rnd = rs_Round cs;
     let oldHeight = rs_Height cs;
     let cs = cs\<lparr>cs_svs := drop 1 (cs_svs cs)\<rparr>;
     let cs = cs\<lparr>cs_state := StateAgentImpl_UpdateValidator (hexEncode (w_env W)) vset True (cs_state cs), cs_shared := False\<rparr>;
     cs \<leftarrow> ConsensusState_updateToState W cs;
     state \<leftarrow> StateAgentImpl_PrivReset (cs_state cs);
     let state = StateAgentImpl_SetEndHeight eHeight state;
     let state = StateAgentImpl_SetBeginHeight uHeight state;
     let cs = cs\<lparr>cs_state := state\<rparr>;
     let newHeight = rs_Height cs;
     let rnd = (if newHeight = oldHeight \<and> rnd > 0 then rnd + 1 else 0);
     let cs = schedule_task newHeight rnd cs;
     ConsensusState_enterNewRound W newHeight (to_int rnd) cs
   }"

section \<open>Messages\<close>

definition ConsensusState_defaultSetProposal ::
  "'blk world \<Rightarrow> Proposal option \<Rightarrow> 'blk ConsensusState \<Rightarrow> (cs_error go_error \<times> 'blk ConsensusState) option" where
  "ConsensusState_defaultSetProposal W proposal cs =
     (case proposal of
        None \<Rightarrow> Some (NoError, cs)
      | Some p \<Rightarrow>
          if rs_Proposal cs \<noteq> None then Some (NoError, cs)
          else if pHeight p \<noteq> rs_Height cs \<or> pRound p \<noteq> rs_Round cs then Some (NoError, cs)
          else if RoundStepCommit \<le> rs_Step cs then Some (NoError, cs)
          else if to_int (POLRound p) \<noteq> - 1 \<and> (to_int (POLRound p) < 0 \<or> pRound p \<le> POLRound p)
          then Some (Err ErrInvalidProposalPOLRound, cs)
          else do {
            vals \<leftarrow> rs_Validators cs;
            (proposer, vals) \<leftarrow> ValidatorSet_GetProposer vals;
            val \<leftarrow> proposer;
            let cs = set_validators vals cs;
            if \<not> PubKeyTrue_VerifyBytes (w_env W) (PubKey val)
                  (Proposal_SignBytes (w_env W) (StateAgentImpl_GetChainID (cs_state cs)) p) (pSignature p)
            then Some (Err ErrInvalidProposalSignature, cs)
            else Some (NoError, cs\<lparr>rs_Proposal := proposal,
                                   rs_ProposalBlockParts := Some (NewPartSetFromHeader (BlockPartsHeader p))\<rparr>)
          })"

definition update_valid :: "'blk world \<Rightarrow> BlockID \<Rightarrow> u64 \<Rightarrow> 'blk ConsensusState \<Rightarrow> 'blk ConsensusState" where
  "update_valid W blockID rnd cs =
     (if hashes_to W (rs_ProposalBlock cs) (Hash blockID)
      then cs\<lparr>rs_ValidRound := rnd, rs_ValidBlock := rs_ProposalBlock cs, rs_ValidBlockParts := rs_ProposalBlockParts cs\<rparr>
      else cs)"

text \<open>What follows when the last part has arrived and the block is decoded.\<close>

definition block_complete :: "'blk world \<Rightarrow> u64 \<Rightarrow> 'blk ConsensusState \<Rightarrow> 'blk ConsensusState option" where
  "block_complete W height cs = do {
     votes \<leftarrow> rs_Votes cs;
     let (blockID, hasTwoThirds) = VoteSet_TwoThirdsMajority (HeightVoteSet_Prevotes votes (to_int (rs_Round cs)));
     let cs = (if hasTwoThirds \<and> \<not> BlockID_IsZero blockID \<and> rs_ValidRound cs < rs_Round cs
               then update_valid W blockID (rs_Round cs) cs else cs);
     complete \<leftarrow> (if rs_Step cs \<le> RoundStepPropose then ConsensusState_isProposalComplete cs else Some False);
     if complete then ConsensusState_enterPrevote W height (to_int (rs_Round cs)) cs
     else if rs_Step cs = RoundStepCommit then ConsensusState_tryFinalizeCommit W height cs
     else Some cs
   }"

definition add_part :: "'blk world \<Rightarrow> Part \<Rightarrow> PartSet \<Rightarrow> 'blk ConsensusState \<Rightarrow> ((bool \<times> part_error go_error) \<times> PartSet \<times> 'blk ConsensusState) option" where
  "add_part W part parts cs = do {
     (res, new) \<leftarrow> PartSet_AddPart (w_hash W) part parts;
     Some (res, new, cs\<lparr>rs_ProposalBlockParts := Some new,
       rs_LockedBlockParts := written parts new (rs_LockedBlockParts cs), rs_ValidBlockParts := written parts new (rs_ValidBlockParts cs)\<rparr>)
   }"

definition ConsensusState_addProposalBlockPart ::
  "'blk world \<Rightarrow> u64 \<Rightarrow> Part option \<Rightarrow> 'blk ConsensusState \<Rightarrow> ((bool \<times> cs_error go_error) \<times> 'blk ConsensusState) option" where
  "ConsensusState_addProposalBlockPart W height part cs =
     (if rs_Height cs \<noteq> height then Some ((False, NoError), cs)
      else do {
        p \<leftarrow> part;
        case rs_ProposalBlockParts cs of
          None \<Rightarrow> Some ((False, NoError), cs)
        | Some parts \<Rightarrow> do {
            ((added, err), parts, cs) \<leftarrow> add_part W p parts cs;
            case err of
              Err e \<Rightarrow> Some ((added, Err (ErrParts e)), cs)
            | NoError \<Rightarrow>
                if added \<and> PartSet_IsComplete parts then do {
                  (block, err) \<leftarrow> MakeBlockFromPartSet (cs_agent cs) parts;
                  let cs = cs\<lparr>rs_ProposalBlock := block\<rparr>;
                  case err of
                    Err e \<Rightarrow> Some ((True, Err (ErrMakeBlock e)), cs)
                  | NoError \<Rightarrow> do {
                      cs \<leftarrow> block_complete W height cs;
                      Some ((True, NoError), cs)
                    }
                }
                else Some ((added, NoError), cs)
          }
      })"

text \<open>The prevote part of \<open>addVote\<close>: unlock and keep the valid block on a polka, then move on.\<close>

definition polka :: "'blk world \<Rightarrow> u64 \<Rightarrow> VoteSet option \<Rightarrow> 'blk ConsensusState \<Rightarrow> 'blk ConsensusState" where
  "polka W rnd prevotes cs =
     (let (blockID, ok) = VoteSet_TwoThirdsMajority prevotes
      in if \<not> ok then cs
         else
           let cs = (if rs_LockedBlock cs \<noteq> None \<and> rs_LockedRound cs < rnd \<and> rnd \<le> rs_Round cs \<and>
                        \<not> hashes_to W (rs_LockedBlock cs) (Hash blockID)
                     then unlock cs else cs)
           in if \<not> BlockID_IsZero blockID \<and> rs_ValidRound cs < rnd \<and> rnd \<le> rs_Round cs
              then update_valid W blockID rnd cs else cs)"

definition prevote_moves ::
  "'blk world \<Rightarrow> u64 \<Rightarrow> Vote \<Rightarrow> VoteSet option \<Rightarrow> 'blk ConsensusState \<Rightarrow> 'blk ConsensusState option" where
  "prevote_moves W height vote prevotes cs =
     (if rs_Round cs \<le> Round vote \<and> VoteSet_HasTwoThirdsAny prevotes then do {
        cs \<leftarrow> ConsensusState_enterNewRound W height (to_int (Round vote)) cs;
        if VoteSet_HasTwoThirdsMajority prevotes then ConsensusState_enterPrecommit W height (to_int (Round vote)) cs
        else do {
          cs \<leftarrow> ConsensusState_enterPrevote W height (to_int (Round vote)) cs;
          ConsensusState_enterPrevoteWait W height (to_int (Round vote)) cs
        }
      }
      else (case rs_Proposal cs of
              Some p \<Rightarrow>
                if 0 \<le> to_int (POLRound p) \<and> POLRound p = Round vote then do {
                  complete \<leftarrow> ConsensusState_isProposalComplete cs;
                  if complete then ConsensusState_enterPrevote W height (to_int (rs_Round cs)) cs else Some cs
                }
                else Some cs
            | None \<Rightarrow> Some cs))"

definition prevote_added :: "'blk world \<Rightarrow> u64 \<Rightarrow> Vote \<Rightarrow> 'blk ConsensusState \<Rightarrow> 'blk ConsensusState option" where
  "prevote_added W height vote cs = do {
     votes \<leftarrow> rs_Votes cs;
     let prevotes = HeightVoteSet_Prevotes votes (to_int (Round vote));
     let cs = polka W (Round vote) prevotes cs;
     prevote_moves W height vote prevotes cs
   }"

definition precommit_added :: "'blk world \<Rightarrow> u64 \<Rightarrow> Vote \<Rightarrow> 'blk ConsensusState \<Rightarrow> 'blk ConsensusState option" where
  "precommit_added W height vote cs = do {
     votes \<leftarrow> rs_Votes cs;
     precommits \<leftarrow> HeightVoteSet_Precommits votes (to_int (Round vote));
     let (blockID, ok) = VoteSet_TwoThirdsMajority (Some precommits);
     if ok then
       (if length (Hash blockID) = 0 then ConsensusState_enterNewRound W height (wrap64 (to_int (Round vote) + 1)) cs
        else do {
          cs \<leftarrow> ConsensusState_enterNewRound W height (to_int (Round vote)) cs;
          cs \<leftarrow> ConsensusState_enterPrecommit W height (to_int (Round vote)) cs;
          cs \<leftarrow> ConsensusState_enterCommit W height (to_int (Round vote)) cs;
          if cfg_SkipTimeoutCommit (w_config W) \<and> VoteSet_HasAll precommits
          then ConsensusState_enterNewRound W (rs_Height cs) 0 cs else Some cs
        })
     else if VoteSet_HasAll precommits then ConsensusState_enterNewRound W height (to_int (rs_Round cs + 1)) cs
     else if rs_Round cs \<le> Round vote \<and> VoteSet_HasTwoThirdsAny (Some precommits) then do {
       cs \<leftarrow> ConsensusState_enterNewRound W height (to_int (Round vote)) cs;
       cs \<leftarrow> ConsensusState_enterPrecommit W height (to_int (Round vote)) cs;
       ConsensusState_enterPrecommitWait W height (to_int (Round vote)) cs
     }
     else Some cs
   }"

definition fire_vote :: "Vote \<Rightarrow> 'blk ConsensusState \<Rightarrow> 'blk ConsensusState" where
  "fire_vote vote cs = cs\<lparr>cs_evsw := cs_evsw cs @ [EventVote vote]\<rparr>"

text \<open>A precommit for the height before, while the next height waits to start.\<close>

definition last_commit_vote ::
  "'blk world \<Rightarrow> Vote \<Rightarrow> 'blk ConsensusState \<Rightarrow> ((bool \<times> cs_error go_error) \<times> 'blk ConsensusState) option" where
  "last_commit_vote W vote cs =
     (if \<not> (rs_Step cs = RoundStepNewHeight \<and> Type vote = VoteTypePrecommit) then Some ((False, Err ErrVoteHeightMismatch), cs)
      else do {
        (added, err, cs, go_on) \<leftarrow>
          (case rs_LastCommit cs of
             None \<Rightarrow> Some (False, NoError, cs, True)
           | Some S \<Rightarrow> do {
               ((added, err), S) \<leftarrow> VoteSet_AddVote (w_env W) (Some vote) (Some S);
               Some (added, case err of NoError \<Rightarrow> NoError | Err e \<Rightarrow> Err (ErrVotes (ErrVoteSet e)), cs\<lparr>rs_LastCommit := Some S\<rparr>, added)
             });
        if \<not> go_on then Some ((added, err), cs)
        else do {
          let cs = fire_vote vote cs;
          cs \<leftarrow> (if cfg_SkipTimeoutCommit (w_config W) \<and> (case rs_LastCommit cs of None \<Rightarrow> False | Some S \<Rightarrow> VoteSet_HasAll S)
                  then ConsensusState_enterNewRound W (rs_Height cs) 0 cs else Some cs);
          Some ((added, err), cs)
        }
      })"

definition ConsensusState_addVote ::
  "'blk world \<Rightarrow> Vote \<Rightarrow> string \<Rightarrow> 'blk ConsensusState \<Rightarrow> ((bool \<times> cs_error go_error) \<times> 'blk ConsensusState) option" where
  "ConsensusState_addVote W vote peerID cs =
     (if Height vote + 1 = rs_Height cs then last_commit_vote W vote cs
      else if Height vote \<noteq> rs_Height cs then Some ((False, Err ErrVoteHeightMismatch), cs)
      else do {
        let height = rs_Height cs;
        votes \<leftarrow> rs_Votes cs;
        ((added, err), votes) \<leftarrow> HeightVoteSet_AddVote (w_env W) vote peerID votes;
        let cs = cs\<lparr>rs_Votes := Some votes\<rparr>;
        let err = (case err of NoError \<Rightarrow> NoError | Err e \<Rightarrow> Err (ErrVotes e));
        if \<not> added then Some ((added, err), cs)
        else do {
          let cs = fire_vote vote cs;
          cs \<leftarrow> (if Type vote = VoteTypePrevote then prevote_added W height vote cs
                  else if Type vote = VoteTypePrecommit then precommit_added W height vote cs
                  else None);
          Some ((added, err), cs)
        }
      })"

definition ConsensusState_tryAddVote ::
  "'blk world \<Rightarrow> Vote \<Rightarrow> string \<Rightarrow> 'blk ConsensusState \<Rightarrow> (cs_error go_error \<times> 'blk ConsensusState) option" where
  "ConsensusState_tryAddVote W vote peerID cs = do {
     ((_, err), cs) \<leftarrow> ConsensusState_addVote W vote peerID cs;
     case err of
       NoError \<Rightarrow> Some (NoError, cs)
     | Err e \<Rightarrow>
         if e = ErrVoteHeightMismatch then Some (err, cs)
         else if e = ErrVotes (ErrVoteSet ErrVoteConflictingVotes) then do {
           _ \<leftarrow> sa_Priv (cs_state cs);
           Some (err, cs)
         }
         else Some (Err ErrAddingVote, cs)
   }"

definition ConsensusState_handleMsg :: "'blk world \<Rightarrow> msgInfo \<Rightarrow> 'blk ConsensusState \<Rightarrow> 'blk ConsensusState option" where
  "ConsensusState_handleMsg W mi cs =
     (case Msg mi of
        ProposalMessage proposal \<Rightarrow> map_option snd (ConsensusState_defaultSetProposal W proposal cs)
      | BlockPartMessage height rnd part \<Rightarrow> map_option snd (ConsensusState_addProposalBlockPart W height part cs)
      | VoteMessage vote \<Rightarrow> do { v \<leftarrow> vote; map_option snd (ConsensusState_tryAddVote W v (PeerID mi) cs) }
      | ValidatorUpdateMessage vset uHeight eHeight \<Rightarrow> ConsensusState_validatorUpdate W vset uHeight eHeight cs)"

section \<open>Timeouts and the receive routine\<close>

text \<open>The round state that the routine copied is the one of the state, which only the routine changes.\<close>

definition ConsensusState_handleTimeout :: "'blk world \<Rightarrow> timeoutInfo \<Rightarrow> 'blk ConsensusState \<Rightarrow> 'blk ConsensusState option" where
  "ConsensusState_handleTimeout W ti cs =
     (if ti_Height ti \<noteq> rs_Height cs \<or> ti_Round ti < rs_Round cs \<or> (ti_Round ti = rs_Round cs \<and> ti_Step ti < rs_Step cs)
      then Some cs
      else if ti_Step ti = RoundStepNewHeight then ConsensusState_enterNewRound W (ti_Height ti) 0 cs
      else if ti_Step ti = RoundStepNewRound then ConsensusState_tryEnterProposal W (ti_Height ti) 0 (ti_Wait ti) cs
      else if ti_Step ti = RoundStepPropose then ConsensusState_enterPrevote W (ti_Height ti) (to_int (ti_Round ti)) cs
      else if ti_Step ti = RoundStepPrevoteWait then ConsensusState_enterPrecommit W (ti_Height ti) (to_int (ti_Round ti)) cs
      else if ti_Step ti = RoundStepPrecommitWait
      then ConsensusState_enterNewRound W (ti_Height ti) (wrap64 (to_int (ti_Round ti) + 1)) cs
      else None)"

definition ConsensusState_handleTimeoutForTask :: "'blk world \<Rightarrow> timeoutInfo \<Rightarrow> 'blk ConsensusState \<Rightarrow> 'blk ConsensusState option" where
  "ConsensusState_handleTimeoutForTask W ti cs = ConsensusState_updateStateForSync W cs"

text \<open>
  One turn of the receive routine, by the channel that was ready. The overflow of the own queue
  goes through goroutines, so any of its messages may come next.
\<close>

datatype input = PeerQueue | InternalQueue nat | Tock timeoutInfo | TaskTock timeoutInfo | ChanTo "SwitchValidator option"

definition ConsensusState_receiveRoutine :: "'blk world \<Rightarrow> input \<Rightarrow> 'blk ConsensusState \<Rightarrow> 'blk ConsensusState option" where
  "ConsensusState_receiveRoutine W inp cs =
     (case inp of
        PeerQueue \<Rightarrow>
          (case cs_peerMsgQueue cs of
             [] \<Rightarrow> Some cs
           | mi # rest \<Rightarrow> ConsensusState_handleMsg W mi (cs\<lparr>cs_peerMsgQueue := rest\<rparr>))
      | InternalQueue k \<Rightarrow>
          if k < length (cs_internalMsgQueue cs)
          then ConsensusState_handleMsg W (cs_internalMsgQueue cs ! k)
                 (cs\<lparr>cs_internalMsgQueue := take k (cs_internalMsgQueue cs) @ drop (Suc k) (cs_internalMsgQueue cs)\<rparr>)
          else Some cs
      | Tock ti \<Rightarrow> ConsensusState_handleTimeout W ti cs
      | TaskTock ti \<Rightarrow> ConsensusState_handleTimeoutForTask W ti cs
      | ChanTo s \<Rightarrow> ConsensusState_switchHandle s cs)"

definition CompareHRS :: "u64 \<Rightarrow> u64 \<Rightarrow> RoundStepType \<Rightarrow> u64 \<Rightarrow> u64 \<Rightarrow> RoundStepType \<Rightarrow> int" where
  "CompareHRS h1 r1 s1 h2 r2 s2 =
     (if h1 < h2 then - 1 else if h1 > h2 then 1
      else if r1 < r2 then - 1 else if r1 > r2 then 1
      else if s1 < s2 then - 1 else if s1 > s2 then 1
      else 0)"

end
