(* ===== verification/Consensus_Invariant.thy ===== *)
theory Consensus_Invariant
  imports Consensus_State
begin

text \<open>
  The invariant of the consensus state and its preservation by every handler. The rules of
  \<open>post_intros\<close> take a handler apart; each handler it calls contributes one lemma, so that
  a proof follows the text of its handler. Rounds are kept below \<open>2^62\<close>: a step starts below
  the bound, so that no conversion between \<open>uint\<close> and \<open>int\<close> wraps.
\<close>

section \<open>Small rounds\<close>

abbreviation max_round :: nat where "max_round \<equiv> 2 ^ 62"

lemma to_int_round: "unat r \<le> max_round \<Longrightarrow> to_int r = int (unat r)"
  by (rule to_int_unat) simp

lemma to_uint_round: "0 \<le> x \<Longrightarrow> x \<le> int max_round \<Longrightarrow> unat (to_uint x) = nat x"
  unfolding to_uint_def
  by (simp add: unat_eq_nat_uint uint_word_of_int_eq take_bit_int_eq_self)

lemma to_int_to_uint_round: "0 \<le> x \<Longrightarrow> x \<le> int max_round \<Longrightarrow> to_int (to_uint x) = x"
  by (simp add: to_int_round to_uint_round)

lemma to_int_le: "unat r \<le> max_round \<Longrightarrow> unat s \<le> max_round \<Longrightarrow> to_int r \<le> to_int s \<longleftrightarrow> r \<le> s"
  by (simp add: to_int_round word_le_def)

section \<open>The invariant\<close>

definition world_ok :: "'blk world \<Rightarrow> bool" where
  "world_ok W \<longleftrightarrow> codec_ok (w_env W) \<and> (\<forall>sigs b. blk_Hash W (blk_SetSign W sigs b) = blk_Hash W b)"

text \<open>A committee that the elections gave, and the votes of such a committee.\<close>

definition committee_ok :: "'blk world \<Rightarrow> ValidatorSet \<Rightarrow> bool" where
  "committee_ok W v \<longleftrightarrow> powers_ok v \<and> w_committee W (Validators v)"

definition genuine :: "'blk world \<Rightarrow> HeightVoteSet \<Rightarrow> bool" where
  "genuine W H \<longleftrightarrow> hvs_inv (w_env W) H \<and> w_committee W (Validators (hvs_valSet H))"

definition polka_for :: "'blk world \<Rightarrow> HeightVoteSet \<Rightarrow> u64 \<Rightarrow> 'blk option \<Rightarrow> bool" where
  "polka_for W H r b \<longleftrightarrow> (\<forall>x. b = Some x \<longrightarrow>
     (\<exists>bid. has_maj H (to_int r) VoteTypePrevote bid \<and> Hash bid = blk_Hash W x \<and> Hash bid \<noteq> []))"

definition committed_ok :: "'blk world \<Rightarrow> string \<Rightarrow> 'blk \<Rightarrow> bool" where
  "committed_ok W chain b \<longleftrightarrow>
     (\<exists>H r bid. genuine W H \<and> hvs_chainID H = chain \<and> has_maj H r VoteTypePrecommit bid \<and> Hash bid = blk_Hash W b)"

definition stored_ok :: "'blk world \<Rightarrow> string \<Rightarrow> 'blk BlockMeta \<Rightarrow> bool" where
  "stored_ok W chain m \<longleftrightarrow>
     Hash (bm_BlockID m) = blk_Hash W (bm_Block m) \<and> bm_BlockID m = cBlockID (bm_SeenCommit m) \<and>
     PartSet_HasHeader (bm_BlockPacks m) (PartsHeader (bm_BlockID m)) \<and>
     (\<exists>vs h. committee_ok W vs \<and>
        ValidatorSet_VerifyCommit (w_env W) vs chain (bm_BlockID m) h (bm_SeenCommit m) = Some NoError)"

definition vals_ok :: "'blk world \<Rightarrow> 'blk ConsensusState \<Rightarrow> bool" where
  "vals_ok W cs \<longleftrightarrow> (\<forall>v. sa_Validators (cs_state cs) = Some v \<longrightarrow> committee_ok W v) \<and>
     (cs_shared cs \<longrightarrow> rs_Validators cs = sa_Validators (cs_state cs))"

text \<open>What the handlers leave behind for good: the stored blocks and those handed to the chain.\<close>

definition log_ok :: "'blk world \<Rightarrow> 'blk ConsensusState \<Rightarrow> bool" where
  "log_ok W cs \<longleftrightarrow>
     (\<forall>b \<in> set (cs_committed cs). committed_ok W (sa_ChainID (cs_state cs)) b) \<and>
     store_ok (cs_blockStore cs) \<and>
     (\<forall>m \<in> snd ` set (cs_blockStore cs). stored_ok W (sa_ChainID (cs_state cs)) m)"

definition round_ok :: "'blk world \<Rightarrow> 'blk ConsensusState \<Rightarrow> HeightVoteSet \<Rightarrow> bool" where
  "round_ok W cs H \<longleftrightarrow>
     rs_Votes cs = Some H \<and> genuine W H \<and> hvs_height H = rs_Height cs \<and> hvs_chainID H = sa_ChainID (cs_state cs) \<and>
     unat (rs_Round cs) \<le> max_round \<and> hvs_round H \<le> int (unat (rs_Round cs)) + 1 \<and>
     (rs_Step cs = RoundStepNewHeight \<longrightarrow> rs_Round cs = 0 \<and> hvs_round H = 0) \<and>
     rs_LockedRound cs \<le> rs_Round cs \<and> polka_for W H (rs_LockedRound cs) (rs_LockedBlock cs) \<and>
     rs_ValidRound cs \<le> rs_Round cs \<and> polka_for W H (rs_ValidRound cs) (rs_ValidBlock cs) \<and>
     (rs_CommitRound cs = - 1 \<or> (\<exists>bid. has_maj H (to_int (rs_CommitRound cs)) VoteTypePrecommit bid))"

definition cs_inv :: "'blk world \<Rightarrow> 'blk ConsensusState \<Rightarrow> bool" where
  "cs_inv W cs \<longleftrightarrow> (\<exists>H. round_ok W cs H) \<and> vals_ok W cs \<and> log_ok W cs"

text \<open>A precommit for a block is backed by the prevotes of more than two thirds at its height and round.\<close>

fun backed :: "'blk world \<Rightarrow> ConsensusMessage \<Rightarrow> bool" where
  "backed W (VoteMessage (Some v)) \<longleftrightarrow> (Type v = VoteTypePrecommit \<longrightarrow> Hash (vBlockID v) \<noteq> [] \<longrightarrow>
     (\<exists>H. genuine W H \<and> hvs_height H = Height v \<and> has_maj H (to_int (Round v)) VoteTypePrevote (vBlockID v)))"
| "backed W _ \<longleftrightarrow> True"

definition queue_ext :: "'blk world \<Rightarrow> 'blk ConsensusState \<Rightarrow> 'blk ConsensusState \<Rightarrow> bool" where
  "queue_ext W cs cs' \<longleftrightarrow> (\<exists>q. cs_internalMsgQueue cs' = cs_internalMsgQueue cs @ q \<and> (\<forall>m \<in> set q. backed W (Msg m)))"

definition hrs_le :: "'blk ConsensusState \<Rightarrow> 'blk ConsensusState \<Rightarrow> bool" where
  "hrs_le cs cs' \<longleftrightarrow> rs_Height cs' = rs_Height cs \<and>
     (rs_Round cs < rs_Round cs' \<or> rs_Round cs = rs_Round cs' \<and> rs_Step cs \<le> rs_Step cs')"

text \<open>A lock is given up only for the prevotes of more than two thirds for something else, at a round after it.\<close>

definition lock_kept :: "'blk world \<Rightarrow> 'blk ConsensusState \<Rightarrow> 'blk ConsensusState \<Rightarrow> bool" where
  "lock_kept W cs cs' \<longleftrightarrow> (\<forall>b. rs_LockedBlock cs = Some b \<longrightarrow>
     (\<exists>b'. rs_LockedBlock cs' = Some b' \<and> blk_Hash W b' = blk_Hash W b \<and> rs_LockedRound cs \<le> rs_LockedRound cs') \<or>
     (\<exists>H r bid. genuine W H \<and> hvs_height H = rs_Height cs \<and> has_maj H (to_int r) VoteTypePrevote bid \<and>
        Hash bid \<noteq> blk_Hash W b \<and> rs_LockedRound cs < r \<and> r \<le> rs_Round cs'))"

definition ahead :: "'blk world \<Rightarrow> 'blk ConsensusState \<Rightarrow> 'blk ConsensusState \<Rightarrow> bool" where
  "ahead W cs cs' \<longleftrightarrow> hrs_le cs cs' \<and> lock_kept W cs cs'"

text \<open>The relation between the states before and after a handler.\<close>

definition gext :: "'blk world \<Rightarrow> 'blk ConsensusState \<Rightarrow> 'blk ConsensusState \<Rightarrow> bool" where
  "gext W cs cs' \<longleftrightarrow> queue_ext W cs cs' \<and>
     (\<exists>bs. cs_committed cs' = cs_committed cs @ bs \<and> (bs = [] \<longrightarrow> ahead W cs cs'))"

definition lext :: "'blk world \<Rightarrow> 'blk ConsensusState \<Rightarrow> 'blk ConsensusState \<Rightarrow> bool" where
  "lext W cs cs' \<longleftrightarrow> queue_ext W cs cs' \<and> cs_committed cs' = cs_committed cs \<and> ahead W cs cs'"

lemma queue_ext_refl [simp]: "queue_ext W cs cs"
  by (simp add: queue_ext_def)

lemma queue_ext_trans: "queue_ext W a b \<Longrightarrow> queue_ext W b c \<Longrightarrow> queue_ext W a c"
  unfolding queue_ext_def by (metis Un_iff append_assoc set_append)

lemma hrs_le_refl [simp]: "hrs_le cs cs"
  by (simp add: hrs_le_def)

lemma hrs_le_trans: "hrs_le a b \<Longrightarrow> hrs_le b c \<Longrightarrow> hrs_le a c"
  by (auto simp: hrs_le_def)

lemma lock_keptI: "rs_LockedBlock cs' = rs_LockedBlock cs \<Longrightarrow> rs_LockedRound cs' = rs_LockedRound cs \<Longrightarrow> lock_kept W cs cs'"
  by (simp add: lock_kept_def)

lemma ahead_refl [simp]: "ahead W cs cs"
  by (simp add: ahead_def lock_keptI)

lemma lock_kept_trans:
  assumes ab: "lock_kept W a b" and bc: "lock_kept W b c" and hrs: "hrs_le a b" "hrs_le b c"
  shows "lock_kept W a c"
  unfolding lock_kept_def
proof (intro allI impI)
  fix x
  assume x: "rs_LockedBlock a = Some x"
  have r: "rs_Round b \<le> rs_Round c" "rs_Height b = rs_Height a" using hrs by (auto simp: hrs_le_def)
  show "(\<exists>b'. rs_LockedBlock c = Some b' \<and> blk_Hash W b' = blk_Hash W x \<and> rs_LockedRound a \<le> rs_LockedRound c) \<or>
     (\<exists>H r bid. genuine W H \<and> hvs_height H = rs_Height a \<and> has_maj H (to_int r) VoteTypePrevote bid \<and>
        Hash bid \<noteq> blk_Hash W x \<and> rs_LockedRound a < r \<and> r \<le> rs_Round c)"
    using ab [unfolded lock_kept_def, rule_format, OF x]
  proof (elim disjE exE conjE)
    fix y
    assume "rs_LockedBlock b = Some y" and y: "blk_Hash W y = blk_Hash W x" "rs_LockedRound a \<le> rs_LockedRound b"
    from bc [unfolded lock_kept_def, rule_format, OF this(1)] show ?thesis
      unfolding y(1) r(2) using y(2) by (meson order_trans order_le_less_trans)
  next
    fix H r bid
    assume "genuine W H" "hvs_height H = rs_Height a" "has_maj H (to_int r) VoteTypePrevote bid"
      "Hash bid \<noteq> blk_Hash W x" "rs_LockedRound a < r" "r \<le> rs_Round b"
    then show ?thesis using order_trans [OF _ r(1)] by blast
  qed
qed

lemma ahead_trans: "ahead W a b \<Longrightarrow> ahead W b c \<Longrightarrow> ahead W a c"
  unfolding ahead_def using hrs_le_trans lock_kept_trans by blast

lemma lext_refl [simp]: "lext W cs cs"
  by (simp add: lext_def)

lemma lext_trans: "lext W a b \<Longrightarrow> lext W b c \<Longrightarrow> lext W a c"
  unfolding lext_def using queue_ext_trans ahead_trans by metis

lemma gext_refl [simp]: "gext W cs cs"
  by (simp add: gext_def)

lemma gext_trans: "gext W a b \<Longrightarrow> gext W b c \<Longrightarrow> gext W a c"
  unfolding gext_def using queue_ext_trans ahead_trans by (metis append_assoc append_is_Nil_conv)

lemma lext_gext: "lext W a b \<Longrightarrow> gext W a b"
  by (simp add: lext_def gext_def)

section \<open>Handlers that do not touch the round\<close>

definition core :: "'blk ConsensusState \<Rightarrow> _" where
  "core cs = (rs_Height cs, rs_Round cs, rs_Step cs, rs_LockedRound cs, rs_LockedBlock cs, rs_ValidRound cs, rs_ValidBlock cs,
     rs_Votes cs, rs_CommitRound cs, cs_committed cs, cs_blockStore cs, sa_ChainID (cs_state cs))"

definition quiet :: "'blk world \<Rightarrow> 'blk ConsensusState \<Rightarrow> 'blk ConsensusState \<Rightarrow> bool" where
  "quiet W cs cs' \<longleftrightarrow> core cs' = core cs \<and> (vals_ok W cs \<longrightarrow> vals_ok W cs') \<and> queue_ext W cs cs'"

lemma quiet_refl [simp]: "quiet W cs cs"
  by (simp add: quiet_def)

lemma quiet_trans: "quiet W a b \<Longrightarrow> quiet W b c \<Longrightarrow> quiet W a c"
  unfolding quiet_def using queue_ext_trans by metis

lemma quietI:
  assumes "core cs' = core cs" "cs_internalMsgQueue cs' = cs_internalMsgQueue cs"
    "sa_Validators (cs_state cs') = sa_Validators (cs_state cs)" "rs_Validators cs' = rs_Validators cs" "cs_shared cs' = cs_shared cs"
  shows "quiet W cs cs'"
  using assms by (simp add: quiet_def queue_ext_def vals_ok_def)

lemma quiet_round: "quiet W cs cs' \<Longrightarrow> round_ok W cs' H \<longleftrightarrow> round_ok W cs H"
  by (simp add: quiet_def core_def round_ok_def)

lemma quiet_inv: "quiet W cs cs' \<Longrightarrow> cs_inv W cs \<Longrightarrow> cs_inv W cs'"
  by (auto simp: quiet_def core_def cs_inv_def round_ok_def log_ok_def)

lemma quiet_lext: "quiet W cs cs' \<Longrightarrow> lext W cs cs'"
  by (auto simp: quiet_def core_def lext_def ahead_def hrs_le_def intro: lock_keptI)

lemma quiet_hrs: "quiet W cs cs' \<Longrightarrow> rs_Height cs' = rs_Height cs \<and> rs_Round cs' = rs_Round cs \<and> rs_Step cs' = rs_Step cs"
  by (simp add: quiet_def core_def)

lemma quiet_set_validators:
  assumes "rs_Validators cs = Some v" "committee_ok W v \<longrightarrow> committee_ok W v'"
  shows "quiet W cs (set_validators v' cs)"
  using assms by (auto simp: quiet_def core_def set_validators_def vals_ok_def queue_ext_def Let_def)

lemma powers_ok_Proposer [simp]: "powers_ok (v\<lparr>Proposer := p\<rparr>) = powers_ok v"
  by (simp add: powers_ok_def power_sum_def vs_total_def ValidatorSet_TotalVotingPower_def Let_def)

lemma quiet_time_Now: "time_Now W cs = (t, cs') \<Longrightarrow> quiet W cs cs'"
  by (auto simp: time_Now_def intro!: quietI simp: core_def)

lemma quiet_GetLastBlockHeight: "GetLastBlockHeight cs = (h, cs') \<Longrightarrow> quiet W cs cs'"
  by (auto simp: GetLastBlockHeight_def StateAgentImpl_GetLastBlockHeight_def Let_def intro!: quietI simp: core_def)

text \<open>A vote that is signed and sent: only the key, the clock and the own queue change.\<close>

definition votes_sent :: "'blk ConsensusState \<Rightarrow> byte \<Rightarrow> BlockID \<Rightarrow> 'blk ConsensusState \<Rightarrow> bool" where
  "votes_sent cs typeB bid cs' \<longleftrightarrow>
     (\<exists>c p q. cs' = cs\<lparr>cs_clock := c, cs_state := (cs_state cs)\<lparr>sa_Priv := p\<rparr>, cs_internalMsgQueue := cs_internalMsgQueue cs @ q\<rparr> \<and>
       (\<forall>m \<in> set q. \<exists>v. Msg m = VoteMessage (Some v) \<and> Type v = typeB \<and> Height v = rs_Height cs \<and> Round v = rs_Round cs \<and> vBlockID v = bid))"

lemma SignVote_keeps:
  "privValidator_SignVote E K now chain v pv = Some (err, v', pv') \<Longrightarrow>
     Type v' = Type v \<and> Height v' = Height v \<and> Round v' = Round v \<and> vBlockID v' = vBlockID v"
  unfolding privValidator_SignVote_def privValidator_signVote_def
  by (auto split: if_splits option.splits elim!: bind_eq_SomeE simp: Let_def)

lemma signVote_post:
  "post (ConsensusState_signVote W t h head cs) (\<lambda>((v, err), cs').
     \<exists>c p. cs' = cs\<lparr>cs_clock := c, cs_state := (cs_state cs)\<lparr>sa_Priv := p\<rparr>\<rparr> \<and>
       Type v = t \<and> Height v = rs_Height cs \<and> Round v = rs_Round cs \<and> vBlockID v = \<lparr>Hash = h, PartsHeader = head\<rparr>)"
  unfolding ConsensusState_signVote_def time_Now_def Let_def
  by (rule postI) (force elim!: bind_eq_SomeE dest!: SignVote_keeps split: prod.splits)

lemma votes_sent_refl: "votes_sent cs t b cs"
  unfolding votes_sent_def by (rule exI [of _ "cs_clock cs"], rule exI [of _ "sa_Priv (cs_state cs)"], rule exI [of _ "[]"]) simp

lemma votes_sent_send:
  assumes "cs' = cs\<lparr>cs_clock := c, cs_state := (cs_state cs)\<lparr>sa_Priv := p\<rparr>\<rparr>"
    "Type v = t" "Height v = rs_Height cs" "Round v = rs_Round cs" "vBlockID v = bid"
  shows "votes_sent cs t bid (ConsensusState_sendInternalMessage \<lparr>Msg = VoteMessage (Some v), PeerID = peer\<rparr> cs')"
  using assms unfolding votes_sent_def ConsensusState_sendInternalMessage_def
  by (intro exI [of _ c] exI [of _ p] exI [of _ "[\<lparr>Msg = VoteMessage (Some v), PeerID = peer\<rparr>]"]) simp

lemma votes_sent_keys:
  "cs' = cs\<lparr>cs_clock := c, cs_state := (cs_state cs)\<lparr>sa_Priv := p\<rparr>\<rparr> \<Longrightarrow> votes_sent cs t bid cs'"
  unfolding votes_sent_def by (intro exI [of _ c] exI [of _ p] exI [of _ "[]"]) simp

lemma signAddVote_sent:
  "post (ConsensusState_signAddVote W t h head k cs) (\<lambda>(_, cs'). votes_sent cs t \<lparr>Hash = h, PartsHeader = head\<rparr> cs')"
  unfolding ConsensusState_signAddVote_def
  apply (rule post_case_option)
   apply (simp add: votes_sent_refl)
  apply (rule post_bind, rule postI, rule post_if)
   apply (simp add: votes_sent_refl)
  apply (rule post_bind, rule post_weaken [OF signVote_post])
  apply (simp only: split_paired_all prod.case, elim exE conjE)
  apply (rule post_if)
   apply (unfold post_simps prod.case, erule votes_sent_keys)
  apply (rule post_bind, rule postI, unfold Let_def post_simps prod.case)
  apply (erule votes_sent_send)
     apply (simp_all split: option.split)
  done

lemma votes_sent_quiet:
  assumes "votes_sent cs t bid cs'"
    and "t = VoteTypePrecommit \<Longrightarrow> Hash bid \<noteq> [] \<Longrightarrow>
      \<exists>H. genuine W H \<and> hvs_height H = rs_Height cs \<and> has_maj H (to_int (rs_Round cs)) VoteTypePrevote bid"
  shows "quiet W cs cs'"
  using assms unfolding votes_sent_def quiet_def queue_ext_def by (fastforce simp: core_def vals_ok_def)

lemma signAddVote_quiet:
  assumes "ConsensusState_signAddVote W t h head k cs = Some (r, cs')"
    and "t = VoteTypePrecommit \<Longrightarrow> h \<noteq> [] \<Longrightarrow> \<exists>H. genuine W H \<and> hvs_height H = rs_Height cs \<and>
      has_maj H (to_int (rs_Round cs)) VoteTypePrevote \<lparr>Hash = h, PartsHeader = head\<rparr>"
  shows "quiet W cs cs'"
  using postD [OF signAddVote_sent assms(1)] assms(2) by (intro votes_sent_quiet) auto

lemma doPrevote_quiet: "post (ConsensusState_defaultDoPrevote W height rnd cs) (quiet W cs)"
  unfolding ConsensusState_defaultDoPrevote_def
  by (intro post_case_option post_get post_case_prod post_Let post_Some)
     (auto split: option.splits dest!: signAddVote_quiet)

lemma GetProposer_keeps:
  "ValidatorSet_GetProposer v = Some (p, v') \<Longrightarrow> Validators v' = Validators v \<and> committee_ok W v' = committee_ok W v"
  by (auto simp: committee_ok_def ValidatorSet_GetProposer_def split: if_splits option.splits elim!: bind_eq_SomeE)

lemma isProposer_quiet: "post (ConsensusState_isProposer W cs) (\<lambda>(_, cs'). quiet W cs cs')"
  unfolding ConsensusState_isProposer_def Let_def
  by (rule postI)
     (auto split: option.splits prod.splits elim!: bind_eq_SomeE dest!: GetProposer_keeps intro: quiet_set_validators)

lemma proposes_quiet: "post (proposes W cs) (\<lambda>(_, cs'). quiet W cs cs')"
  unfolding proposes_def by (intro post_case_option post_get post_if isProposer_quiet) simp_all

lemma createProposalBlock_quiet: "post (ConsensusState_createProposalBlock W rnd cs) (\<lambda>(_, cs'). quiet W cs cs')"
proof -
  obtain last cs0 where cs0: "GetLastBlockHeight cs = (last, cs0)" by fastforce
  have q: "quiet W cs (cs0\<lparr>cs_svs := s\<rparr>)" for s
    by (rule quiet_trans [OF quiet_GetLastBlockHeight [OF cs0] quietI]) (simp_all add: core_def)
  show ?thesis
    unfolding ConsensusState_createProposalBlock_def cs0 Let_def prod.case
    by (intro post_get, rule postI)
       (use q quiet_GetLastBlockHeight [OF cs0] in
         \<open>auto split: option.splits prod.splits if_splits list.splits elim!: bind_eq_SomeE\<close>)
qed

lemma quiet_send: "backed W (Msg m) \<Longrightarrow> quiet W cs (ConsensusState_sendInternalMessage m cs)"
  by (simp add: quiet_def core_def vals_ok_def queue_ext_def ConsensusState_sendInternalMessage_def)

lemma send_parts_quiet: "post (go_for (send_part ps) is cs) (quiet W cs)"
proof (rule post_go_for)
  fix i cs1
  assume "quiet W cs cs1"
  then show "post (send_part ps i cs1) (quiet W cs)"
    unfolding send_part_def by (intro post_get post_Some) (rule quiet_trans, assumption, rule quiet_send, simp)
qed simp

lemma decideProposal_quiet: "post (ConsensusState_defaultDecideProposal W height rnd blk parts cs) (quiet W cs)"
proof -
  let ?cs = "\<lambda>p. cs\<lparr>cs_clock := Suc (Suc (cs_clock cs)), cs_state := (cs_state cs)\<lparr>sa_Priv := p\<rparr>\<rparr>"
  have q: "quiet W cs (?cs p)" for p by (rule quietI) (simp_all add: core_def)
  have s: "quiet W cs (ConsensusState_sendInternalMessage \<lparr>Msg = ProposalMessage m, PeerID = []\<rparr> (?cs p))" for p m
    by (rule quiet_trans [OF q quiet_send]) simp
  show ?thesis
    unfolding ConsensusState_defaultDecideProposal_def time_Now_def
    apply (simp only: Let_def prod.case split del: if_split)
    apply (rule post_case_prod, rule post_if, simp)
    apply (intro post_get post_case_prod post_if)
     apply (use q in simp)
    apply (rule post_case_option)
     apply (use s in simp)
    apply (rule post_weaken [OF send_parts_quiet])
    apply (erule quiet_trans [rotated], use s in simp)
    done
qed

section \<open>Entering the steps of a round\<close>

definition good :: "'blk world \<Rightarrow> 'blk ConsensusState \<Rightarrow> 'blk ConsensusState \<Rightarrow> bool" where
  "good W cs cs' \<longleftrightarrow> cs_inv W cs' \<and> lext W cs cs'"

lemma good_refl: "cs_inv W cs \<Longrightarrow> good W cs cs"
  by (simp add: good_def)

lemma good_trans: "good W a b \<Longrightarrow> good W b c \<Longrightarrow> good W a c"
  unfolding good_def using lext_trans by blast

lemma quiet_good: "cs_inv W cs \<Longrightarrow> quiet W cs cs' \<Longrightarrow> good W cs cs'"
  by (simp add: good_def quiet_inv quiet_lext)

lemma good_quiet: "good W a b \<Longrightarrow> quiet W b c \<Longrightarrow> good W a c"
  by (rule good_trans, assumption, rule quiet_good) (simp_all add: good_def)

lemma good_hrs: "good W cs cs' \<Longrightarrow> rs_Height cs' = rs_Height cs \<and> rs_Round cs \<le> rs_Round cs'"
  by (auto simp: good_def lext_def ahead_def hrs_le_def)

lemma inv_round: "cs_inv W cs \<Longrightarrow> unat (rs_Round cs) \<le> max_round"
  by (auto simp: cs_inv_def round_ok_def)

lemma inv_to_int: "cs_inv W cs \<Longrightarrow> to_int (rs_Round cs) = int (unat (rs_Round cs))"
  by (rule to_int_round [OF inv_round])

lemma set_step_inv:
  assumes "cs_inv W cs" "step \<noteq> RoundStepNewHeight"
  shows "cs_inv W (cs\<lparr>rs_Step := step\<rparr>)"
  using assms by (auto simp: cs_inv_def round_ok_def vals_ok_def log_ok_def)

lemma advance_good:
  assumes inv: "cs_inv W cs" and "\<not> behind height rnd step cs" "rnd \<le> to_int (rs_Round cs)" "step \<noteq> RoundStepNewHeight"
  shows "good W cs (ConsensusState_newStep (ConsensusState_updateRoundStep rnd step cs))"
proof -
  have r: "rnd = to_int (rs_Round cs)" "rs_Step cs < step" using assms(2,3) by (auto simp: behind_def)
  let ?cs = "cs\<lparr>rs_Step := step\<rparr>"
  have eq: "ConsensusState_updateRoundStep rnd step cs = ?cs" by (simp add: ConsensusState_updateRoundStep_def r(1))
  have "good W cs ?cs"
    using set_step_inv [OF inv assms(4)] r(2) by (simp add: good_def lext_def ahead_def hrs_le_def queue_ext_def lock_keptI)
  moreover have "quiet W ?cs (ConsensusState_newStep ?cs)"
    by (rule quietI) (simp_all add: core_def ConsensusState_newStep_def)
  ultimately show ?thesis unfolding eq using good_trans quiet_good good_def by metis
qed

lemma advance_quiet:
  assumes inv: "cs_inv W cs" and q: "quiet W cs cs1"
    and "\<not> behind height rnd step cs" "rnd \<le> to_int (rs_Round cs)" "step \<noteq> RoundStepNewHeight"
  shows "good W cs (ConsensusState_newStep (ConsensusState_updateRoundStep rnd step cs1))"
proof -
  have "\<not> behind height rnd step cs1" "rnd \<le> to_int (rs_Round cs1)"
    using assms(3,4) quiet_hrs [OF q] by (simp_all add: behind_def)
  from advance_good [OF quiet_inv [OF q inv] this assms(5)] quiet_good [OF inv q] show ?thesis by (rule good_trans [rotated])
qed

lemma scheduleTimeout_quiet: "quiet W cs (ConsensusState_scheduleTimeout d h r s cs)"
  by (rule quietI) (simp_all add: core_def ConsensusState_scheduleTimeout_def)

lemma enterPrevote_good:
  assumes inv: "cs_inv W cs" and "rnd \<le> to_int (rs_Round cs)"
  shows "post (ConsensusState_enterPrevote W height rnd cs) (good W cs)"
  unfolding ConsensusState_enterPrevote_def Let_def
  by (intro post_if post_get post_call [OF doPrevote_quiet] post_Some)
     (use assms in \<open>auto intro: good_refl advance_quiet\<close>)

lemma enterPrevoteWait_good:
  assumes inv: "cs_inv W cs" and "rnd \<le> to_int (rs_Round cs)"
  shows "post (ConsensusState_enterPrevoteWait W height rnd cs) (good W cs)"
  unfolding ConsensusState_enterPrevoteWait_def Let_def
  by (intro post_if post_get post_check post_Some)
     (use assms in \<open>auto intro: good_refl advance_quiet scheduleTimeout_quiet\<close>)

lemma enterPrecommitWait_good:
  assumes inv: "cs_inv W cs" and "rnd \<le> to_int (rs_Round cs)"
  shows "post (ConsensusState_enterPrecommitWait W height rnd cs) (good W cs)"
  unfolding ConsensusState_enterPrecommitWait_def Let_def
  by (intro post_if post_get post_check post_Some)
     (use assms in \<open>auto intro: good_refl advance_quiet scheduleTimeout_quiet\<close>)

section \<open>Locking\<close>

definition still :: "'blk world \<Rightarrow> 'blk ConsensusState \<Rightarrow> 'blk ConsensusState \<Rightarrow> bool" where
  "still W cs cs' \<longleftrightarrow> good W cs cs' \<and> rs_Round cs' = rs_Round cs \<and> rs_Step cs' = rs_Step cs"

lemma still_quiet: "cs_inv W cs \<Longrightarrow> quiet W cs cs' \<Longrightarrow> still W cs cs'"
  by (simp add: still_def quiet_good quiet_hrs)

lemma still_trans: "still W a b \<Longrightarrow> still W b c \<Longrightarrow> still W a c"
  unfolding still_def using good_trans by metis

lemma still_inv: "still W a b \<Longrightarrow> cs_inv W b"
  by (simp add: still_def good_def)

lemma still_then_quiet: "still W a b \<Longrightarrow> quiet W b c \<Longrightarrow> still W a c"
  using still_trans still_quiet still_inv by metis

lemma stillI:
  assumes "cs_inv W cs'" "rs_Height cs' = rs_Height cs" "rs_Round cs' = rs_Round cs" "rs_Step cs' = rs_Step cs"
    "cs_committed cs' = cs_committed cs" "cs_internalMsgQueue cs' = cs_internalMsgQueue cs" "lock_kept W cs cs'"
  shows "still W cs cs'"
  using assms by (simp add: still_def good_def lext_def ahead_def hrs_le_def queue_ext_def)

lemma hashes_to_iff: "hashes_to W b h \<longleftrightarrow> (\<exists>x. b = Some x \<and> blk_Hash W x = h \<and> h \<noteq> [])"
  by (auto simp: hashes_to_def EqualHashes_def split: option.splits)

lemma polka_forI: "has_maj H (to_int r) VoteTypePrevote bid \<Longrightarrow> hashes_to W b (Hash bid) \<Longrightarrow> polka_for W H r b"
  by (auto simp: polka_for_def hashes_to_iff)

text \<open>A polka for something else, at a round from the lock to the current one, justifies a change of the lock.\<close>

lemma lock_kept_polka:
  assumes inv: "cs_inv W cs" and H: "rs_Votes cs = Some H" "has_maj H (to_int r) VoteTypePrevote bid"
    and r: "rs_LockedRound cs \<le> r" "r \<le> rs_Round cs" "rs_Round cs' = rs_Round cs"
    and b: "\<not> hashes_to W (rs_LockedBlock cs) (Hash bid)"
  shows "lock_kept W cs cs'"
  unfolding lock_kept_def
proof (intro allI impI disjI2)
  fix x
  assume x: "rs_LockedBlock cs = Some x"
  have "round_ok W cs H" using inv H(1) by (auto simp: cs_inv_def round_ok_def)
  then have "genuine W H" "hvs_height H = rs_Height cs" "blk_Hash W x \<noteq> []"
    and p: "\<exists>a. has_maj H (to_int (rs_LockedRound cs)) VoteTypePrevote a \<and> Hash a = blk_Hash W x"
    using x by (auto simp: round_ok_def polka_for_def)
  moreover from this(3) b x have n: "Hash bid \<noteq> blk_Hash W x" by (auto simp: hashes_to_iff)
  moreover have "rs_LockedRound cs \<noteq> r" using p n H(2) by (auto simp: has_maj_iff)
  ultimately show "\<exists>H r bid. genuine W H \<and> hvs_height H = rs_Height cs \<and> has_maj H (to_int r) VoteTypePrevote bid \<and>
      Hash bid \<noteq> blk_Hash W x \<and> rs_LockedRound cs < r \<and> r \<le> rs_Round cs'"
    using H(2) r by (intro exI [of _ H] exI [of _ r] exI [of _ bid]) simp
qed

lemma unlock_still:
  assumes inv: "cs_inv W cs" and "rs_Votes cs = Some H" "has_maj H (to_int r) VoteTypePrevote bid"
    "rs_LockedRound cs \<le> r" "r \<le> rs_Round cs" "\<not> hashes_to W (rs_LockedBlock cs) (Hash bid)"
  shows "still W cs (unlock cs)"
proof (rule stillI)
  show "lock_kept W cs (unlock cs)" by (rule lock_kept_polka [OF assms(1-5) _ assms(6)]) (simp add: unlock_def)
qed (use inv in \<open>auto simp: unlock_def cs_inv_def round_ok_def vals_ok_def log_ok_def polka_for_def\<close>)

lemma inv_locked: "cs_inv W cs \<Longrightarrow> rs_LockedRound cs \<le> rs_Round cs"
  by (auto simp: cs_inv_def round_ok_def)

lemma lock_still:
  assumes inv: "cs_inv W cs" and H: "rs_Votes cs = Some H" "has_maj H (to_int (rs_Round cs)) VoteTypePrevote bid"
    and b: "hashes_to W b (Hash bid)"
  shows "still W cs (cs\<lparr>rs_LockedRound := rs_Round cs, rs_LockedBlock := b, rs_LockedBlockParts := p, cs_proposalForCatchup := c\<rparr>)"
proof (rule stillI)
  let ?cs = "cs\<lparr>rs_LockedRound := rs_Round cs, rs_LockedBlock := b, rs_LockedBlockParts := p, cs_proposalForCatchup := c\<rparr>"
  show "lock_kept W cs ?cs"
  proof (cases "hashes_to W (rs_LockedBlock cs) (Hash bid)")
    case True
    then show ?thesis using b inv_locked [OF inv] by (auto simp: lock_kept_def hashes_to_iff)
  next
    case False
    then show ?thesis by (intro lock_kept_polka [OF inv H inv_locked [OF inv] order_refl]) simp_all
  qed
qed (use inv H(1) polka_forI [OF H(2) b] in \<open>auto simp: cs_inv_def round_ok_def vals_ok_def log_ok_def\<close>)

lemma update_valid_still:
  assumes "cs_inv W cs" "rs_Votes cs = Some H" "has_maj H (to_int r) VoteTypePrevote bid" "r \<le> rs_Round cs"
  shows "still W cs (update_valid W bid r cs)"
  unfolding update_valid_def
  by (rule stillI)
     (use assms(1,2,4) polka_forI [OF assms(3), of W "rs_ProposalBlock cs"] in \<open>auto simp: cs_inv_def round_ok_def vals_ok_def log_ok_def intro: lock_keptI\<close>)

lemma set_proposal_quiet: "quiet W cs (cs\<lparr>rs_Proposal := a, rs_ProposalBlock := b, rs_ProposalBlockParts := p\<rparr>)"
  by (rule quietI) (simp_all add: core_def)

lemma set_block_quiet: "quiet W cs (cs\<lparr>rs_ProposalBlock := b, rs_ProposalBlockParts := p\<rparr>)"
  by (rule quietI) (simp_all add: core_def)

lemma precommit_nil_quiet: "post (precommit_nil W cs) (quiet W cs)"
  unfolding precommit_nil_def by (intro post_get post_case_prod post_Some) (auto dest!: signAddVote_quiet)

lemma precommit_nil_still: "still W cs cs1 \<Longrightarrow> post (precommit_nil W cs1) (still W cs)"
  by (rule post_weaken [OF precommit_nil_quiet]) (rule still_then_quiet)

text \<open>The vote for the block of a polka of the current round.\<close>

lemma precommit_block_still:
  assumes "still W cs cs1" "rs_Votes cs1 = Some H" "has_maj H (to_int (rs_Round cs)) VoteTypePrevote bid"
    "ConsensusState_signAddVote W VoteTypePrecommit (Hash bid) (PartsHeader bid) k cs1 = Some (r, cs')"
  shows "still W cs cs'"
proof -
  have H: "genuine W H" "hvs_height H = rs_Height cs1" "rs_Round cs1 = rs_Round cs"
    using still_inv [OF assms(1)] assms(1,2) by (auto simp: cs_inv_def round_ok_def still_def)
  have bid: "\<lparr>Hash = Hash bid, PartsHeader = PartsHeader bid\<rparr> = bid" by (rule BlockID.equality) simp_all
  have "quiet W cs1 cs'"
    by (rule signAddVote_quiet [OF assms(4)]) (use H assms(3) in \<open>auto simp: bid intro!: exI [of _ H]\<close>)
  with assms(1) show ?thesis by (rule still_then_quiet)
qed

lemma precommit_locked_still:
  assumes inv: "cs_inv W cs" and H: "rs_Votes cs = Some H" "has_maj H (to_int (rs_Round cs)) VoteTypePrevote bid"
    and b: "hashes_to W (rs_LockedBlock cs) (Hash bid)"
  shows "post (precommit_locked W (to_int (rs_Round cs)) bid cs) (still W cs)"
proof -
  let ?cs = "cs\<lparr>rs_LockedRound := rs_Round cs\<rparr>"
  have "still W cs ?cs" using lock_still [OF inv H b, of "cs_proposalForCatchup cs" "rs_LockedBlockParts cs"] by simp
  then show ?thesis
    unfolding precommit_locked_def Let_def to_uint_to_int
    by (intro post_get post_case_prod post_case_option post_Some)
       (auto intro: precommit_nil_still precommit_block_still [OF _ _ H(2)] simp: H)
qed

lemma precommit_proposal_still:
  assumes inv: "cs_inv W cs" and H: "rs_Votes cs = Some H" "has_maj H (to_int (rs_Round cs)) VoteTypePrevote bid"
    and b: "hashes_to W (rs_ProposalBlock cs) (Hash bid)"
  shows "post (precommit_proposal W (to_int (rs_Round cs)) bid cs) (still W cs)"
proof -
  let ?lock = "\<lambda>k. if kResult k = VoteAgree
      then cs\<lparr>rs_LockedRound := rs_Round cs, rs_LockedBlock := rs_ProposalBlock cs,
              rs_LockedBlockParts := rs_ProposalBlockParts cs, cs_proposalForCatchup := rs_Proposal cs\<rparr> else cs"
  have "still W cs cs" using inv by (rule still_quiet) simp
  moreover have "still W cs (?lock k)" for k using lock_still [OF inv H b] \<open>still W cs cs\<close> by simp
  moreover have "rs_Votes (?lock k) = Some H" for k using H by simp
  ultimately show ?thesis
    unfolding precommit_proposal_def Let_def to_uint_to_int
    by (intro post_get post_case_prod post_case_option post_Some)
       (auto intro: precommit_nil_still precommit_block_still [OF _ _ H(2)] simp del: if_split)
qed

lemma precommit_unknown_still:
  assumes inv: "cs_inv W cs" and u: "still W cs (unlock cs)"
  shows "post (precommit_unknown W bid cs) (still W cs)"
  unfolding precommit_unknown_def Let_def
  by (rule precommit_nil_still) (auto intro: u still_then_quiet [OF u set_block_quiet])

lemma precommit_vote_still:
  assumes inv: "cs_inv W cs" and rnd: "rnd = to_int (rs_Round cs)"
  shows "post (precommit_vote W rnd cs) (still W cs)"
  unfolding precommit_vote_def
proof (intro post_get post_Let post_case_prod post_if post_check)
  fix H y bid ok
  assume H: "rs_Votes cs = Some H"
    and maj: "y = VoteSet_TwoThirdsMajority (HeightVoteSet_Prevotes H rnd)" "y = (bid, ok)"
  have refl: "still W cs cs" using inv by (rule still_quiet) simp
  show "post (precommit_nil W cs) (still W cs)" by (rule precommit_nil_still [OF refl])
  assume "\<not> \<not> ok"
  then have m: "has_maj H (to_int (rs_Round cs)) VoteTypePrevote bid"
    using maj rnd by (simp add: has_maj_def HeightVoteSet_Prevotes_def)
  note u = unlock_still [OF inv H m inv_locked [OF inv] order_refl]
  show "post (precommit_nil W (if rs_LockedBlock cs = None then cs else unlock cs)) (still W cs)" if "length (Hash bid) = 0"
    by (rule precommit_nil_still) (use that u in \<open>simp add: refl hashes_to_iff\<close>)
  show "post (precommit_unknown W bid cs) (still W cs)" if "\<not> hashes_to W (rs_LockedBlock cs) (Hash bid)"
    by (rule precommit_unknown_still [OF inv u [OF that]])
  show "post (precommit_locked W rnd bid cs) (still W cs)" if "hashes_to W (rs_LockedBlock cs) (Hash bid)"
    unfolding rnd by (rule precommit_locked_still [OF inv H m that])
  show "post (precommit_proposal W rnd bid cs) (still W cs)" if "hashes_to W (rs_ProposalBlock cs) (Hash bid)"
    unfolding rnd by (rule precommit_proposal_still [OF inv H m that])
qed

lemma enterPrecommit_good:
  assumes inv: "cs_inv W cs" and rnd: "rnd \<le> to_int (rs_Round cs)"
  shows "post (ConsensusState_enterPrecommit W height rnd cs) (good W cs)"
proof (cases "behind height rnd RoundStepPrecommit cs")
  case True
  then show ?thesis using inv by (simp add: ConsensusState_enterPrecommit_def good_refl)
next
  case False
  then have eq: "rnd = to_int (rs_Round cs)" using rnd by (auto simp: behind_def)
  have "good W cs (ConsensusState_newStep (ConsensusState_updateRoundStep rnd RoundStepPrecommit cs1))" if "still W cs cs1" for cs1
  proof -
    have s: "cs_inv W cs1" "rs_Height cs1 = rs_Height cs" "rs_Round cs1 = rs_Round cs" "rs_Step cs1 = rs_Step cs" "good W cs cs1"
      using that good_hrs [of W cs cs1] by (auto simp: still_def good_def)
    have "good W cs1 (ConsensusState_newStep (ConsensusState_updateRoundStep rnd RoundStepPrecommit cs1))"
      by (rule advance_good [OF s(1), of height]) (use False rnd s in \<open>simp_all add: behind_def\<close>)
    with s(5) show ?thesis by (rule good_trans)
  qed
  then show ?thesis
    using False unfolding ConsensusState_enterPrecommit_def Let_def
    by (simp del: split_paired_All) (rule post_call [OF precommit_vote_still [OF inv eq]], simp)
qed

section \<open>Proposing\<close>

lemma propose_done_good:
  assumes inv: "cs_inv W cs" and q: "quiet W cs cs1"
    and b: "\<not> behind height rnd RoundStepPropose cs" and rnd: "rnd \<le> to_int (rs_Round cs)"
  shows "post (propose_done W height rnd cs1) (good W cs)"
proof -
  let ?cs = "ConsensusState_newStep (ConsensusState_updateRoundStep rnd RoundStepPropose cs1)"
  have g: "good W cs ?cs" by (rule advance_quiet [OF inv q b rnd]) simp
  then have "post (ConsensusState_enterPrevote W height (to_int (rs_Round ?cs)) ?cs) (good W ?cs)"
    by (intro enterPrevote_good) (simp_all add: good_def)
  then have "post (ConsensusState_enterPrevote W height (to_int (rs_Round ?cs)) ?cs) (good W cs)"
    by (rule post_weaken) (rule good_trans [OF g])
  then show ?thesis unfolding propose_done_def Let_def by (intro post_get post_if post_Some g)
qed

lemma enterPropose_good:
  assumes inv: "cs_inv W cs" and q: "quiet W cs cs1" and rnd: "rnd \<le> to_int (rs_Round cs)"
  shows "post (ConsensusState_enterPropose W height rnd blk parts cs1) (good W cs)"
proof (cases "behind height rnd RoundStepPropose cs1")
  case True
  then show ?thesis using quiet_good [OF inv q] by (simp add: ConsensusState_enterPropose_def)
next
  case False
  let ?cs = "ConsensusState_scheduleTimeout (cfg_Propose (w_config W) rnd) height rnd RoundStepPropose cs1"
  have b: "\<not> behind height rnd RoundStepPropose cs" using False quiet_hrs [OF q] by (simp add: behind_def)
  have decide: "post (if p then ConsensusState_defaultDecideProposal W height rnd blk parts cs2 else Some cs2) (quiet W cs)"
    if "quiet W ?cs cs2" for p cs2
  proof -
    have "quiet W cs cs2" using q scheduleTimeout_quiet that quiet_trans by metis
    then show ?thesis
      by (intro post_if post_Some post_weaken [OF decideProposal_quiet]) (auto intro: quiet_trans)
  qed
  have "post (ConsensusState_isProposer W ?cs \<bind> (\<lambda>(p, cs2).
      (if p then ConsensusState_defaultDecideProposal W height rnd blk parts cs2 else Some cs2) \<bind> propose_done W height rnd)) (good W cs)"
    by (rule post_call2 [OF isProposer_quiet], rule post_call [OF decide], assumption, rule propose_done_good [OF inv _ b rnd])
  then show ?thesis using False by (simp add: ConsensusState_enterPropose_def Let_def)
qed

lemma tryEnterProposal_good:
  assumes inv: "cs_inv W cs" and rnd: "rnd \<le> to_int (rs_Round cs)"
  shows "post (ConsensusState_tryEnterProposal W height rnd wait cs) (good W cs)"
proof (cases "behind height rnd RoundStepPropose cs")
  case True
  then show ?thesis using good_refl [OF inv] by (simp add: ConsensusState_tryEnterProposal_def)
next
  case False
  have create: "post (if doing then do {
             ((block, blockParts, err), cs) \<leftarrow> ConsensusState_createProposalBlock W rnd cs1;
             Some (case block of
                     Some b \<Rightarrow> if err = NoError \<and> height = NumberU64 (cs_agent cs) b then ((block, blockParts), cs) else ((None, None), cs)
                   | None \<Rightarrow> ((None, None), cs))
           }
           else Some ((None, None), cs1)) (\<lambda>((block, parts), cs2). quiet W cs cs2)" if "quiet W cs cs1" for doing cs1
    apply (rule post_if)
     apply (rule post_call2 [OF createProposalBlock_quiet])
     apply (simp only: split_paired_all prod.case)
     apply (drule quiet_trans [OF that])
     apply (simp split: option.splits)
    apply (simp add: that)
    done
  have rest: "post (case block of
          None \<Rightarrow> propose_done W height rnd
            (ConsensusState_scheduleTimeout (cfg_Propose (w_config W) rnd) height rnd RoundStepPropose cs2)
        | Some b \<Rightarrow>
            if blk_Transactions W b = 0 \<and> cfg_CreateEmptyBlocks (w_config W) \<and> rnd = 0 \<and>
               cfg_WaitForEmptyBlocks (w_config W) (to_int wait) \<and> \<not> blk_IsProposal W b
            then Some (ConsensusState_scheduleTimeoutWithWait
              \<lparr>ti_Duration = cfg_EmptyBlocksIntervalForPer (w_config W) (to_int wait), ti_Height = height, ti_Round = to_uint rnd,
               ti_Step = RoundStepNewRound, ti_Wait = wait + 1\<rparr> cs2)
            else ConsensusState_enterPropose W height rnd block blockParts cs2) (good W cs)"
    if "quiet W cs cs2" for block blockParts cs2
  proof (intro post_case_option post_if post_Some)
    show "post (propose_done W height rnd
        (ConsensusState_scheduleTimeout (cfg_Propose (w_config W) rnd) height rnd RoundStepPropose cs2)) (good W cs)"
      by (rule propose_done_good [OF inv quiet_trans [OF that scheduleTimeout_quiet] False rnd])
    show "post (ConsensusState_enterPropose W height rnd block blockParts cs2) (good W cs)"
      by (rule enterPropose_good [OF inv that rnd])
    show "good W cs (ConsensusState_scheduleTimeoutWithWait ti cs2)" for ti
      by (rule quiet_good [OF inv quiet_trans [OF that quietI]])
         (simp_all add: core_def ConsensusState_scheduleTimeoutWithWait_def)
  qed
  show ?thesis
    using False unfolding ConsensusState_tryEnterProposal_def
    apply (simp only: if_False)
    apply (rule post_call2 [OF proposes_quiet])
    apply (rule post_call [OF create], assumption)
    apply (simp only: split_paired_all prod.case)
    apply (rule rest, assumption)
    done
qed

section \<open>New rounds\<close>

lemma has_maj_le:
  "hvs_roundVoteSets H \<subseteq>\<^sub>m hvs_roundVoteSets K \<Longrightarrow> has_maj H r t b \<Longrightarrow> has_maj K r t b"
  using getVoteSet_map_le unfolding has_maj_iff by blast

lemma polka_for_mono: "(\<And>r b. has_maj H r VoteTypePrevote b \<Longrightarrow> has_maj K r VoteTypePrevote b) \<Longrightarrow> polka_for W H r b \<Longrightarrow> polka_for W K r b"
  unfolding polka_for_def by blast

text \<open>The votes move to a table that forgets no majority, the round to a later one.\<close>

lemma round_ok_move:
  assumes ok: "round_ok W cs H" and K: "hvs_inv (w_env W) K" "hvs_frame H K" "\<And>r t b. has_maj H r t b \<Longrightarrow> has_maj K r t b"
    and r: "unat r \<le> max_round" "rs_Round cs \<le> r" "hvs_round K \<le> int (unat r) + 1" and s: "step \<noteq> RoundStepNewHeight"
  shows "round_ok W (cs\<lparr>rs_Votes := Some K, rs_Round := r, rs_Step := step\<rparr>) K"
  using ok K(1,2) r s polka_for_mono [OF K(3)]
  unfolding round_ok_def hvs_frame_def genuine_def by (auto intro: order_trans K(3))

lemma SetRound_ok:
  assumes ok: "round_ok W cs H" and r: "to_int (rs_Round cs) \<le> rnd" "rnd \<le> int max_round"
    "to_int (rs_Round cs) = rnd \<longrightarrow> rs_Step cs = RoundStepNewHeight"
    and K: "HeightVoteSet_SetRound (wrap64 (rnd + 1)) H = Some K"
  shows "round_ok W (cs\<lparr>rs_Votes := Some K, rs_Round := to_uint rnd, rs_Step := RoundStepNewRound\<rparr>) K"
proof -
  have i: "hvs_inv (w_env W) H" "unat (rs_Round cs) \<le> max_round" using ok by (auto simp: round_ok_def genuine_def)
  have "to_int (rs_Round cs) = int (unat (rs_Round cs))" by (rule to_int_round [OF i(2)])
  then have nn: "0 \<le> rnd" "to_int (rs_Round cs) = int (unat (rs_Round cs))"
    using r(1) of_nat_0_le_iff [of "unat (rs_Round cs)"] by presburger+
  have w: "wrap64 (rnd + 1) = rnd + 1" by (rule wrap64_id) (use nn r(2) in \<open>simp add: int64_def\<close>)
  have b: "0 \<le> rnd + 1" "rnd + 1 < 2 ^ 63 - 1" using nn(1) r(2) by simp_all
  have "hvs_round H \<le> to_int (rs_Round cs) + 1" "rs_Step cs = RoundStepNewHeight \<longrightarrow> hvs_round H = 0"
    using ok unfolding nn(2) by (simp_all add: round_ok_def)
  then have "hvs_round H = 0 \<or> hvs_round H < rnd + 1" using r(1,3) by linarith
  from HeightVoteSet_SetRound_cases(2) [OF i(1) b this] obtain m where
    m: "HeightVoteSet_SetRound (rnd + 1) H = Some (H\<lparr>hvs_roundVoteSets := m, hvs_round := rnd + 1\<rparr>)"
      "hvs_roundVoteSets H \<subseteq>\<^sub>m m" "hvs_inv (w_env W) (H\<lparr>hvs_roundVoteSets := m, hvs_round := rnd + 1\<rparr>)" by blast
  have "K = H\<lparr>hvs_roundVoteSets := m, hvs_round := rnd + 1\<rparr>" using K m(1) unfolding w by simp
  note m = this m(2) m(3) [folded this]
  have u: "unat (to_uint rnd) = nat rnd" by (rule to_uint_round [OF nn(1) r(2)])
  show ?thesis
  proof (rule round_ok_move [OF ok m(3)])
    show "hvs_frame H K" using m(1) by (simp add: hvs_frame_def)
    show "has_maj K r t b" if "has_maj H r t b" for r t b by (rule has_maj_le [OF _ that]) (use m in simp)
    show "unat (to_uint rnd) \<le> max_round" unfolding u using r(2) nn(1) by (simp add: nat_le_iff)
    show "rs_Round cs \<le> to_uint rnd" unfolding word_le_nat_alt u using nat_mono [OF r(1) [unfolded nn(2)]] by (simp only: nat_int)
    show "hvs_round K \<le> int (unat (to_uint rnd)) + 1" unfolding u using m(1) nn(1) by simp
  qed simp
qed

text \<open>The state in which \<open>enterNewRound\<close> calls \<open>tryEnterProposal\<close>.\<close>

lemma new_round_good:
  assumes inv: "cs_inv W cs" and r: "to_int (rs_Round cs) \<le> rnd" "rnd \<le> int max_round"
    "to_int (rs_Round cs) = rnd \<longrightarrow> rs_Step cs = RoundStepNewHeight"
    and H: "rs_Votes cs = Some H" "HeightVoteSet_SetRound (wrap64 (rnd + 1)) H = Some K"
    and v: "\<not> shared \<or> shared = cs_shared cs \<and> vals = rs_Validators cs"
  shows "good W cs (cs\<lparr>rs_Round := to_uint rnd, rs_Step := RoundStepNewRound, rs_Validators := vals, cs_shared := shared, rs_Votes := Some K\<rparr>)"
proof -
  have "round_ok W (cs\<lparr>rs_Votes := Some K, rs_Round := to_uint rnd, rs_Step := RoundStepNewRound\<rparr>) K"
    by (rule SetRound_ok [OF _ r H(2)]) (use inv H(1) in \<open>auto simp: cs_inv_def round_ok_def\<close>)
  then have "cs_inv W (cs\<lparr>rs_Round := to_uint rnd, rs_Step := RoundStepNewRound, rs_Validators := vals, cs_shared := shared, rs_Votes := Some K\<rparr>)"
    using inv v by (auto simp: cs_inv_def round_ok_def vals_ok_def log_ok_def)
  moreover have "rs_Round cs < to_uint rnd \<or> rs_Round cs = to_uint rnd \<and> rs_Step cs = RoundStepNewHeight"
  proof (cases "to_int (rs_Round cs) = rnd")
    case True
    then show ?thesis using r(3) by auto
  next
    case False
    have nn: "to_int (rs_Round cs) = int (unat (rs_Round cs))" by (rule inv_to_int [OF inv])
    have "int (unat (rs_Round cs)) < rnd" using False r(1) nn by simp
    moreover from this have "0 \<le> rnd" using of_nat_0_le_iff [of "unat (rs_Round cs)"] by linarith
    ultimately show ?thesis
      unfolding word_less_nat_alt using to_uint_round [of rnd] r(2) by (simp add: zless_nat_eq_int_zless)
  qed
  ultimately show ?thesis by (auto simp: good_def lext_def ahead_def hrs_le_def queue_ext_def intro: lock_keptI)
qed

definition entered :: "u64 \<Rightarrow> int \<Rightarrow> 'blk ConsensusState \<Rightarrow> bool" where
  "entered height rnd cs \<longleftrightarrow> (rs_Height cs = height \<longrightarrow> rnd \<le> to_int (rs_Round cs))"

lemma good_entered:
  assumes "good W cs cs'" "cs_inv W cs" "entered height rnd cs"
  shows "entered height rnd cs'"
proof -
  have "rs_Round cs \<le> rs_Round cs'" "rs_Height cs' = rs_Height cs" "cs_inv W cs'"
    using good_hrs [OF assms(1)] assms(1) by (auto simp: good_def)
  then show ?thesis
    using assms(3) to_int_le [OF inv_round [OF assms(2)] inv_round, of W cs'] by (auto simp: entered_def)
qed

lemma vals_ok_Votes: "vals_ok W (a\<lparr>rs_Votes := K\<rparr>) = vals_ok W a"
  by (simp add: vals_ok_def)

lemma core_Votes: "core b = core a \<Longrightarrow> core (b\<lparr>rs_Votes := K\<rparr>) = core (a\<lparr>rs_Votes := K\<rparr>)"
  by (simp add: core_def)

lemma queue_ext_Votes: "queue_ext W (a\<lparr>rs_Votes := K\<rparr>) (b\<lparr>rs_Votes := K\<rparr>) = queue_ext W a b"
  by (simp add: queue_ext_def)

lemma quiet_set_Votes: "quiet W a b \<Longrightarrow> quiet W (a\<lparr>rs_Votes := K\<rparr>) (b\<lparr>rs_Votes := K\<rparr>)"
  unfolding quiet_def vals_ok_Votes queue_ext_Votes by (elim conjE) (intro conjI core_Votes)

lemma quiet_Votes: "quiet W a b \<Longrightarrow> rs_Votes b = rs_Votes a"
  by (simp add: quiet_def core_def)

lemma first_round_quiet:
  "post (if rnd = 0 then do {
      vals \<leftarrow> rs_Validators cs;
      Some (set_validators (ValidatorSet_FindValidatorSetProposer f (g cs) vals) cs)
    }
    else Some (cs\<lparr>rs_Proposal := None, rs_ProposalBlock := None, rs_ProposalBlockParts := None\<rparr>)) (quiet W cs)"
  by (intro post_if post_get post_Some set_proposal_quiet quiet_set_validators)
     (auto simp: ValidatorSet_FindValidatorSetProposer_def committee_ok_def split: option.splits)

lemma enterNewRound_good:
  assumes inv: "cs_inv W cs" and rnd: "rnd \<le> int max_round"
  shows "post (ConsensusState_enterNewRound W height rnd cs) (\<lambda>cs'. good W cs cs' \<and> entered height rnd cs')"
proof (cases "rs_Height cs \<noteq> height \<or> rnd < to_int (rs_Round cs) \<or> (to_int (rs_Round cs) = rnd \<and> rs_Step cs \<noteq> RoundStepNewHeight)")
  case True
  then show ?thesis using good_refl [OF inv] by (auto simp: ConsensusState_enterNewRound_def entered_def)
next
  case False
  then have r: "to_int (rs_Round cs) \<le> rnd" "to_int (rs_Round cs) = rnd \<longrightarrow> rs_Step cs = RoundStepNewHeight" by auto
  have nn: "0 \<le> rnd" using r(1) inv_to_int [OF inv] of_nat_0_le_iff [of "unat (rs_Round cs)"] by presburger
  let ?cs = "\<lambda>vals shared K. cs\<lparr>rs_Round := to_uint rnd, rs_Step := RoundStepNewRound, rs_Validators := vals, cs_shared := shared,
    rs_Votes := K\<rparr>"
  have go: "post (ConsensusState_tryEnterProposal W height rnd 1 cs2) (\<lambda>cs'. good W cs cs' \<and> entered height rnd cs')"
    if "\<not> shared \<or> shared = cs_shared cs \<and> vals = rs_Validators cs"
      "rs_Votes cs = Some H" "HeightVoteSet_SetRound (wrap64 (rnd + 1)) H = Some K" "quiet W (?cs vals shared (Some K)) cs2" for vals shared H K cs2
  proof -
    have g: "good W cs (?cs vals shared (Some K))" by (rule new_round_good [OF inv r(1) rnd r(2) that(2,3,1)])
    then have g2: "good W cs cs2" using that(4) by (rule good_quiet)
    have e: "entered height rnd cs2" "rnd \<le> to_int (rs_Round cs2)"
      using quiet_hrs [OF that(4)] to_int_to_uint_round [OF nn rnd] by (auto simp: entered_def)
    have inv2: "cs_inv W cs2" using g2 by (simp add: good_def)
    show ?thesis
      by (rule post_weaken [OF tryEnterProposal_good [OF inv2 e(2)]])
        (use good_trans [OF g2] good_entered [OF _ inv2 e(1)] in auto)
  qed
  show ?thesis
    unfolding ConsensusState_enterNewRound_def if_not_P [OF False]
    apply (rule post_call2 [where P = "\<lambda>vals shared. \<not> shared \<or> shared = cs_shared cs \<and> vals = rs_Validators cs"])
     apply (intro post_if post_get post_Some; simp)
    apply (unfold Let_def ConsensusState_updateRoundStep_def)
    apply (rule post_call [OF first_round_quiet])
    apply (rule post_get, rule post_get)
    apply (rule go, assumption)
      apply (frule quiet_Votes, simp)
     apply assumption
    apply (drule quiet_set_Votes, simp)
    done
qed

end
