(* ===== verification/Consensus_Handlers.thy ===== *)
theory Consensus_Handlers
  imports Consensus_Invariant
begin

text \<open>
  The handlers that commit blocks, move to another height or process messages keep the
  invariant of the consensus state, and with them every turn of the receive routine.
\<close>

section \<open>Moving to the next height\<close>

lemma start_time_clock: "start_time W cs = (t, cs') \<Longrightarrow> \<exists>c. cs' = cs\<lparr>cs_clock := c\<rparr>"
  unfolding start_time_def time_Now_def Let_def
  by (auto split: option.splits if_splits prod.splits intro: exI [of _ "cs_clock cs"])

definition restarted :: "'blk ConsensusState \<Rightarrow> 'blk ConsensusState \<Rightarrow> bool" where
  "restarted cs cs' \<longleftrightarrow> rs_Round cs' = 0 \<and> rs_Step cs' = RoundStepNewHeight \<and>
     rs_Height cs' = of_nat (GetCurrentHeight (cs_agent cs)) + 1 \<and>
     cs_committed cs' = cs_committed cs \<and> cs_internalMsgQueue cs' = cs_internalMsgQueue cs \<and> cs_blockStore cs' = cs_blockStore cs"

lemma new_height_inv:
  assumes "NewHeightVoteSet (sa_ChainID (cs_state cs)) (rs_Height cs) v = Some H" "committee_ok W v"
    and "rs_Votes cs = Some H" "rs_Round cs = 0" "rs_LockedRound cs = 0" "rs_LockedBlock cs = None"
    "rs_ValidRound cs = 0" "rs_ValidBlock cs = None" "rs_CommitRound cs = - 1" "vals_ok W cs" "log_ok W cs"
  shows "cs_inv W cs"
proof -
  have "rs_Height cs \<noteq> 0"
    using assms(1) by (auto simp: NewHeightVoteSet_def HeightVoteSet_Reset_def HeightVoteSet_addRound_def NewVoteSet_def)
  from NewHeightVoteSet_inv [OF _ this, of v "sa_ChainID (cs_state cs)" "w_env W"] assms
  have "round_ok W cs H" by (auto simp: round_ok_def polka_for_def genuine_def committee_ok_def)
  then show ?thesis using assms by (auto simp: cs_inv_def)
qed

lemma updateToState_inv:
  assumes "\<And>v. sa_Validators (cs_state cs) = Some v \<Longrightarrow> committee_ok W v" and log: "log_ok W cs"
  shows "post (ConsensusState_updateToState W cs) (\<lambda>cs'. cs_inv W cs' \<and> restarted cs cs')"
  unfolding ConsensusState_updateToState_def GetLastBlockHeight_def StateAgentImpl_GetLastBlockHeight_def Let_def prod.case
    ConsensusState_updateHeight_def ConsensusState_updateRoundStep_def
proof (rule post_get, rule post_case_prod, rule post_get, rule post_get, rule post_Some)
  let ?cs = "cs\<lparr>cs_state := (cs_state cs)\<lparr>sa_LastHeight := of_nat (GetCurrentHeight (cs_agent cs))\<rparr>,
    rs_Height := sa_LastHeight ((cs_state cs)\<lparr>sa_LastHeight := of_nat (GetCurrentHeight (cs_agent cs))\<rparr>) + 1,
    rs_Round := to_uint 0, rs_Step := RoundStepNewHeight\<rparr>"
  fix last t cs1 v H
  assume t: "start_time W ?cs = (t, cs1)"
    and v: "StateAgentImpl_GetValidator (cs_state (cs\<lparr>cs_state := (cs_state cs)\<lparr>sa_LastHeight := of_nat (GetCurrentHeight (cs_agent cs))\<rparr>\<rparr>)) = Some v"
    and H: "NewHeightVoteSet (StateAgentImpl_GetChainID (cs_state cs1))
      (sa_LastHeight ((cs_state cs)\<lparr>sa_LastHeight := of_nat (GetCurrentHeight (cs_agent cs))\<rparr>) + 1) v = Some H"
  obtain c where c: "cs1 = ?cs\<lparr>cs_clock := c\<rparr>" using start_time_clock [OF t] by blast
  have p: "committee_ok W v" using assms(1) v by (simp add: StateAgentImpl_GetValidator_def)
  have z: "to_uint 0 = 0" by (simp add: to_uint_def)
  let ?fin = "ConsensusState_newStep (cs1\<lparr>rs_StartTime := t,
       rs_Validators := StateAgentImpl_GetValidator (cs_state (cs\<lparr>cs_state := (cs_state cs)\<lparr>sa_LastHeight := of_nat (GetCurrentHeight (cs_agent cs))\<rparr>\<rparr>)),
       cs_shared := True, cs_proposalForCatchup := None,
       rs_Proposal := None, rs_ProposalBlock := None, rs_ProposalBlockParts := None,
       rs_LockedRound := 0, rs_LockedBlock := None, rs_LockedBlockParts := None,
       rs_ValidRound := 0, rs_ValidBlock := None, rs_ValidBlockParts := None,
       rs_Votes := Some H, rs_CommitRound := - 1, rs_LastCommit := last\<rparr>)"
  show "cs_inv W ?fin \<and> restarted cs ?fin"
  proof (rule conjI, rule new_height_inv [OF _ p])
  qed (use H v log assms(1) p in \<open>auto simp: c z ConsensusState_newStep_def StateAgentImpl_GetChainID_def
        StateAgentImpl_GetValidator_def vals_ok_def log_ok_def restarted_def\<close>)
qed

section \<open>Committing a block\<close>

definition ggood :: "'blk world \<Rightarrow> 'blk ConsensusState \<Rightarrow> 'blk ConsensusState \<Rightarrow> bool" where
  "ggood W cs cs' \<longleftrightarrow> cs_inv W cs' \<and> gext W cs cs'"

lemma good_ggood: "good W cs cs' \<Longrightarrow> ggood W cs cs'"
  by (simp add: good_def ggood_def lext_gext)

lemma ggood_refl: "cs_inv W cs \<Longrightarrow> ggood W cs cs"
  by (simp add: ggood_def)

lemma ggood_trans: "ggood W a b \<Longrightarrow> ggood W b c \<Longrightarrow> ggood W a c"
  unfolding ggood_def using gext_trans by blast

lemma quiet_svs: "quiet W cs (cs\<lparr>cs_svs := s\<rparr>)" and quiet_chanFrom: "quiet W cs (cs\<lparr>cs_chanFrom := c\<rparr>)"
  and quiet_EndHeight: "quiet W cs (cs\<lparr>cs_state := StateAgentImpl_SetEndHeight h (cs_state cs)\<rparr>)"
  by (rule quietI; simp add: core_def StateAgentImpl_SetEndHeight_def)+

lemma pickSwitchValidator_quiet:
  "ConsensusState_pickSwitchValidator sv i cs = Some (v, cs') \<Longrightarrow> quiet W cs cs'"
  unfolding ConsensusState_pickSwitchValidator_def
  by (auto split: list.splits if_splits elim!: bind_eq_SomeE intro: quiet_svs)

lemma pick_notify_quiet:
  assumes "quiet W cs cs1"
  shows "post (ConsensusState_pickSwitchValidator sv i cs1 \<bind> (\<lambda>(v, cs2). Some (ConsensusState_notifyHealthMgr (f v) cs2))) (quiet W cs)"
proof (rule post_get, simp only: split_paired_all prod.case post_simps)
  fix v cs2
  assume "ConsensusState_pickSwitchValidator sv i cs1 = Some (v, cs2)"
  from pickSwitchValidator_quiet [OF this] have "quiet W cs cs2" by (rule quiet_trans [OF assms])
  then show "quiet W cs (ConsensusState_notifyHealthMgr (f v) cs2)"
    unfolding ConsensusState_notifyHealthMgr_def by (rule quiet_trans [OF _ quiet_chanFrom])
qed

lemma swithResult_quiet: "post (ConsensusState_swithResult W block cs) (quiet W cs)"
proof -
  obtain last cs0 where cs0: "GetLastBlockHeight cs = (last, cs0)" by fastforce
  have q: "quiet W cs cs0" by (rule quiet_GetLastBlockHeight [OF cs0])
  have e: "quiet W cs (cs0\<lparr>cs_state := StateAgentImpl_SetEndHeight h (cs_state cs0)\<rparr>)" for h
    by (rule quiet_trans [OF q quiet_EndHeight])
  show ?thesis
    unfolding ConsensusState_swithResult_def cs0 Let_def prod.case
    apply (rule post_get, rule post_if)
     apply (simp add: q)
    apply (split list.split, intro conjI impI allI)
     apply (simp add: q)
    apply (split list.split, intro conjI impI allI)
     apply (simp add: q)
    apply (rule post_get, rule post_case_prod, rule post_if)
     apply (simp add: e)
    apply (rule pick_notify_quiet [where f = "\<lambda>v. v", OF e])
    done
qed

lemma written_hash:
  assumes "world_ok W"
  shows "map_option (blk_Hash W) (written b (blk_SetSign W sigs b) x) = map_option (blk_Hash W) x"
  using assms by (simp add: written_def world_ok_def)

lemma polka_for_hash: "map_option (blk_Hash W) a = map_option (blk_Hash W) b \<Longrightarrow> polka_for W H r a = polka_for W H r b"
  unfolding polka_for_def by (cases a; cases b) auto

lemma sign_block_inv:
  assumes "world_ok W" "cs_inv W cs"
  shows "cs_inv W (sign_block W sigs block cs)"
  using assms(2) polka_for_hash [OF written_hash [OF assms(1)]]
  by (simp add: cs_inv_def round_ok_def vals_ok_def log_ok_def sign_block_def Let_def)

lemma handed_inv:
  assumes "cs_inv W cs" "committed_ok W (sa_ChainID (cs_state cs)) block"
  shows "cs_inv W (cs\<lparr>cs_agent := A, cs_committed := cs_committed cs @ [block]\<rparr>)"
  using assms by (auto simp: cs_inv_def round_ok_def vals_ok_def log_ok_def)

lemma store_ok_map_of: "store_ok b \<Longrightarrow> (k, m) \<in> set b \<longleftrightarrow> map_of b k = Some m"
  by (auto simp: store_ok_def dest: map_of_SomeD)

lemma SaveBlock_stored:
  assumes ok: "store_ok b" and n: "number \<noteq> 0" and P: "\<forall>m \<in> snd ` set b. P m"
    and save: "BlockStore_SaveBlock number block parts commit proposal b = Some b'"
    and new: "P \<lparr>bm_Block = block, bm_BlockID = cBlockID commit, bm_BlockPacks = parts, bm_SeenCommit = commit, bm_Proposal = proposal\<rparr>"
  shows "store_ok b' \<and> (\<forall>m \<in> snd ` set b'. P m)"
proof -
  have b': "store_ok b'"
    and get: "map_of b' k = (if kept k b \<and> map_of b k \<noteq> None then map_of b k
       else if k = number then Some \<lparr>bm_Block = block, bm_BlockID = cBlockID commit, bm_BlockPacks = parts,
         bm_SeenCommit = commit, bm_Proposal = proposal\<rparr> else None)" for k
    using SaveBlock_ok [OF ok n, of block parts commit proposal] save by auto
  have "P m" if "(k, m) \<in> set b'" for k m
  proof -
    have "map_of b' k = Some m" using that store_ok_map_of [OF b'] by blast
    then have "map_of b k = Some m \<or> m = \<lparr>bm_Block = block, bm_BlockID = cBlockID commit, bm_BlockPacks = parts,
         bm_SeenCommit = commit, bm_Proposal = proposal\<rparr>"
      unfolding get by (auto split: if_splits)
    then show ?thesis using new P map_of_SomeD [of b k m] by force
  qed
  then show ?thesis using b' by auto
qed

lemma save_block_inv:
  assumes W: "world_ok W" and inv: "cs_inv W cs" and H: "rs_Votes cs = Some H"
    and maj: "has_maj H (to_int (rs_CommitRound cs)) VoteTypePrecommit bid"
    and b: "Hash bid = blk_Hash W block" "PartSet_HasHeader parts (PartsHeader bid)"
  shows "post (save_block block parts cs) (\<lambda>cs'. \<exists>s. cs' = cs\<lparr>cs_blockStore := s\<rparr> \<and> log_ok W cs')"
proof (cases "BlockStore_MaxBlockHeight (cs_blockStore cs) < NumberU64 (cs_agent cs) block")
  case False
  then show ?thesis using inv by (auto simp: save_block_def cs_inv_def intro!: exI [of _ "cs_blockStore cs"])
next
  case True
  then have n: "NumberU64 (cs_agent cs) block \<noteq> 0" by auto
  have Hi: "hvs_inv (w_env W) H" "hvs_chainID H = sa_ChainID (cs_state cs)" "w_committee W (Validators (hvs_valSet H))"
    using inv H by (auto simp: cs_inv_def round_ok_def genuine_def)
  obtain S where S: "HeightVoteSet_Precommits H (to_int (rs_CommitRound cs)) = Some S" "vs_maj23 S = Some bid"
    using maj by (auto simp: has_maj_iff HeightVoteSet_Precommits_def)
  have "member_ok (w_env W) H (to_int (rs_CommitRound cs)) VoteTypePrecommit S"
    by (rule getVoteSet_member(1) [OF Hi(1)]) (use S(1) in \<open>simp add: HeightVoteSet_Precommits_def\<close>)
  then have m: "vset_inv (w_env W) S" "vs_typeB S = VoteTypePrecommit" "vs_chainID S = sa_ChainID (cs_state cs)"
    "committee_ok W (vs_valSet S)" using Hi by (auto simp: member_ok_def hvs_inv_def committee_ok_def)
  let ?c = "\<lparr>cBlockID = bid, Precommits = vs_votes S, firstPrecommit = None, bitArray = None\<rparr>"
  let ?m = "\<lparr>bm_Block = block, bm_BlockID = cBlockID ?c, bm_BlockPacks = parts, bm_SeenCommit = ?c, bm_Proposal = rs_Proposal cs\<rparr>"
  have "stored_ok W (sa_ChainID (cs_state cs)) ?m"
    using commit_verifies [OF m(1) _ m(2) S(2)] W m(3,4) b by (auto simp: stored_ok_def world_ok_def)
  then have saved: "store_ok s \<and> (\<forall>m \<in> snd ` set s. stored_ok W (sa_ChainID (cs_state cs)) m)"
    if "BlockStore_SaveBlock (NumberU64 (cs_agent cs) block) block parts ?c (rs_Proposal cs) (cs_blockStore cs) = Some s" for s
    using inv by (intro SaveBlock_stored [OF _ n _ that]) (auto simp: cs_inv_def log_ok_def)
  show ?thesis
    using True inv saved unfolding save_block_def
    by (auto simp: H S MakeCommit_eq [OF m(2) S(2)] cs_inv_def log_ok_def intro!: post_get)
qed

lemma scheduleRound0_quiet: "quiet W cs (ConsensusState_scheduleRound0 W cs)"
  unfolding ConsensusState_scheduleRound0_def time_Now_def schedule_task_def ConsensusState_scheduleTimeout_def Let_def
  by (rule quietI) (simp_all add: core_def)

lemma inv_parts: "cs_inv W cs \<Longrightarrow> log_ok W cs" "cs_inv W cs \<Longrightarrow> sa_Validators (cs_state cs) = Some v \<Longrightarrow> committee_ok W v"
  by (auto simp: cs_inv_def vals_ok_def)

lemma ggood_handed:
  assumes "cs_inv W cs'" "queue_ext W cs cs1" "cs_internalMsgQueue cs' = cs_internalMsgQueue cs1"
    "cs_committed cs' = cs_committed cs @ [block]"
  shows "ggood W cs cs'"
  using assms by (simp add: ggood_def gext_def queue_ext_def)

lemma finish_commit:
  assumes W: "world_ok W" and inv: "cs_inv W cs1" and H: "rs_Votes cs1 = Some H"
    and maj: "has_maj H (to_int (rs_CommitRound cs1)) VoteTypePrecommit bid"
    and b: "Hash bid = blk_Hash W block" "PartSet_HasHeader parts (PartsHeader bid)"
    and q: "queue_ext W cs cs1" "cs_committed cs1 = cs_committed cs @ [block]"
  shows "post (do {
      cs2 \<leftarrow> save_block block parts cs1;
      cs3 \<leftarrow> ConsensusState_updateToState W cs2;
      Some (ConsensusState_scheduleRound0 W cs3)
    }) (ggood W cs)"
proof (rule post_call [OF save_block_inv [OF W inv H maj b]], elim exE conjE)
  fix cs2 s
  assume s: "cs2 = cs1\<lparr>cs_blockStore := s\<rparr>" "log_ok W cs2"
  have "post (ConsensusState_updateToState W cs2) (\<lambda>cs3. cs_inv W cs3 \<and> restarted cs2 cs3)"
    by (rule updateToState_inv [OF _ s(2)]) (use s(1) inv_parts(2) [OF inv] in simp)
  then show "post (do { cs3 \<leftarrow> ConsensusState_updateToState W cs2; Some (ConsensusState_scheduleRound0 W cs3) }) (ggood W cs)"
  proof (rule post_call, elim conjE)
    fix cs3
    assume c: "cs_inv W cs3" "restarted cs2 cs3"
    have "ggood W cs cs3" by (rule ggood_handed [OF c(1) q(1)]) (use c(2) s(1) q(2) in \<open>simp_all add: restarted_def\<close>)
    then show "post (Some (ConsensusState_scheduleRound0 W cs3)) (ggood W cs)"
      using quiet_good [OF c(1) scheduleRound0_quiet] by (auto intro: ggood_trans good_ggood)
  qed
qed

lemma maj_committed:
  assumes "cs_inv W cs" "rs_Votes cs = Some H" "has_maj H r VoteTypePrecommit bid" "Hash bid = blk_Hash W block"
  shows "committed_ok W (sa_ChainID (cs_state cs)) block"
  using assms unfolding committed_ok_def cs_inv_def round_ok_def by (intro exI [of _ H] exI [of _ r] exI [of _ bid]) auto

lemma sign_block_fields:
  "rs_Votes (sign_block W s b cs) = rs_Votes cs" "rs_CommitRound (sign_block W s b cs) = rs_CommitRound cs"
  "cs_committed (sign_block W s b cs) = cs_committed cs" "cs_internalMsgQueue (sign_block W s b cs) = cs_internalMsgQueue cs"
  by (simp_all add: sign_block_def Let_def)

lemma finalizeCommit_ggood:
  assumes W: "world_ok W" and inv: "cs_inv W cs"
  shows "post (ConsensusState_finalizeCommit W height cs) (ggood W cs)"
proof -
  have hand: "post (do {
      cs2 \<leftarrow> ConsensusState_swithResult W (blk_SetSign W sigs block) (sign_block W sigs block cs);
      if StateAgentImpl_ConsensusCommit (cs_agent cs2) (Some (blk_SetSign W sigs block)) \<noteq> NoError
      then Some (cs2\<lparr>cs_agent := w_commit W (blk_SetSign W sigs block) (cs_agent cs2),
                     cs_committed := cs_committed cs2 @ [blk_SetSign W sigs block]\<rparr>)
      else do {
        cs3 \<leftarrow> save_block (blk_SetSign W sigs block) parts
          (cs2\<lparr>cs_agent := w_commit W (blk_SetSign W sigs block) (cs_agent cs2),
               cs_committed := cs_committed cs2 @ [blk_SetSign W sigs block]\<rparr>);
        cs4 \<leftarrow> ConsensusState_updateToState W cs3;
        Some (ConsensusState_scheduleRound0 W cs4)
      }
    }) (ggood W cs)"
    if H: "rs_Votes cs = Some H" "has_maj H (to_int (rs_CommitRound cs)) VoteTypePrecommit bid"
      and b: "Hash bid = blk_Hash W block" "PartSet_HasHeader parts (PartsHeader bid)" for H bid sigs block parts
  proof (rule post_call [OF swithResult_quiet])
    fix cs2
    assume q: "quiet W (sign_block W sigs block cs) cs2"
    let ?b = "blk_SetSign W sigs block"
    let ?cs = "cs2\<lparr>cs_agent := w_commit W ?b (cs_agent cs2), cs_committed := cs_committed cs2 @ [?b]\<rparr>"
    have hb: "Hash bid = blk_Hash W ?b" using W b(1) by (simp add: world_ok_def)
    have inv2: "cs_inv W cs2" by (rule quiet_inv [OF q sign_block_inv [OF W inv]])
    have f: "rs_Votes cs2 = Some H" "rs_CommitRound cs2 = rs_CommitRound cs" "cs_committed cs2 = cs_committed cs"
      "queue_ext W cs cs2"
      using q H(1) unfolding quiet_def core_def queue_ext_def by (simp_all add: sign_block_fields)
    have inv3: "cs_inv W ?cs"
      by (rule handed_inv [OF inv2 maj_committed [OF inv2 f(1) H(2) hb]])
    have g: "ggood W cs ?cs" by (rule ggood_handed [OF inv3 f(4)]) (simp_all add: f)
    show "post (if StateAgentImpl_ConsensusCommit (cs_agent cs2) (Some ?b) \<noteq> NoError then Some ?cs
      else do { cs3 \<leftarrow> save_block ?b parts ?cs; cs4 \<leftarrow> ConsensusState_updateToState W cs3; Some (ConsensusState_scheduleRound0 W cs4) })
      (ggood W cs)"
      by (intro post_if post_Some g finish_commit [OF W inv3 _ _ hb b(2)])
         (use f H(2) in \<open>simp_all add: queue_ext_def\<close>)
  qed
  show ?thesis
    unfolding ConsensusState_finalizeCommit_def Let_def
    apply (rule post_if)
     apply (simp add: ggood_refl [OF inv])
    apply (rule post_get, rule post_case_prod, rule post_get, rule post_get)
    apply (rule post_check, rule post_check, rule post_get, rule post_check)
    apply (rule hand, assumption)
      apply (simp add: has_maj_def HeightVoteSet_Precommits_def)
     apply (auto simp: EqualHashes_def split: if_splits)
    done
qed

lemma tryFinalizeCommit_ggood:
  assumes W: "world_ok W" and inv: "cs_inv W cs"
  shows "post (ConsensusState_tryFinalizeCommit W height cs) (ggood W cs)"
  unfolding ConsensusState_tryFinalizeCommit_def Let_def
  by (rule post_check, rule post_get, rule post_case_prod)
     (intro post_if post_Some ggood_refl [OF inv] finalizeCommit_ggood [OF W inv])

lemma commit_block_quiet: "quiet W cs (commit_block W bid cs)"
  unfolding commit_block_def Let_def by (rule quietI) (simp_all add: core_def)

lemma commit_step_good:
  assumes inv: "cs_inv W cs" and H: "rs_Votes cs = Some H" "has_maj H (to_int r) VoteTypePrecommit bid"
    and s: "rs_Step cs < RoundStepCommit"
  shows "good W cs (cs\<lparr>rs_Step := RoundStepCommit, rs_CommitRound := r\<rparr>)"
proof -
  have "cs_inv W (cs\<lparr>rs_Step := RoundStepCommit, rs_CommitRound := r\<rparr>)"
    using inv H by (auto simp: cs_inv_def round_ok_def vals_ok_def log_ok_def)
  then show ?thesis using s by (simp add: good_def lext_def ahead_def hrs_le_def queue_ext_def lock_keptI)
qed

lemma enterCommit_ggood:
  assumes W: "world_ok W" and inv: "cs_inv W cs" and r: "0 \<le> rnd" "rnd \<le> int max_round"
  shows "post (ConsensusState_enterCommit W height rnd cs) (ggood W cs)"
proof (cases "rs_Height cs \<noteq> height \<or> RoundStepCommit \<le> rs_Step cs")
  case True
  then show ?thesis using ggood_refl [OF inv] by (simp add: ConsensusState_enterCommit_def)
next
  case False
  have fin: "post (ConsensusState_tryFinalizeCommit W height (ConsensusState_newStep
      ((commit_block W bid cs)\<lparr>rs_Round := rs_Round (commit_block W bid cs), rs_Step := RoundStepCommit, cs_clock := c, rs_CommitRound := to_uint rnd,
        rs_CommitTime := t\<rparr>))) (ggood W cs)"
    if H: "rs_Votes cs = Some H" "has_maj H rnd VoteTypePrecommit bid" for H bid c t
  proof -
    let ?cs = "(commit_block W bid cs)\<lparr>rs_Step := RoundStepCommit, rs_CommitRound := to_uint rnd\<rparr>"
    let ?fin = "ConsensusState_newStep ((commit_block W bid cs)\<lparr>rs_Round := rs_Round (commit_block W bid cs), rs_Step := RoundStepCommit, cs_clock := c,
        rs_CommitRound := to_uint rnd, rs_CommitTime := t\<rparr>)"
    have q: "quiet W cs (commit_block W bid cs)" by (rule commit_block_quiet)
    have "good W (commit_block W bid cs) ?cs"
      by (rule commit_step_good [OF quiet_inv [OF q inv], of H _ bid])
         (use H False quiet_Votes [OF q] quiet_hrs [OF q] to_int_to_uint_round [OF r] in auto)
    then have g: "good W cs ?cs" by (rule good_trans [OF quiet_good [OF inv q]])
    have "quiet W ?cs ?fin"
      by (rule quietI) (use quiet_hrs [OF q] in \<open>simp_all add: core_def ConsensusState_newStep_def\<close>)
    with g have g: "good W cs ?fin" by (rule good_quiet)
    then show ?thesis
      by (intro post_weaken [OF tryFinalizeCommit_ggood [OF W]]) (auto simp: good_def intro: ggood_trans [OF good_ggood])
  qed
  show ?thesis
    unfolding ConsensusState_enterCommit_def if_not_P [OF False] Let_def time_Now_def ConsensusState_updateRoundStep_def prod.case
    apply (rule post_get, rule post_case_prod, rule post_check)
    apply (simp only: to_uint_to_int)
    apply (rule fin, assumption)
    apply (simp add: has_maj_def HeightVoteSet_Precommits_def)
    done
qed

section \<open>Proposals and parts\<close>

lemma defaultSetProposal_quiet: "post (ConsensusState_defaultSetProposal W p cs) (\<lambda>(_, cs'). quiet W cs cs')"
proof -
  have q: "quiet W cs1 (cs1\<lparr>rs_Proposal := a, rs_ProposalBlockParts := b\<rparr>)" for cs1 :: "'a ConsensusState" and a b
    by (rule quietI) (simp_all add: core_def)
  have v: "quiet W cs (set_validators vals' cs)" if "rs_Validators cs = Some vals" "ValidatorSet_GetProposer vals = Some (p, vals')" for vals vals' p
    by (rule quiet_set_validators [OF that(1)]) (use GetProposer_keeps [OF that(2), of W] in simp)
  show ?thesis
    unfolding ConsensusState_defaultSetProposal_def Let_def
    by (intro post_case_option post_if post_get post_case_prod post_Some)
       (auto intro: v quiet_trans [OF v q])
qed

lemma add_part_quiet: "post (add_part W p ps cs) (\<lambda>(_, _, cs'). quiet W cs cs')"
  unfolding add_part_def
  by (intro post_get post_case_prod post_Some) (auto intro!: quietI simp: core_def)

lemma block_complete_ggood:
  assumes W: "world_ok W" and inv: "cs_inv W cs"
  shows "post (block_complete W height cs) (ggood W cs)"
  unfolding block_complete_def Let_def
proof (rule post_get, rule post_case_prod)
  fix H bid ok
  let ?cs = "if ok \<and> \<not> BlockID_IsZero bid \<and> rs_ValidRound cs < rs_Round cs then update_valid W bid (rs_Round cs) cs else cs"
  assume H: "rs_Votes cs = Some H" and maj: "VoteSet_TwoThirdsMajority (HeightVoteSet_Prevotes H (to_int (rs_Round cs))) = (bid, ok)"
  have "still W cs ?cs"
    using update_valid_still [OF inv H, of "rs_Round cs" bid] maj still_quiet [OF inv quiet_refl]
    by (auto simp: has_maj_def HeightVoteSet_Prevotes_def)
  then have g: "good W cs ?cs" "cs_inv W ?cs" by (auto simp: still_def good_def)
  have pre: "post (ConsensusState_enterPrevote W height (to_int (rs_Round ?cs)) ?cs) (ggood W cs)"
    by (rule post_weaken [OF enterPrevote_good [OF g(2) order_refl]]) (rule good_ggood [OF good_trans [OF g(1)]])
  have fin: "post (ConsensusState_tryFinalizeCommit W height ?cs) (ggood W cs)"
    by (rule post_weaken [OF tryFinalizeCommit_ggood [OF W g(2)]]) (rule ggood_trans [OF good_ggood [OF g(1)]])
  show "post (do {
      complete \<leftarrow> (if rs_Step ?cs \<le> RoundStepPropose then ConsensusState_isProposalComplete ?cs else Some False);
      if complete then ConsensusState_enterPrevote W height (to_int (rs_Round ?cs)) ?cs
      else if rs_Step ?cs = RoundStepCommit then ConsensusState_tryFinalizeCommit W height ?cs
      else Some ?cs }) (ggood W cs)"
    by (rule post_get) (intro post_if post_Some pre fin good_ggood [OF g(1)])
qed

lemma addProposalBlockPart_ggood:
  assumes W: "world_ok W" and inv: "cs_inv W cs"
  shows "post (ConsensusState_addProposalBlockPart W height part cs) (\<lambda>(_, cs'). ggood W cs cs')"
proof -
  have fine: "ggood W cs cs'" if "quiet W cs cs'" for cs' by (rule good_ggood [OF quiet_good [OF inv that]])
  have complete: "post (block_complete W height (cs'\<lparr>rs_ProposalBlock := b\<rparr>)) (ggood W cs)" if "quiet W cs cs'" for cs' b
  proof -
    have "quiet W cs (cs'\<lparr>rs_ProposalBlock := b\<rparr>)" by (rule quiet_trans [OF that quietI]) (simp_all add: core_def)
    from fine [OF this] quiet_inv [OF this inv] show ?thesis
      by (intro post_weaken [OF block_complete_ggood [OF W]]) (auto intro: ggood_trans)
  qed
  have block: "quiet W cs (cs'\<lparr>rs_ProposalBlock := b\<rparr>)" if "quiet W cs cs'" for cs' b
    by (rule quiet_trans [OF that quietI]) (simp_all add: core_def)
  show ?thesis
    unfolding ConsensusState_addProposalBlockPart_def Let_def
    apply (rule post_if)
     apply (simp add: ggood_refl [OF inv])
    apply (rule post_get, rule post_case_option)
     apply (simp add: ggood_refl [OF inv])
    apply (rule post_call [OF add_part_quiet], simp only: split_paired_all prod.case)
    apply (rename_tac added err ps cs', case_tac err; simp only: go_error.case post_simps prod.case fine)
    apply (rule post_if)
     apply (rule post_get, rule post_case_prod, rename_tac b e, case_tac e; simp only: go_error.case post_simps prod.case fine block)
     apply (rule post_call [OF complete], assumption, simp)
    apply (simp add: fine)
    done
qed

section \<open>Votes\<close>

lemma polka_still:
  assumes inv: "cs_inv W cs" and H: "rs_Votes cs = Some H"
  shows "still W cs (polka W r (HeightVoteSet_Prevotes H (to_int r)) cs)"
proof (cases "VoteSet_TwoThirdsMajority (HeightVoteSet_Prevotes H (to_int r))")
  case (Pair bid ok)
  have refl: "still W cs cs" by (rule still_quiet [OF inv quiet_refl])
  show ?thesis
  proof (cases ok)
    case True
    then have m: "has_maj H (to_int r) VoteTypePrevote bid" using Pair by (simp add: has_maj_def HeightVoteSet_Prevotes_def)
    let ?cs = "if rs_LockedBlock cs \<noteq> None \<and> rs_LockedRound cs < r \<and> r \<le> rs_Round cs \<and> \<not> hashes_to W (rs_LockedBlock cs) (Hash bid)
       then unlock cs else cs"
    have s: "still W cs ?cs" using refl unlock_still [OF inv H m less_imp_le] by simp
    have "still W ?cs (update_valid W bid r ?cs)" if "r \<le> rs_Round ?cs"
      by (rule update_valid_still [OF still_inv [OF s] _ m that]) (simp add: H unlock_def)
    then have "still W cs (if \<not> BlockID_IsZero bid \<and> rs_ValidRound ?cs < r \<and> r \<le> rs_Round ?cs then update_valid W bid r ?cs else ?cs)"
      using s still_trans [OF s] by simp
    then show ?thesis using True unfolding polka_def Pair Let_def prod.case by simp
  qed (use Pair refl in \<open>simp add: polka_def\<close>)
qed

lemma then_post:
  assumes "good W cs cs1" "cs_inv W cs1 \<Longrightarrow> post m (good W cs1)"
  shows "post m (good W cs)"
proof (rule post_weaken)
  show "post m (good W cs1)" using assms by (simp add: good_def)
qed (rule good_trans [OF assms(1)])

text \<open>\<open>enterNewRound\<close> followed by a function that enters a step of that round.\<close>

lemma new_round_then:
  assumes inv: "cs_inv W cs" and rnd: "rnd \<le> int max_round" and h: "rs_Height cs = height"
    and f: "\<And>cs1. cs_inv W cs1 \<Longrightarrow> rnd \<le> to_int (rs_Round cs1) \<Longrightarrow> rs_Height cs1 = height \<Longrightarrow> post (f cs1) (good W cs1)"
  shows "post (ConsensusState_enterNewRound W height rnd cs \<bind> f) (good W cs)"
proof (rule post_call [OF enterNewRound_good [OF inv rnd]], elim conjE)
  fix cs1
  assume g: "good W cs cs1" "entered height rnd cs1"
  show "post (f cs1) (good W cs)"
    by (rule then_post [OF g(1)], rule f) (use g good_hrs [OF g(1)] h in \<open>auto simp: entered_def\<close>)
qed

lemma step_then:
  assumes "cs_inv W cs" "rnd \<le> to_int (rs_Round cs)" "post m (good W cs)"
    and "\<And>cs1. cs_inv W cs1 \<Longrightarrow> rnd \<le> to_int (rs_Round cs1) \<Longrightarrow> post (f cs1) (good W cs1)"
  shows "post (m \<bind> f) (good W cs)"
proof (rule post_call [OF assms(3)])
  fix cs1
  assume g: "good W cs cs1"
  have i: "cs_inv W cs1" "rs_Round cs \<le> rs_Round cs1" using g good_hrs [OF g] by (auto simp: good_def)
  have "to_int (rs_Round cs) \<le> to_int (rs_Round cs1)"
    using to_int_le [OF inv_round [OF assms(1)] inv_round [OF i(1)]] i(2) by simp
  with assms(2) have "rnd \<le> to_int (rs_Round cs1)" by simp
  then show "post (f cs1) (good W cs)" using assms(4) by (intro then_post [OF g])
qed

lemma vote_round: "unat r < max_round \<Longrightarrow> to_int r \<le> int max_round"
  by (simp only: to_int_round [OF less_imp_le] of_nat_le_iff less_imp_le)

lemma prevote_moves_good:
  assumes inv: "cs_inv W cs" and h: "rs_Height cs = height" and r: "unat (Round v) < max_round"
  shows "post (prevote_moves W height v p cs) (good W cs)"
  unfolding prevote_moves_def
  apply (rule post_if)
   apply (rule new_round_then [OF inv vote_round [OF r] h])
   apply (rule post_if)
    apply (rule enterPrecommit_good, assumption, assumption)
   apply (rule step_then, assumption, assumption, rule enterPrevote_good, assumption, assumption)
   apply (rule enterPrevoteWait_good, assumption, assumption)
  apply (intro post_case_option post_if post_get post_Some good_refl [OF inv] enterPrevote_good [OF inv order_refl])
  done

lemma prevote_added_good:
  assumes inv: "cs_inv W cs" and h: "rs_Height cs = height" and r: "unat (Round v) < max_round"
  shows "post (prevote_added W height v cs) (good W cs)"
  unfolding prevote_added_def Let_def
proof (rule post_get)
  fix H
  assume H: "rs_Votes cs = Some H"
  let ?cs = "polka W (Round v) (HeightVoteSet_Prevotes H (to_int (Round v))) cs"
  have g: "good W cs ?cs" using polka_still [OF inv H] by (simp add: still_def)
  show "post (prevote_moves W height v (HeightVoteSet_Prevotes H (to_int (Round v))) ?cs) (good W cs)"
    by (rule then_post [OF g], rule prevote_moves_good [OF _ _ r]) (use good_hrs [OF g] h in simp_all)
qed

lemma then_ggood:
  assumes "ggood W cs cs1" "cs_inv W cs1 \<Longrightarrow> post m (ggood W cs1)"
  shows "post m (ggood W cs)"
proof (rule post_weaken)
  show "post m (ggood W cs1)" using assms by (simp add: ggood_def)
qed (rule ggood_trans [OF assms(1)])

lemma new_round_ggood:
  assumes "cs_inv W cs" "rnd \<le> int max_round"
  shows "post (ConsensusState_enterNewRound W height rnd cs) (ggood W cs)"
  by (rule post_weaken [OF enterNewRound_good [OF assms]]) (simp add: good_ggood)

lemma commit_moves_ggood:
  assumes W: "world_ok W" and inv: "cs_inv W cs" and h: "rs_Height cs = height" and r: "unat (Round v) < max_round"
  shows "post (do {
      cs \<leftarrow> ConsensusState_enterNewRound W height (to_int (Round v)) cs;
      cs \<leftarrow> ConsensusState_enterPrecommit W height (to_int (Round v)) cs;
      cs \<leftarrow> ConsensusState_enterCommit W height (to_int (Round v)) cs;
      if b then ConsensusState_enterNewRound W (rs_Height cs) 0 cs else Some cs
    }) (ggood W cs)"
proof -
  have r': "0 \<le> to_int (Round v)" "to_int (Round v) \<le> int max_round"
    using to_int_round [OF less_imp_le [OF r]] vote_round [OF r] by simp_all
  have tail: "post (do {
      cs \<leftarrow> ConsensusState_enterCommit W height (to_int (Round v)) cs2;
      if b then ConsensusState_enterNewRound W (rs_Height cs) 0 cs else Some cs }) (ggood W cs2)" if "cs_inv W cs2" for cs2
    by (rule post_call [OF enterCommit_ggood [OF W that r']], rule then_ggood, assumption)
       (intro post_if post_Some ggood_refl new_round_ggood; simp)
  have "post (ConsensusState_enterNewRound W height (to_int (Round v)) cs \<bind> ConsensusState_enterPrecommit W height (to_int (Round v)))
      (good W cs)"
    by (rule new_round_then [OF inv r'(2) h enterPrecommit_good])
  then have "post ((ConsensusState_enterNewRound W height (to_int (Round v)) cs \<bind> ConsensusState_enterPrecommit W height (to_int (Round v)))
      \<bind> (\<lambda>cs2. do {
        cs \<leftarrow> ConsensusState_enterCommit W height (to_int (Round v)) cs2;
        if b then ConsensusState_enterNewRound W (rs_Height cs) 0 cs else Some cs })) (ggood W cs)"
    by (rule post_call) (rule then_ggood [OF good_ggood tail], assumption)
  then show ?thesis by (simp add: Option.bind_assoc)
qed

lemma next_round_bound:
  assumes "unat r < max_round"
  shows "wrap64 (to_int r + 1) \<le> int max_round"
proof -
  have "int64 (int n + 1) \<and> int n + 1 \<le> int max_round" if "n < max_round" for n using that by (simp add: int64_def)
  from this [OF assms] show ?thesis by (simp only: to_int_round [OF less_imp_le [OF assms]] wrap64_id)
qed

lemma inc_round_bound:
  assumes "unat r < max_round"
  shows "to_int (r + 1) \<le> int max_round"
proof -
  have "unat (r + 1) = Suc (unat r)" using assms by (intro unat_inc) simp
  then show ?thesis using assms by (subst to_int_round) (simp_all only: Suc_le_eq of_nat_le_iff)
qed

lemma precommit_added_ggood:
  assumes W: "world_ok W" and inv: "cs_inv W cs" and h: "rs_Height cs = height" and r: "unat (Round v) < max_round"
    and c: "unat (rs_Round cs) < max_round"
  shows "post (precommit_added W height v cs) (ggood W cs)"
proof -
  have next_vote: "wrap64 (to_int (Round v) + 1) \<le> int max_round" by (rule next_round_bound [OF r])
  have next_round: "to_int (rs_Round cs + 1) \<le> int max_round" by (rule inc_round_bound [OF c])
  have wait: "post (do {
       cs \<leftarrow> ConsensusState_enterNewRound W height (to_int (Round v)) cs;
       cs \<leftarrow> ConsensusState_enterPrecommit W height (to_int (Round v)) cs;
       ConsensusState_enterPrecommitWait W height (to_int (Round v)) cs }) (ggood W cs)"
    by (rule post_weaken [OF new_round_then [OF inv vote_round [OF r] h]])
       (rule step_then, assumption, assumption, rule enterPrecommit_good, assumption, assumption,
        rule enterPrecommitWait_good, assumption, assumption, rule good_ggood)
  show ?thesis
    unfolding precommit_added_def Let_def
    by (rule post_get, rule post_get, rule post_case_prod)
       (intro post_if commit_moves_ggood [OF W inv h r] new_round_ggood [OF inv next_vote] new_round_ggood [OF inv next_round] wait
         post_Some ggood_refl [OF inv])
qed

end
