(* ===== verification/Consensus_Steps.thy ===== *)
theory Consensus_Steps
  imports Consensus_Handlers
begin

text \<open>
  The receive routine as a transition system: votes, updates of the committee, timeouts and
  synchronisation, with the bounds on rounds under which the invariant of the state holds after every
  turn.
\<close>

section \<open>Votes\<close>

lemma votes_step_good:
  assumes inv: "cs_inv W cs" and H: "rs_Votes cs = Some H" and K: "hvs_step (w_env W) H K" "hvs_round K = hvs_round H"
  shows "good W cs (cs\<lparr>rs_Votes := Some K\<rparr>)"
proof -
  obtain ok: "round_ok W cs H" and rest: "vals_ok W cs" "log_ok W cs" using inv H by (auto simp: cs_inv_def round_ok_def)
  have h: "hvs_inv (w_env W) H" using ok by (simp add: round_ok_def genuine_def)
  have k: "hvs_inv (w_env W) K" "hvs_frame H K" using hvs_step_inv [OF h K(1)] by simp_all
  have maj: "has_maj K r t b" if "has_maj H r t b" for r t b by (rule hvs_step_maj [OF h K(1) that])
  have "round_ok W (cs\<lparr>rs_Votes := Some K\<rparr>) K"
    using ok k K(2) polka_for_mono [OF maj] unfolding round_ok_def hvs_frame_def genuine_def by (auto intro: maj)
  then have "cs_inv W (cs\<lparr>rs_Votes := Some K\<rparr>)" using rest by (auto simp: cs_inv_def vals_ok_def log_ok_def)
  then show ?thesis by (simp add: good_def lext_def ahead_def hrs_le_def queue_ext_def lock_keptI)
qed

lemma fire_vote_quiet: "quiet W cs (fire_vote v cs)"
  unfolding fire_vote_def by (rule quietI) (simp_all add: core_def)

lemma last_commit_quiet: "quiet W cs (cs\<lparr>rs_LastCommit := S\<rparr>)"
  by (rule quietI) (simp_all add: core_def)

lemma quiet_ggood: "cs_inv W cs \<Longrightarrow> quiet W cs cs' \<Longrightarrow> ggood W cs cs'"
  by (rule good_ggood [OF quiet_good])

lemma last_commit_vote_ggood:
  assumes inv: "cs_inv W cs"
  shows "post (last_commit_vote W v cs) (\<lambda>(_, cs'). ggood W cs cs')"
proof -
  have go: "post (do {
      cs2 \<leftarrow> (if c (fire_vote v cs1) then ConsensusState_enterNewRound W (rs_Height (fire_vote v cs1)) 0 (fire_vote v cs1)
              else Some (fire_vote v cs1));
      Some (res, cs2) }) (\<lambda>(_, cs'). ggood W cs cs')" if q: "quiet W cs cs1" for c res cs1
  proof (rule post_call [where P = "ggood W cs"])
    have g: "ggood W cs (fire_vote v cs1)" by (rule quiet_ggood [OF inv quiet_trans [OF q fire_vote_quiet]])
    show "post (if c (fire_vote v cs1) then ConsensusState_enterNewRound W (rs_Height (fire_vote v cs1)) 0 (fire_vote v cs1)
              else Some (fire_vote v cs1)) (ggood W cs)"
      by (rule post_if, rule then_ggood [OF g], rule new_round_ggood, assumption, simp) (simp only: post_simps g)
  qed simp
  show ?thesis
    unfolding last_commit_vote_def Let_def
    apply (rule post_if)
     apply (simp add: ggood_refl [OF inv])
    apply (rule post_call [where P = "\<lambda>(_, _, cs1, _). quiet W cs cs1"])
     apply (rule post_case_option)
      apply simp
     apply (rule post_get)
     apply (simp only: split_paired_all prod.case post_simps)
     apply (rule last_commit_quiet)
    apply (simp only: split_paired_all prod.case)
    apply (rule post_if)
     apply (simp add: quiet_ggood [OF inv])
    apply (erule go)
    done
qed

lemma addVote_ggood:
  assumes W: "world_ok W" and inv: "cs_inv W cs" and r: "unat (Round v) < max_round" and c: "unat (rs_Round cs) < max_round"
  shows "post (ConsensusState_addVote W v peerID cs) (\<lambda>(_, cs'). ggood W cs cs')"
proof -
  have body: "post (
      if \<not> added then Some ((added, (case err of NoError \<Rightarrow> NoError | Err e \<Rightarrow> Err (ErrVotes e))), cs\<lparr>rs_Votes := Some K\<rparr>)
      else do {
        cs2 \<leftarrow> (if Type v = VoteTypePrevote then prevote_added W (rs_Height cs) v (fire_vote v (cs\<lparr>rs_Votes := Some K\<rparr>))
          else if Type v = VoteTypePrecommit then precommit_added W (rs_Height cs) v (fire_vote v (cs\<lparr>rs_Votes := Some K\<rparr>))
          else None);
        Some ((added, (case err of NoError \<Rightarrow> NoError | Err e \<Rightarrow> Err (ErrVotes e))), cs2)
      }) (\<lambda>(_, cs'). ggood W cs cs')"
    if H: "rs_Votes cs = Some H" and x: "HeightVoteSet_AddVote (w_env W) v peerID H = Some ((added, err), K)" for H added err K
  proof -
    have "hvs_inv (w_env W) H" using inv H by (auto simp: cs_inv_def round_ok_def genuine_def)
    from HeightVoteSet_AddVote_inv [OF this, of v peerID] have "hvs_round K = hvs_round H" using x by auto
    then have g: "good W cs (cs\<lparr>rs_Votes := Some K\<rparr>)"
      by (intro votes_step_good [OF inv H] hvs_vote [OF x])
    then have f: "ggood W cs (fire_vote v (cs\<lparr>rs_Votes := Some K\<rparr>))"
      by (intro good_ggood good_quiet [OF g fire_vote_quiet])
    have moves: "post (if Type v = VoteTypePrevote then prevote_added W (rs_Height cs) v (fire_vote v (cs\<lparr>rs_Votes := Some K\<rparr>))
          else if Type v = VoteTypePrecommit then precommit_added W (rs_Height cs) v (fire_vote v (cs\<lparr>rs_Votes := Some K\<rparr>))
          else None) (ggood W cs)"
      apply (rule post_if, rule then_ggood [OF f], rule post_weaken, rule prevote_added_good [OF _ _ r], assumption)
        apply (simp add: fire_vote_def)
       apply (erule good_ggood)
      apply (rule post_if, rule then_ggood [OF f], rule precommit_added_ggood [OF W _ _ r], assumption)
        apply (use c in \<open>simp_all add: fire_vote_def\<close>)
      done
    show ?thesis
      by (rule post_if, simp add: good_ggood [OF g]) (rule post_call [OF moves], simp)
  qed
  show ?thesis
    unfolding ConsensusState_addVote_def Let_def
    apply (rule post_if, rule last_commit_vote_ggood [OF inv])
    apply (rule post_if, simp add: ggood_refl [OF inv])
    apply (rule post_get, rule post_get)
    apply (simp only: split_paired_all prod.case, erule (1) body)
    done
qed

lemma tryAddVote_ggood:
  assumes W: "world_ok W" and inv: "cs_inv W cs" and r: "unat (Round v) < max_round" and c: "unat (rs_Round cs) < max_round"
  shows "post (ConsensusState_tryAddVote W v peerID cs) (\<lambda>(_, cs'). ggood W cs cs')"
  unfolding ConsensusState_tryAddVote_def
  by (rule post_call2 [OF addVote_ggood [OF assms]])
     (auto simp: post_iff split: prod.splits go_error.splits if_splits elim!: bind_eq_SomeE)

section \<open>Committees, timeouts and synchronisation\<close>

text \<open>What every turn keeps, those included that start a height again.\<close>

definition safe :: "'blk world \<Rightarrow> 'blk ConsensusState \<Rightarrow> 'blk ConsensusState \<Rightarrow> bool" where
  "safe W cs cs' \<longleftrightarrow> cs_inv W cs' \<and> queue_ext W cs cs' \<and> (\<exists>bs. cs_committed cs' = cs_committed cs @ bs)"

lemma ggood_safe: "ggood W cs cs' \<Longrightarrow> safe W cs cs'"
  by (auto simp: ggood_def gext_def safe_def)

lemma safe_ggood:
  assumes "safe W a b" "ggood W b c"
  shows "safe W a c"
  using assms queue_ext_trans [of W a b c] by (auto simp: ggood_def gext_def safe_def)

lemma restarted_safe: "cs_inv W cs' \<Longrightarrow> restarted cs cs' \<Longrightarrow> safe W cs cs'"
  by (simp add: safe_def restarted_def queue_ext_def)

lemma PrivReset_quiet: "StateAgentImpl_PrivReset (cs_state cs) = Some s \<Longrightarrow> quiet W cs (cs\<lparr>cs_state := s\<rparr>)"
  by (rule quietI) (auto simp: core_def StateAgentImpl_PrivReset_def elim!: bind_eq_SomeE)

lemma schedule_task_quiet: "quiet W cs (schedule_task h r cs)"
  unfolding schedule_task_def by (rule quietI) (simp_all add: core_def)

lemma SetHeights_quiet:
  "quiet W cs (cs\<lparr>cs_state := StateAgentImpl_SetBeginHeight b (StateAgentImpl_SetEndHeight e (cs_state cs))\<rparr>)"
  by (rule quietI) (simp_all add: core_def StateAgentImpl_SetBeginHeight_def StateAgentImpl_SetEndHeight_def)

lemma validatorUpdate_safe:
  assumes inv: "cs_inv W cs" and v: "\<And>v. vset = Some v \<Longrightarrow> committee_ok W v" and c: "unat (rs_Round cs) < max_round"
  shows "post (ConsensusState_validatorUpdate W vset u e cs) (safe W cs)"
proof -
  let ?cs = "cs\<lparr>cs_svs := drop 1 (cs_svs cs), cs_state := StateAgentImpl_UpdateValidator (hexEncode (w_env W)) vset True
    (cs_state (cs\<lparr>cs_svs := drop 1 (cs_svs cs)\<rparr>)), cs_shared := False\<rparr>"
  have "log_ok W ?cs"
    using inv_parts(1) [OF inv] by (simp add: log_ok_def StateAgentImpl_UpdateValidator_def Let_def)
  then have up: "post (ConsensusState_updateToState W ?cs) (\<lambda>cs'. cs_inv W cs' \<and> restarted ?cs cs')"
    by (intro updateToState_inv) (simp_all add: v StateAgentImpl_UpdateValidator_def Let_def)
  have reset: "quiet W cs2 (cs2\<lparr>cs_state := StateAgentImpl_SetBeginHeight u (StateAgentImpl_SetEndHeight e s)\<rparr>)"
    if "StateAgentImpl_PrivReset (cs_state cs2) = Some s" for cs2 :: "'a ConsensusState" and s
    using quiet_trans [OF PrivReset_quiet [OF that] SetHeights_quiet [of W _ u e]] by simp
  have tail: "post (ConsensusState_enterNewRound W h (to_int (if b then rs_Round cs + 1 else 0)) cs3) (safe W cs)"
    if "cs_inv W cs2" "restarted ?cs cs2" "quiet W cs2 cs3" for h b cs2 cs3
  proof -
    have "safe W cs cs2" using restarted_safe [OF that(1,2)] by (simp add: safe_def queue_ext_def)
    then have s: "safe W cs cs3" by (rule safe_ggood [OF _ quiet_ggood [OF that(1,3)]])
    then have i: "cs_inv W cs3" by (simp add: safe_def)
    have "to_int (if b then rs_Round cs + 1 else 0) \<le> int max_round" using inc_round_bound [OF c] by simp
    then show ?thesis by (rule post_weaken [OF new_round_ggood [OF i]]) (rule safe_ggood [OF s])
  qed
  show ?thesis
    unfolding ConsensusState_validatorUpdate_def Let_def
    apply (rule post_call [OF up], elim conjE)
    apply (rule post_get)
    apply (erule (1) tail)
    apply (rule quiet_trans [OF _ schedule_task_quiet])
    apply (rule reset, assumption)
    done
qed

lemma updateStateForSync_safe:
  assumes inv: "cs_inv W cs"
  shows "post (ConsensusState_updateStateForSync W cs) (safe W cs)"
proof -
  obtain last cs0 where c0: "GetLastBlockHeight cs = (last, cs0)" by fastforce
  have q: "quiet W cs cs0" by (rule quiet_GetLastBlockHeight [OF c0])
  have s0: "safe W cs cs0" by (rule ggood_safe [OF quiet_ggood [OF inv q]])
  then have i0: "cs_inv W cs0" by (simp add: safe_def)
  have up: "post (ConsensusState_updateToState W cs0) (\<lambda>cs'. cs_inv W cs' \<and> restarted cs0 cs')"
    by (rule updateToState_inv [OF inv_parts(2) [OF i0] inv_parts(1) [OF i0]])
  have sch: "quiet W cs1 (ConsensusState_scheduleTimeout d h r s cs1)" for d h r s and cs1 :: "'a ConsensusState"
    unfolding ConsensusState_scheduleTimeout_def by (rule quietI) (simp_all add: core_def)
  have re: "safe W cs (ConsensusState_scheduleTimeout 1000000 (rs_Height (cs1\<lparr>cs_state := st\<rparr>)) 0 RoundStepNewHeight (cs1\<lparr>cs_state := st\<rparr>))"
    if "cs_inv W cs1" "restarted cs0 cs1" "StateAgentImpl_PrivReset (cs_state cs1) = Some st" for cs1 st
  proof -
    have "safe W cs cs1" using restarted_safe [OF that(1,2)] s0 queue_ext_trans [of W cs cs0 cs1] by (auto simp: safe_def)
    then show ?thesis by (rule safe_ggood) (rule quiet_ggood [OF that(1) quiet_trans [OF PrivReset_quiet [OF that(3)] sch]])
  qed
  have fin: "safe W cs (schedule_task h r cs1)" if "safe W cs cs1" for h r cs1
    by (rule safe_ggood [OF that quiet_ggood [OF _ schedule_task_quiet]]) (use that in \<open>simp add: safe_def\<close>)
  show ?thesis
    unfolding ConsensusState_updateStateForSync_def c0 Let_def prod.case
    apply (rule post_call [where P = "safe W cs"])
     apply (rule post_if)
      apply (rule post_call [OF up], elim conjE)
      apply (rule post_get, rule post_Some, rule re, assumption, assumption, assumption)
     apply (simp only: post_simps s0)
    apply (rule post_Some, erule fin)
    done
qed

section \<open>The receive routine\<close>

text \<open>
  Rounds stay below a bound that no run reaches, and a validator set that is announced has total power
  that the arithmetic of the code holds.
\<close>

fun msg_ok :: "'blk world \<Rightarrow> ConsensusMessage \<Rightarrow> bool" where
  "msg_ok W (VoteMessage vote) \<longleftrightarrow> (case vote of None \<Rightarrow> True | Some v \<Rightarrow> unat (Round v) < max_round)"
| "msg_ok W (ValidatorUpdateMessage vset _ _) \<longleftrightarrow> (case vset of None \<Rightarrow> True | Some v \<Rightarrow> committee_ok W v)"
| "msg_ok W _ \<longleftrightarrow> True"

fun is_update :: "ConsensusMessage \<Rightarrow> bool" where
  "is_update (ValidatorUpdateMessage _ _ _) \<longleftrightarrow> True"
| "is_update _ \<longleftrightarrow> False"

text \<open>A timer of the current height was set in a round that the state has entered.\<close>

fun input_ok :: "'blk world \<Rightarrow> input \<Rightarrow> 'blk ConsensusState \<Rightarrow> bool" where
  "input_ok W PeerQueue cs \<longleftrightarrow> (case cs_peerMsgQueue cs of [] \<Rightarrow> True | mi # _ \<Rightarrow> msg_ok W (Msg mi))"
| "input_ok W (InternalQueue k) cs \<longleftrightarrow> (k < length (cs_internalMsgQueue cs) \<longrightarrow> msg_ok W (Msg (cs_internalMsgQueue cs ! k)))"
| "input_ok W (Tock ti) cs \<longleftrightarrow> (ti_Height ti = rs_Height cs \<longrightarrow> ti_Round ti \<le> rs_Round cs)"
| "input_ok W _ cs \<longleftrightarrow> True"

text \<open>The turns that may start a height again without a commit.\<close>

fun restarts :: "input \<Rightarrow> 'blk ConsensusState \<Rightarrow> bool" where
  "restarts PeerQueue cs \<longleftrightarrow> (case cs_peerMsgQueue cs of [] \<Rightarrow> False | mi # _ \<Rightarrow> is_update (Msg mi))"
| "restarts (InternalQueue k) cs \<longleftrightarrow> k < length (cs_internalMsgQueue cs) \<and> is_update (Msg (cs_internalMsgQueue cs ! k))"
| "restarts (TaskTock _) cs \<longleftrightarrow> True"
| "restarts _ cs \<longleftrightarrow> False"

lemma handleMsg_ggood:
  assumes W: "world_ok W" and inv: "cs_inv W cs" and m: "msg_ok W (Msg mi)" "\<not> is_update (Msg mi)" and c: "unat (rs_Round cs) < max_round"
  shows "post (ConsensusState_handleMsg W mi cs) (ggood W cs)"
proof (cases "Msg mi")
  case (ProposalMessage p)
  have "post (ConsensusState_defaultSetProposal W p cs) (\<lambda>x. ggood W cs (snd x))"
    by (rule post_weaken [OF defaultSetProposal_quiet]) (auto intro: quiet_ggood [OF inv])
  then show ?thesis unfolding ConsensusState_handleMsg_def ProposalMessage by (simp add: post_map_option)
next
  case (BlockPartMessage h r p)
  have "post (ConsensusState_addProposalBlockPart W h p cs) (\<lambda>x. ggood W cs (snd x))"
    by (rule post_weaken [OF addProposalBlockPart_ggood [OF W inv]]) auto
  then show ?thesis unfolding ConsensusState_handleMsg_def BlockPartMessage by (simp add: post_map_option)
next
  case (VoteMessage vote)
  have "post (ConsensusState_tryAddVote W v (PeerID mi) cs) (\<lambda>x. ggood W cs (snd x))" if "vote = Some v" for v
    by (rule post_weaken [OF tryAddVote_ggood [OF W inv _ c]]) (use m VoteMessage that in auto)
  then show ?thesis unfolding ConsensusState_handleMsg_def VoteMessage by (cases vote) (simp_all add: post_map_option)
qed (use m in simp)

lemma handleMsg_safe:
  assumes W: "world_ok W" and inv: "cs_inv W cs" and m: "msg_ok W (Msg mi)" and c: "unat (rs_Round cs) < max_round"
  shows "post (ConsensusState_handleMsg W mi cs) (safe W cs)"
proof (cases "is_update (Msg mi)")
  case True
  then obtain vset u e where e: "Msg mi = ValidatorUpdateMessage vset u e" by (cases "Msg mi") auto
  show ?thesis
    unfolding ConsensusState_handleMsg_def e ConsensusMessage.case
    by (rule validatorUpdate_safe [OF inv _ c]) (use m e in simp)
next
  case False
  then show ?thesis by (intro post_weaken [OF handleMsg_ggood [OF W inv m _ c]] ggood_safe)
qed

lemma handleTimeout_ggood:
  assumes inv: "cs_inv W cs" and t: "ti_Height ti = rs_Height cs \<longrightarrow> ti_Round ti \<le> rs_Round cs" and c: "unat (rs_Round cs) < max_round"
  shows "post (ConsensusState_handleTimeout W ti cs) (ggood W cs)"
proof (cases "ti_Height ti = rs_Height cs")
  case True
  then have le: "ti_Round ti \<le> rs_Round cs" using t by simp
  then have r: "unat (ti_Round ti) < max_round" using c by (simp only: word_le_nat_alt)
  have t: "to_int (ti_Round ti) \<le> to_int (rs_Round cs)" using le to_int_le [OF less_imp_le [OF r] less_imp_le [OF c]] by simp
  have z: "0 \<le> to_int (rs_Round cs)" using inv_to_int [OF inv] by simp
  have g: "post m (good W cs) \<Longrightarrow> post m (ggood W cs)" for m by (erule post_weaken) (rule good_ggood)
  show ?thesis
    unfolding ConsensusState_handleTimeout_def
    by (intro post_if new_round_ggood [OF inv] next_round_bound [OF r] g [OF tryEnterProposal_good [OF inv z]]
        g [OF enterPrevote_good [OF inv t]] g [OF enterPrecommit_good [OF inv t]])
       (simp_all add: ggood_refl [OF inv])
next
  case False
  then show ?thesis by (simp add: ConsensusState_handleTimeout_def ggood_refl [OF inv])
qed

lemma switchHandle_quiet: "post (ConsensusState_switchHandle s cs) (quiet W cs)"
  unfolding ConsensusState_switchHandle_def
  by (intro post_case_option post_if pick_notify_quiet) (auto intro: quiet_svs)

lemma popped_quiet: "quiet W cs (cs\<lparr>cs_peerMsgQueue := q\<rparr>)"
  by (rule quietI) (simp_all add: core_def)

lemma popped_internal_inv: "cs_inv W (cs\<lparr>cs_internalMsgQueue := q\<rparr>) = cs_inv W cs"
  by (auto simp: cs_inv_def round_ok_def vals_ok_def log_ok_def)

text \<open>
  The relation between the state before a turn and the state after it: new messages in the own queue
  are backed, blocks are only added to those handed to the chain, and the height, round and step do
  not go back unless a block was handed over or the turn restarts the height.
\<close>

definition turn :: "'blk world \<Rightarrow> bool \<Rightarrow> 'blk ConsensusState \<Rightarrow> 'blk ConsensusState \<Rightarrow> bool" where
  "turn W restart cs cs' \<longleftrightarrow>
     (\<forall>m \<in> set (cs_internalMsgQueue cs'). m \<in> set (cs_internalMsgQueue cs) \<or> backed W (Msg m)) \<and>
     (\<exists>bs. cs_committed cs' = cs_committed cs @ bs \<and> (bs = [] \<longrightarrow> restart \<or> ahead W cs cs'))"

lemma ggood_turn: "ggood W cs cs' \<Longrightarrow> cs_inv W cs' \<and> turn W b cs cs'"
  by (fastforce simp: ggood_def gext_def queue_ext_def turn_def)

lemma safe_turn: "safe W cs cs' \<Longrightarrow> cs_inv W cs' \<and> turn W True cs cs'"
  by (fastforce simp: safe_def queue_ext_def turn_def)

lemma turn_popped:
  "turn W b (cs\<lparr>cs_peerMsgQueue := p, cs_internalMsgQueue := q\<rparr>) cs' \<Longrightarrow> set q \<subseteq> set (cs_internalMsgQueue cs) \<Longrightarrow> turn W b cs cs'"
  unfolding turn_def ahead_def hrs_le_def lock_kept_def by auto

lemma handleMsg_turn:
  assumes W: "world_ok W" and inv: "cs_inv W cs" and m: "msg_ok W (Msg mi)" and c: "unat (rs_Round cs) < max_round"
  shows "post (ConsensusState_handleMsg W mi cs) (\<lambda>cs'. cs_inv W cs' \<and> turn W (is_update (Msg mi)) cs cs')"
proof (cases "is_update (Msg mi)")
  case True
  show ?thesis
    by (rule post_weaken [OF handleMsg_safe [OF W inv m c]]) (drule safe_turn, simp add: True)
next
  case False
  then show ?thesis by (intro post_weaken [OF handleMsg_ggood [OF W inv m _ c] ggood_turn])
qed

lemma receiveRoutine_turn:
  assumes W: "world_ok W" and inv: "cs_inv W cs" and i: "input_ok W inp cs" and c: "unat (rs_Round cs) < max_round"
  shows "post (ConsensusState_receiveRoutine W inp cs) (\<lambda>cs'. cs_inv W cs' \<and> turn W (restarts inp cs) cs cs')"
proof -
  have stay: "cs_inv W cs \<and> turn W b cs cs" for b by (rule ggood_turn [OF ggood_refl [OF inv]])
  show ?thesis
  proof (cases inp)
    case PeerQueue
    show ?thesis
    proof (cases "cs_peerMsgQueue cs")
      case (Cons mi rest)
      let ?cs = "cs\<lparr>cs_peerMsgQueue := rest\<rparr>"
      have "post (ConsensusState_handleMsg W mi ?cs) (\<lambda>cs'. cs_inv W cs' \<and> turn W (is_update (Msg mi)) ?cs cs')"
        by (rule handleMsg_turn [OF W quiet_inv [OF popped_quiet inv]]) (use i c Cons PeerQueue in simp_all)
      then show ?thesis
        using Cons PeerQueue turn_popped [where W = W and b = "is_update (Msg mi)" and cs = cs and p = rest and q = "cs_internalMsgQueue cs"]
        by (auto simp: ConsensusState_receiveRoutine_def elim!: post_weaken)
    qed (simp add: ConsensusState_receiveRoutine_def PeerQueue stay)
  next
    case (InternalQueue k)
    show ?thesis
    proof (cases "k < length (cs_internalMsgQueue cs)")
      case True
      let ?q = "take k (cs_internalMsgQueue cs) @ drop (Suc k) (cs_internalMsgQueue cs)"
      let ?cs = "cs\<lparr>cs_internalMsgQueue := ?q\<rparr>" and ?mi = "cs_internalMsgQueue cs ! k"
      have q: "set ?q \<subseteq> set (cs_internalMsgQueue cs)" by (auto dest: in_set_takeD in_set_dropD)
      have "post (ConsensusState_handleMsg W ?mi ?cs) (\<lambda>cs'. cs_inv W cs' \<and> turn W (is_update (Msg ?mi)) ?cs cs')"
        by (rule handleMsg_turn [OF W]) (use i c True InternalQueue inv in \<open>simp_all add: popped_internal_inv\<close>)
      then show ?thesis
        using True InternalQueue turn_popped [OF _ q, where W = W and b = "is_update (Msg ?mi)" and p = "cs_peerMsgQueue cs"]
        by (auto simp: ConsensusState_receiveRoutine_def elim!: post_weaken)
    qed (simp add: ConsensusState_receiveRoutine_def InternalQueue stay)
  next
    case (Tock ti)
    have "post (ConsensusState_handleTimeout W ti cs) (ggood W cs)"
      by (rule handleTimeout_ggood [OF inv _ c]) (use i Tock in simp)
    then show ?thesis by (simp add: ConsensusState_receiveRoutine_def Tock post_weaken [OF _ ggood_turn])
  next
    case (TaskTock ti)
    show ?thesis
      by (simp add: ConsensusState_receiveRoutine_def TaskTock ConsensusState_handleTimeoutForTask_def
          post_weaken [OF updateStateForSync_safe [OF inv] safe_turn])
  next
    case (ChanTo s)
    show ?thesis
      by (simp add: ConsensusState_receiveRoutine_def ChanTo
          post_weaken [OF switchHandle_quiet ggood_turn [OF quiet_ggood [OF inv]]])
  qed
qed

section \<open>Start\<close>

definition store_fine :: "'blk world \<Rightarrow> string \<Rightarrow> 'blk BlockStore \<Rightarrow> bool" where
  "store_fine W chain store \<longleftrightarrow> store_ok store \<and> (\<forall>m \<in> snd ` set store. stored_ok W chain m)"

text \<open>The invariant of a run: that of the state, and that every message of the own queue is backed.\<close>

definition run_inv :: "'blk world \<Rightarrow> 'blk ConsensusState \<Rightarrow> bool" where
  "run_inv W cs \<longleftrightarrow> cs_inv W cs \<and> (\<forall>m \<in> set (cs_internalMsgQueue cs). backed W (Msg m))"

lemma quiet_run: "run_inv W cs \<Longrightarrow> quiet W cs cs' \<Longrightarrow> run_inv W cs'"
  using quiet_inv [of W cs cs'] by (auto simp: run_inv_def quiet_def queue_ext_def)

lemma turn_run: "run_inv W cs \<Longrightarrow> cs_inv W cs' \<Longrightarrow> turn W b cs cs' \<Longrightarrow> run_inv W cs'"
  unfolding run_inv_def turn_def by blast

lemma reconstructLastCommit_quiet: "post (ConsensusState_reconstructLastCommit W cs) (quiet W cs)"
proof -
  obtain last cs0 where c0: "GetLastBlockHeight cs = (last, cs0)" by fastforce
  have q: "quiet W cs cs0" by (rule quiet_GetLastBlockHeight [OF c0])
  then have l: "quiet W cs (cs0\<lparr>rs_LastCommit := S\<rparr>)" for S by (rule quiet_trans [OF _ last_commit_quiet])
  show ?thesis
    unfolding ConsensusState_reconstructLastCommit_def c0 Let_def prod.case
    by (rule post_case_option, simp add: q, rule post_if, simp add: q)
       (auto simp: post_iff go_assert_def intro: l elim!: bind_eq_SomeE split: if_splits)
qed

lemma NewConsensusState_run:
  assumes v: "\<And>v. sa_Validators state = Some v \<Longrightarrow> committee_ok W v" and s: "store_fine W (sa_ChainID state) store"
  shows "post (NewConsensusState W state A store) (run_inv W)"
proof -
  let ?z = "zero_state W state A store"
  have "post (ConsensusState_updateToState W ?z) (\<lambda>cs'. cs_inv W cs' \<and> restarted ?z cs')"
    by (rule updateToState_inv) (use v s in \<open>simp_all add: zero_state_def log_ok_def store_fine_def\<close>)
  then have "post (ConsensusState_updateToState W ?z) (run_inv W)"
    by (rule post_weaken) (simp add: run_inv_def restarted_def zero_state_def)
  then show ?thesis
    unfolding NewConsensusState_def
    by (rule post_call) (rule post_weaken [OF reconstructLastCommit_quiet], erule (1) quiet_run)
qed

lemma OnStart_run:
  assumes r: "run_inv W cs"
  shows "post (ConsensusState_OnStart W cs) (\<lambda>(_, cs'). run_inv W cs')"
proof -
  have inv: "cs_inv W cs" using r by (simp add: run_inv_def)
  have "post (ConsensusState_updateToState W cs) (\<lambda>cs'. cs_inv W cs' \<and> restarted cs cs')"
    by (rule updateToState_inv [OF inv_parts(2) [OF inv] inv_parts(1) [OF inv]])
  then have "post (ConsensusState_updateToState W cs) (run_inv W)"
    by (rule post_weaken) (use r in \<open>simp add: run_inv_def restarted_def\<close>)
  then have "post (do { cs' \<leftarrow> ConsensusState_updateToState W cs; Some (NoError, ConsensusState_scheduleRound0 W cs') })
      (\<lambda>(_, cs'). run_inv W cs')"
    by (rule post_call) (simp add: quiet_run [OF _ scheduleRound0_quiet])
  then show ?thesis unfolding ConsensusState_OnStart_def by (intro post_if) (simp_all add: r)
qed

section \<open>The transition system\<close>

text \<open>
  A turn of the receive routine; a message that the reactor queues for a peer; an announced committee;
  the claim of a peer to have seen a majority; and what the node changes beside the routine: the
  blockchain, the health manager and the committee.
\<close>

inductive cs_step :: "'blk world \<Rightarrow> 'blk ConsensusState \<Rightarrow> 'blk ConsensusState \<Rightarrow> bool" for W where
  cs_receive: "ConsensusState_receiveRoutine W inp cs = Some cs' \<Longrightarrow> input_ok W inp cs \<Longrightarrow> unat (rs_Round cs) < max_round \<Longrightarrow> cs_step W cs cs'"
| cs_start: "ConsensusState_OnStart W cs = Some (e, cs') \<Longrightarrow> cs_step W cs cs'"
| cs_peer: "peerID \<noteq> [] \<Longrightarrow> cs_step W cs (enqueue m peerID cs)"
| cs_update: "cs_step W cs (ConsensusState_UpdateValidatorsSet vset uHeight eHeight cs)"
| cs_claim: "rs_Votes cs = Some H \<Longrightarrow> HeightVoteSet_SetPeerMaj23 (w_env W) rnd typeB peerID blockID H = Some (e, K) \<Longrightarrow>
    cs_step W cs (cs\<lparr>rs_Votes := Some K\<rparr>)"
| cs_node: "cs_step W cs (cs\<lparr>cs_agent := A\<rparr>)"
| cs_health: "cs_step W cs (ConsensusState_SetHealthMgr h cs)"
| cs_committee: "cs_step W cs (ConsensusState_SetCommitteeInfo c cs)"

inductive_cases cs_stepE: "cs_step W cs cs'"

lemma cs_step_run:
  assumes W: "world_ok W" and r: "run_inv W cs" and s: "cs_step W cs cs'"
  shows "run_inv W cs'"
  using s
proof cases
  case (cs_receive inp)
  have "cs_inv W cs" using r by (simp add: run_inv_def)
  from receiveRoutine_turn [OF W this cs_receive(2,3)] show ?thesis
    using cs_receive(1) turn_run [OF r] by simp blast
next
  case (cs_start e)
  then show ?thesis using OnStart_run [OF r] by simp
next
  case (cs_peer peerID m)
  have "quiet W cs cs'" unfolding cs_peer(1) enqueue_def using cs_peer(2) by (simp add: popped_quiet)
  then show ?thesis by (rule quiet_run [OF r])
next
  case (cs_update vset u e)
  then show ?thesis
    using r by (simp add: run_inv_def ConsensusState_UpdateValidatorsSet_def enqueue_def popped_internal_inv)
next
  case (cs_claim H rnd typeB peerID blockID e K)
  have i: "cs_inv W cs" using r by (simp add: run_inv_def)
  then have "hvs_inv (w_env W) H" using cs_claim(2) by (auto simp: cs_inv_def round_ok_def genuine_def)
  from HeightVoteSet_SetPeerMaj23_inv [OF this, of rnd typeB peerID blockID] cs_claim(3)
  have "hvs_round K = hvs_round H" by auto
  from votes_step_good [OF i cs_claim(2) hvs_claim [OF cs_claim(3)] this] show ?thesis
    using r cs_claim(1) by (simp add: run_inv_def good_def)
next
  case (cs_node A)
  show ?thesis by (rule quiet_run [OF r], unfold cs_node, rule quietI) (simp_all add: core_def)
next
  case (cs_health h)
  show ?thesis by (rule quiet_run [OF r], unfold cs_health ConsensusState_SetHealthMgr_def, rule quietI) (simp_all add: core_def)
next
  case (cs_committee c)
  show ?thesis by (rule quiet_run [OF r], unfold cs_committee ConsensusState_SetCommitteeInfo_def, rule quietI) (simp_all add: core_def)
qed

interpretation csi: invariant_system "cs_step W" "\<lambda>cs. world_ok W \<longrightarrow> run_inv W cs" for W
  by unfold_locales (blast intro: cs_step_run)

end
