(* ===== verification/Consensus_Progress.thy ===== *)
theory Consensus_Progress
  imports Consensus_Steps
begin

text \<open>
  Progress: a node that holds the block for which it has the precommits of a majority hands it to the
  chain, stores it and starts the next height, without a panic on the way.
\<close>

section \<open>Signatures\<close>

lemma MakePbftSigns_returns:
  assumes inv: "vset_inv E S" and maj: "vs_maj23 S = Some bid" "Hash bid \<noteq> []"
  shows "\<exists>sigs. VoteSet_MakePbftSigns E (Some S) (Hash bid) = Some (Inr sigs)"
proof -
  obtain bv where bv: "vs_votesByBlock S (BlockID_Key E bid) = Some bv" "block_ok E S (BlockID_Key E bid) bv"
    using inv maj by (auto simp: vset_inv_def majority_ok_def blocks_ok_def)
  have tr: "ba.tracks (bv_bitArray bv) (bv_votes bv)" and len: "length (bv_votes bv) < 2 ^ 63"
    using bv(2) inv by (auto simp: block_ok_def vset_inv_def powers_ok_def)
  let ?f = "\<lambda>i signs. do {
      res \<leftarrow> BitArray_GetIndex (bv_bitArray bv) (of_nat i);
      if res then do {
        vote \<leftarrow> bv_votes bv ! i;
        Some (signs @ [\<lparr>FastHash = to_hash (Hash bid), FastHeight = unat (Height vote), sResult = ucast (Result vote), Sign = ResultSign vote\<rparr>])
      }
      else Some signs }"
  have "\<exists>t. go_for ?f [0..<length (bv_votes bv)] [] = Some t \<and> True"
  proof (rule go_for_upt)
    fix i and t :: "PbftSign list"
    assume "i < length (bv_votes bv)"
    moreover from this len have "unat (of_nat i :: u64) = i" by (intro unat_of_nat64) simp
    ultimately show "\<exists>t'. ?f i t = Some t' \<and> True" using ba.tracks_get [OF tr, of "of_nat i"] by auto
  qed simp_all
  then show ?thesis using bv(1) maj by (auto simp: VoteSet_MakePbftSigns_def EqualHashes_def)
qed

section \<open>The next height\<close>

lemma returns_bind: "\<exists>x. m = Some x \<Longrightarrow> \<exists>y. (m \<bind> (\<lambda>x. Some (f x))) = Some y"
  by auto

lemma updateToState_returns:
  assumes v: "sa_Validators (cs_state cs) = Some v" "powers_ok v" and l: "last_precommits cs \<noteq> None"
    and h: "of_nat (GetCurrentHeight (cs_agent cs)) + 1 \<noteq> (0 :: u64)"
  shows "\<exists>cs'. ConsensusState_updateToState W cs = Some cs'"
proof -
  obtain y where y: "last_precommits cs = Some y" using l by blast
  have l': "last_precommits (cs\<lparr>cs_state := s\<rparr>) = Some y" for s
    unfolding y [symmetric] by (simp add: last_precommits_def split: option.split)
  have new: "\<exists>H. NewHeightVoteSet c (of_nat (GetCurrentHeight (cs_agent cs)) + 1) v = Some H" for c
    using NewHeightVoteSet_inv [OF v(2) h] by blast
  show ?thesis
    unfolding ConsensusState_updateToState_def GetLastBlockHeight_def StateAgentImpl_GetLastBlockHeight_def Let_def prod.case l'
      bind.bind_lunit
    apply (simp add: StateAgentImpl_GetValidator_def v(1) ConsensusState_updateHeight_def split_beta)
    apply (rule returns_bind [OF new])
    done
qed

lemma updateToState_restarts: "post (ConsensusState_updateToState W cs) (restarted cs)"
  unfolding ConsensusState_updateToState_def GetLastBlockHeight_def StateAgentImpl_GetLastBlockHeight_def Let_def prod.case
    ConsensusState_updateHeight_def ConsensusState_updateRoundStep_def
  by (rule post_get, rule post_case_prod, rule post_get, rule post_get, rule post_Some)
     (auto dest!: start_time_clock simp: restarted_def ConsensusState_newStep_def to_uint_def)

section \<open>Handing over a block\<close>

text \<open>The chain takes the block, which has the current height; the store ends below it.\<close>

definition takes_block :: "'blk world \<Rightarrow> 'blk \<Rightarrow> 'blk ConsensusState \<Rightarrow> bool" where
  "takes_block W b cs \<longleftrightarrow>
     BroadcastConsensus (cs_agent cs) b = NoError \<and>
     NumberU64 (w_commit W b (cs_agent cs)) b = rs_Height cs \<and>
     of_nat (GetCurrentHeight (w_commit W b (cs_agent cs))) = rs_Height cs \<and>
     BlockStore_MaxBlockHeight (cs_blockStore cs) < rs_Height cs"

text \<open>What a commit leaves behind.\<close>

definition commits :: "'blk \<Rightarrow> 'blk ConsensusState \<Rightarrow> 'blk ConsensusState \<Rightarrow> bool" where
  "commits b cs cs' \<longleftrightarrow>
     cs_committed cs' = cs_committed cs @ [b] \<and>
     map_option bm_Block (BlockStore_LoadBlockMeta (rs_Height cs) (cs_blockStore cs')) = Some b \<and>
     rs_Height cs' = rs_Height cs + 1 \<and> rs_Round cs' = 0 \<and> rs_Step cs' = RoundStepNewHeight"

lemma save_block_returns:
  assumes S: "rs_Votes cs = Some H" "HeightVoteSet_Precommits H (to_int (rs_CommitRound cs)) = Some S" "vs_maj23 S = Some bid"
      "vs_typeB S = VoteTypePrecommit"
    and n: "BlockStore_MaxBlockHeight (cs_blockStore cs) < NumberU64 (cs_agent cs) b" and ok: "store_ok (cs_blockStore cs)"
  shows "\<exists>s. save_block b parts cs = Some (cs\<lparr>cs_blockStore := s\<rparr>) \<and> map_option bm_Block (map_of s (NumberU64 (cs_agent cs) b)) = Some b"
proof -
  let ?n = "NumberU64 (cs_agent cs) b" and ?c = "\<lparr>cBlockID = bid, Precommits = vs_votes S, firstPrecommit = None, bitArray = None\<rparr>"
  have "?n \<notin> fst ` set (cs_blockStore cs)"
    using n by (auto simp: MaxBlockHeight_eq)
  then have none: "map_of (cs_blockStore cs) ?n = None" by (simp add: map_of_eq_None_iff)
  have "?n \<noteq> 0" using n by auto
  from SaveBlock_ok [OF ok this, of b parts ?c "rs_Proposal cs"] obtain s where
    s: "BlockStore_SaveBlock ?n b parts ?c (rs_Proposal cs) (cs_blockStore cs) = Some s" "map_option bm_Block (map_of s ?n) = Some b"
    using none by auto
  then show ?thesis using n S by (auto simp: save_block_def MakeCommit_eq)
qed

text \<open>With a health manager and a committee, handling the switches of a block returns and leaves the round alone.\<close>

definition switch_frame :: "'blk ConsensusState \<Rightarrow> 'blk ConsensusState \<Rightarrow> bool" where
  "switch_frame cs cs' \<longleftrightarrow> rs_Votes cs' = rs_Votes cs \<and> rs_CommitRound cs' = rs_CommitRound cs \<and> cs_blockStore cs' = cs_blockStore cs \<and>
     sa_Validators (cs_state cs') = sa_Validators (cs_state cs) \<and> rs_Height cs' = rs_Height cs \<and> cs_agent cs' = cs_agent cs \<and>
     cs_committed cs' = cs_committed cs"

lemma pickSwitchValidator_returns:
  assumes "cs_hm cs = Some hm"
  shows "\<exists>sv' cs'. ConsensusState_pickSwitchValidator sv d cs = Some (sv', cs') \<and> switch_frame cs cs'"
  using assms by (auto simp: ConsensusState_pickSwitchValidator_def switch_frame_def split: list.split)

lemma list2_of_length: "\<not> 2 < length xs \<Longrightarrow> \<not> length xs < 2 \<Longrightarrow> \<exists>x y. xs = [x, y]"
  by (cases xs; cases "tl xs") auto

lemma swithResult_returns:
  assumes "cs_cm cs = Some cm" "cs_hm cs = Some hm"
  shows "\<exists>cs'. ConsensusState_swithResult W b cs = Some cs' \<and> switch_frame cs cs'"
proof -
  obtain cs0 where g: "GetLastBlockHeight cs = (of_nat (GetCurrentHeight (cs_agent cs)), cs0)" "cs_cm cs0 = Some cm" "cs_hm cs0 = Some hm"
    "switch_frame cs cs0"
    using assms by (simp add: GetLastBlockHeight_def StateAgentImpl_GetLastBlockHeight_def Let_def switch_frame_def)
  show ?thesis
  proof (cases "of_nat (GetCurrentHeight (cs_agent cs)) + 1 = (of_nat (cm_StartHeight cm) :: u64) \<or> length (blk_SwitchInfos W b) > 2 \<or>
      length (blk_SwitchInfos W b) < 2")
    case True
    then have "ConsensusState_swithResult W b cs = Some cs0"
      by (auto simp: ConsensusState_swithResult_def Let_def g(1,2) split: list.split)
    then show ?thesis using g(4) by blast
  next
    case False
    then obtain x y where sw: "blk_SwitchInfos W b = [x, y]" "of_nat (GetCurrentHeight (cs_agent cs)) + 1 \<noteq> (of_nat (cm_StartHeight cm) :: u64)"
      using list2_of_length by blast
    let ?cs1 = "cs0\<lparr>cs_state := StateAgentImpl_SetEndHeight (NumberU64 (cs_agent cs0) b) (cs_state cs0)\<rparr>"
    have f: "switch_frame cs ?cs1" "cs_hm ?cs1 = Some hm" using g(3,4) by (simp_all add: switch_frame_def StateAgentImpl_SetEndHeight_def)
    let ?q = "if Flag x = StateAppendFlag then do {
              add \<leftarrow> member_health x StateAppendFlag ?cs1;
              remove \<leftarrow> member_health y StateRemovedFlag ?cs1;
              Some (add, remove)
            }
            else do {
              remove \<leftarrow> member_health x StateRemovedFlag ?cs1;
              Some (None, remove)
            }"
    have "?q \<noteq> None" using f(2) by (simp add: member_health_def)
    then obtain add remove where ar: "?q = Some (add, remove)" by (cases ?q) auto
    obtain sv cs2 where p: "ConsensusState_pickSwitchValidator (switch_of [x, y] remove add) False ?cs1 = Some (sv, cs2)" "switch_frame ?cs1 cs2"
      using pickSwitchValidator_returns [OF f(2)] by blast
    have "ConsensusState_swithResult W b cs = Some (if remove = None then ?cs1 else ConsensusState_notifyHealthMgr sv cs2)"
      by (simp add: ConsensusState_swithResult_def Let_def g(1,2) sw ar p(1))
    moreover have "switch_frame cs (ConsensusState_notifyHealthMgr sv cs2)"
      using f(1) p(2) by (simp add: switch_frame_def ConsensusState_notifyHealthMgr_def StateAgentImpl_SetEndHeight_def)
    ultimately show ?thesis using f(1) by (auto split: if_splits)
  qed
qed

text \<open>The end of \<open>finalizeCommit\<close>: the block is saved and the next height starts.\<close>

lemma finish_returns:
  assumes S: "rs_Votes cs = Some H" "HeightVoteSet_Precommits H (to_int (rs_CommitRound cs)) = Some S" "vs_maj23 S = Some bid"
      "vs_typeB S = VoteTypePrecommit"
    and ok: "store_ok (cs_blockStore cs)" and v: "sa_Validators (cs_state cs) = Some v" "powers_ok v"
    and n: "BlockStore_MaxBlockHeight (cs_blockStore cs) < rs_Height cs" "NumberU64 (cs_agent cs) b = rs_Height cs"
      "of_nat (GetCurrentHeight (cs_agent cs)) = rs_Height cs" "rs_Height cs + 1 \<noteq> 0"
  shows "\<exists>cs'. (do {
       cs \<leftarrow> save_block b parts cs;
       cs \<leftarrow> ConsensusState_updateToState W cs;
       Some (ConsensusState_scheduleRound0 W cs)
     }) = Some cs' \<and> cs_committed cs' = cs_committed cs \<and>
     map_option bm_Block (BlockStore_LoadBlockMeta (rs_Height cs) (cs_blockStore cs')) = Some b \<and>
     rs_Height cs' = rs_Height cs + 1 \<and> rs_Round cs' = 0 \<and> rs_Step cs' = RoundStepNewHeight"
proof -
  obtain s where s: "save_block b parts cs = Some (cs\<lparr>cs_blockStore := s\<rparr>)" "map_option bm_Block (map_of s (rs_Height cs)) = Some b"
    using save_block_returns [OF S _ ok, of b parts] n by auto
  let ?cs = "cs\<lparr>cs_blockStore := s\<rparr>"
  have "last_precommits ?cs \<noteq> None"
    using S by (simp add: last_precommits_def VoteSet_HasTwoThirdsMajority_def)
  then obtain cs1 where up: "ConsensusState_updateToState W ?cs = Some cs1"
    using updateToState_returns [of ?cs v W] v n by auto
  have r: "restarted ?cs cs1" by (rule postD [OF updateToState_restarts up])
  have q: "core (ConsensusState_scheduleRound0 W cs1) = core cs1" using scheduleRound0_quiet [of W cs1] by (simp add: quiet_def)
  then show ?thesis
    using s up r n(3) by (auto simp: core_def restarted_def BlockStore_LoadBlockMeta_def)
qed

lemma finalizeCommit_returns:
  assumes inv: "vset_inv (w_env W) S"
    and S: "rs_Votes cs = Some H" "HeightVoteSet_Precommits H (to_int (rs_CommitRound cs)) = Some S" "vs_maj23 S = Some bid"
      "vs_typeB S = VoteTypePrecommit"
    and b: "rs_ProposalBlock cs = Some b" "blk_Hash W b = Hash bid" "Hash bid \<noteq> []"
      "PartSet_HasHeader (rs_ProposalBlockParts cs) (PartsHeader bid)"
    and ok: "store_ok (cs_blockStore cs)" and v: "sa_Validators (cs_state cs) = Some v" "powers_ok v"
    and node: "cs_cm cs \<noteq> None" "cs_hm cs \<noteq> None" "rs_Height cs + 1 \<noteq> 0" "\<And>sigs. takes_block W (blk_SetSign W sigs b) cs"
    and step: "rs_Step cs = RoundStepCommit"
  shows "\<exists>sigs cs'. ConsensusState_finalizeCommit W (rs_Height cs) cs = Some cs' \<and> commits (blk_SetSign W sigs b) cs cs'"
proof -
  obtain sigs where sigs: "VoteSet_MakePbftSigns (w_env W) (Some S) (Hash bid) = Some (Inr sigs)"
    using MakePbftSigns_returns [OF inv S(3) b(3)] by blast
  let ?b = "blk_SetSign W sigs b" and ?cs = "sign_block W sigs b cs"
  note t = node(4) [of sigs, unfolded takes_block_def]
  have s: "switch_frame cs ?cs" "cs_cm ?cs = cs_cm cs" "cs_hm ?cs = cs_hm cs" by (simp_all add: sign_block_def Let_def switch_frame_def)
  then obtain cs0 where sw: "ConsensusState_swithResult W ?b ?cs = Some cs0" "switch_frame ?cs cs0"
    using swithResult_returns [of ?cs _ _ W ?b] node(1,2) by auto
  let ?cs1 = "cs0\<lparr>cs_agent := w_commit W ?b (cs_agent cs), cs_committed := cs_committed cs @ [?b]\<rparr>"
  have f: "rs_Votes ?cs1 = rs_Votes cs" "rs_CommitRound ?cs1 = rs_CommitRound cs" "cs_blockStore ?cs1 = cs_blockStore cs"
    "sa_Validators (cs_state ?cs1) = sa_Validators (cs_state cs)" "rs_Height ?cs1 = rs_Height cs" "cs_agent ?cs1 = w_commit W ?b (cs_agent cs)"
    "cs_committed ?cs1 = cs_committed cs @ [?b]" "cs_agent cs0 = cs_agent cs" "cs_committed cs0 = cs_committed cs"
    using s(1) sw(2) by (simp_all add: switch_frame_def)
  have err: "StateAgentImpl_ConsensusCommit (cs_agent cs) (Some ?b) = NoError"
    using t by (simp add: StateAgentImpl_ConsensusCommit_def agent_result_def)
  have eq: "ConsensusState_finalizeCommit W (rs_Height cs) cs = do {
       cs \<leftarrow> save_block ?b (rs_ProposalBlockParts cs) ?cs1;
       cs \<leftarrow> ConsensusState_updateToState W cs;
       Some (ConsensusState_scheduleRound0 W cs)
     }"
    unfolding ConsensusState_finalizeCommit_def
    by (simp add: step S b sigs sw(1) f err Let_def VoteSet_TwoThirdsMajority_def EqualHashes_def go_assert_def)
  from finish_returns [of ?cs1 H S bid v ?b "rs_ProposalBlockParts cs" W] S ok v t node(3)
  show ?thesis unfolding eq commits_def f by (auto simp: f)
qed

end
