(* ===== verification/Consensus_Run.thy ===== *)
theory Consensus_Run
  imports Consensus_Progress "HOL-Library.Code_Target_Nat"
begin

text \<open>
  Runs of the receive routine, and one that is evaluated: a committee of a single validator proposes a
  block, votes for it, locks it and commits it. The properties of the state machine are applied to the
  states of this run.
\<close>

section \<open>Runs\<close>

text \<open>A run of the receive routine whose inputs are checked against \<open>input_ok\<close>.\<close>

definition run_turns :: "'blk world \<Rightarrow> input list \<Rightarrow> 'blk ConsensusState \<Rightarrow> 'blk ConsensusState option" where
  "run_turns W = go_for (\<lambda>inp cs. do {
     go_assert (input_ok W inp cs \<and> unat (rs_Round cs) < max_round);
     ConsensusState_receiveRoutine W inp cs
   })"

lemma run_turns_reach: "run_turns W inps cs = Some cs' \<Longrightarrow> (cs_step W)\<^sup>*\<^sup>* cs cs'"
proof (induction inps arbitrary: cs)
  case (Cons inp inps)
  then obtain cs1 where "input_ok W inp cs" "unat (rs_Round cs) < max_round" "ConsensusState_receiveRoutine W inp cs = Some cs1"
    "run_turns W inps cs1 = Some cs'"
    by (auto simp: run_turns_def go_assert_def elim!: bind_eq_SomeE split: if_splits)
  then show ?case using Cons.IH by (meson converse_rtranclp_into_rtranclp cs_receive)
qed (simp add: run_turns_def)

lemma reachable_run:
  assumes W: "world_ok W" and v: "\<And>v. sa_Validators state = Some v \<Longrightarrow> committee_ok W v" and s: "store_fine W (sa_ChainID state) store"
    and new: "NewConsensusState W state A store = Some cs0" and reach: "(cs_step W)\<^sup>*\<^sup>* cs0 cs"
  shows "run_inv W cs"
proof -
  have "run_inv W cs0" by (rule postD [OF NewConsensusState_run [OF v s] new])
  then show ?thesis using csi.invar_reach [OF reach] W by blast
qed

section \<open>A committee of one\<close>

definition solo_agent :: "bytes agent" where
  "solo_agent = \<lparr>GetCurrentHeight = 0, FetchFastBlock = (\<lambda>_ _. (Some [9], NoError)),
     VerifyFastBlock = (\<lambda>b _. (Some \<lparr>FastHash = b, FastHeight = 1, sResult = 1, Sign = [7]\<rparr>, NoError)),
     BroadcastConsensus = (\<lambda>_. NoError), GetFastLastProposer = [], NumberU64 = (\<lambda>b. 1),
     rlpEncode = Some, rlpDecode = Some, aminoMarshal = Some, aminoUnmarshal = Some\<rparr>"

definition solo_config :: ConsensusConfig where
  "solo_config = \<lparr>cfg_Propose = (\<lambda>_. 1), cfg_Prevote = (\<lambda>_. 1), cfg_Precommit = (\<lambda>_. 1), cfg_Commit = (\<lambda>t. t),
     cfg_CatchupTime = (\<lambda>t. t), cfg_CreateEmptyBlocks = False, cfg_WaitForEmptyBlocks = (\<lambda>_. False),
     cfg_EmptyBlocksIntervalForPer = (\<lambda>_. 1), cfg_SkipTimeoutCommit = False\<rparr>"

definition solo_world :: "bytes world" where
  "solo_world = \<lparr>w_env = demo_env, w_keys = demo_keys\<lparr>keySign := (\<lambda>key _. Some key)\<rparr>, w_hash = demo_hash, w_now = int,
     w_commit = (\<lambda>b A. A\<lparr>GetCurrentHeight := Suc (GetCurrentHeight A)\<rparr>), w_config = solo_config,
     blk_Hash = (\<lambda>b. [3]), blk_Transactions = length, blk_IsProposal = (\<lambda>_. False), blk_SwitchInfos = (\<lambda>_. []),
     blk_SetSign = (\<lambda>_ b. b), w_committee = (\<lambda>vs. vs = Validators demo_vs)\<rparr>"

definition solo_state :: StateAgentImpl where
  "solo_state = StateAgentImpl_SetPrivValidator (NewPrivValidator [7])
     (NewStateAgent (hexEncode demo_env) solo_agent [] (Some demo_vs) 1 1)\<lparr>sa_EndHeight := 100\<rparr>"

text \<open>The state after the set-up of the node, and the inputs of the run: a timer and the own messages.\<close>

definition solo_setup :: "bytes ConsensusState \<Rightarrow> bytes ConsensusState" where
  "solo_setup cs = ConsensusState_SetCommitteeInfo (Some \<lparr>cm_StartHeight = 1, cm_Members = [], cm_BackMembers = []\<rparr>)
     (ConsensusState_SetHealthMgr (Some (NewHealthMgr True demo_members 1)) cs)"

definition solo_run :: "input list \<Rightarrow> bytes ConsensusState option" where
  "solo_run inps = do {
     cs \<leftarrow> NewConsensusState solo_world solo_state solo_agent [];
     (_, cs) \<leftarrow> ConsensusState_OnStart solo_world (solo_setup cs);
     run_turns solo_world inps cs
   }"

definition solo_inputs :: "input list" where
  "solo_inputs = Tock \<lparr>ti_Duration = 0, ti_Height = 1, ti_Round = 0, ti_Step = RoundStepNewHeight, ti_Wait = 1\<rparr> # replicate 3 (InternalQueue 0)"

lemma solo_world_ok: "world_ok solo_world"
  by (simp add: world_ok_def solo_world_def codec_ok_demo)

lemma solo_fine: "store_fine solo_world (sa_ChainID solo_state) []" "sa_Validators solo_state = Some v \<Longrightarrow> committee_ok solo_world v"
  using powers_ok_demo by (simp_all add: committee_ok_def solo_world_def store_fine_def solo_state_def StateAgentImpl_SetPrivValidator_def NewStateAgent_def store_ok_def)

lemma solo_reach:
  assumes "solo_run inps = Some cs"
  shows "\<exists>cs0. NewConsensusState solo_world solo_state solo_agent [] = Some cs0 \<and> (cs_step solo_world)\<^sup>*\<^sup>* cs0 cs"
proof -
  from assms obtain cs0 e cs1 where c: "NewConsensusState solo_world solo_state solo_agent [] = Some cs0"
    "ConsensusState_OnStart solo_world (solo_setup cs0) = Some (e, cs1)" "run_turns solo_world inps cs1 = Some cs"
    by (auto simp: solo_run_def elim!: bind_eq_SomeE)
  have "(cs_step solo_world)\<^sup>*\<^sup>* cs0 (solo_setup cs0)"
    unfolding solo_setup_def by (meson cs_committee cs_health r_into_rtranclp rtranclp_trans)
  also have "(cs_step solo_world)\<^sup>*\<^sup>* (solo_setup cs0) cs1" using cs_start [OF c(2)] by blast
  also have "(cs_step solo_world)\<^sup>*\<^sup>* cs1 cs" by (rule run_turns_reach [OF c(3)])
  finally show ?thesis using c(1) by blast
qed

text \<open>
  Four states of the run: the node has precommitted and is locked; the turn after that commits the
  block; a timeout instead leads to the next round; and the state just before the commit.
\<close>

definition solo_timeout :: input where
  "solo_timeout = Tock \<lparr>ti_Duration = 0, ti_Height = 1, ti_Round = 0, ti_Step = RoundStepPrecommitWait, ti_Wait = 1\<rparr>"

definition solo_demo :: "(bytes ConsensusState \<times> bytes ConsensusState \<times> bytes ConsensusState \<times> bytes ConsensusState) option" where
  "solo_demo = do {
     locked \<leftarrow> solo_run solo_inputs;
     committed \<leftarrow> run_turns solo_world [InternalQueue 0] locked;
     later \<leftarrow> run_turns solo_world [solo_timeout] locked;
     votes \<leftarrow> rs_Votes locked;
     (_, votes) \<leftarrow> (case map Msg (cs_internalMsgQueue locked) of
        VoteMessage (Some v) # _ \<Rightarrow> HeightVoteSet_AddVote demo_env v [] votes
      | _ \<Rightarrow> None);
     Some (locked, committed, later, locked\<lparr>rs_Votes := Some votes\<rparr>)
   }"

definition solo_majority :: "bytes ConsensusState \<Rightarrow> bool" where
  "solo_majority cs \<longleftrightarrow>
     (case rs_Votes cs of None \<Rightarrow> False | Some H \<Rightarrow> (case HeightVoteSet_Precommits H 0 of None \<Rightarrow> False | Some S \<Rightarrow>
       (case vs_maj23 S of None \<Rightarrow> False | Some bid \<Rightarrow> Hash bid = [3] \<and>
         PartSet_HasHeader (rs_ProposalBlockParts cs) (PartsHeader bid))))"

lemma solo_facts:
  "map_option (\<lambda>(locked, committed, later, ready).
     ((rs_Height locked, rs_Round locked, rs_Step locked, rs_LockedBlock locked,
       map (\<lambda>m. case Msg m of VoteMessage (Some v) \<Rightarrow> (Type v, Hash (vBlockID v)) | _ \<Rightarrow> (0, [])) (cs_internalMsgQueue locked)),
      (rs_Height committed, cs_committed committed, map fst (cs_blockStore committed)),
      (rs_Round later, rs_LockedBlock later, cs_committed later),
      (solo_majority ready, rs_ProposalBlock ready, rs_LockedBlockParts ready = rs_ProposalBlockParts ready,
       cs_cm ready = None, Option.is_none (cs_hm ready), sa_Validators (cs_state ready) = None, takes_block solo_world [9] ready, cs_committed ready))) solo_demo =
   Some ((1, 0, RoundStepPrecommit, Some [9], [(VoteTypePrecommit, [3])]), (2, [[9]], [1]), (1, Some [9], []),
     (True, Some [9], True, False, False, False, True, []))"
  by code_simp

end
