(* ===== verification/Consensus_Properties.thy ===== *)
theory Consensus_Properties
  imports Consensus_Run
begin

text \<open>
  What the consensus state machine promises: certified commits, well-formed round states, precommits
  and locks backed by prevotes, and the commit of a block that has its majority.
\<close>

section \<open>States of the run\<close>

lemma solo_states:
  obtains locked committed later ready where "solo_demo = Some (locked, committed, later, ready)"
    "rs_Height locked = 1" "rs_Round locked = 0" "rs_Step locked = RoundStepPrecommit" "rs_LockedBlock locked = Some [9]"
    "\<exists>m v. cs_internalMsgQueue locked = [m] \<and> Msg m = VoteMessage (Some v) \<and> Type v = VoteTypePrecommit \<and> Hash (vBlockID v) = [3]"
    "cs_committed committed = [[9]]" "map fst (cs_blockStore committed) = [1]"
    "rs_Round later = 1" "rs_LockedBlock later = Some [9]" "cs_committed later = []"
    "solo_majority ready" "rs_ProposalBlock ready = Some [9]" "rs_LockedBlockParts ready = rs_ProposalBlockParts ready"
    "cs_cm ready \<noteq> None" "cs_hm ready \<noteq> None" "sa_Validators (cs_state ready) \<noteq> None" "takes_block solo_world [9] ready" "cs_committed ready = []"
proof -
  obtain locked committed later ready where d: "solo_demo = Some (locked, committed, later, ready)"
    using solo_facts by (cases solo_demo) auto
  have q: "\<exists>m v. cs_internalMsgQueue locked = [m] \<and> Msg m = VoteMessage (Some v) \<and> Type v = VoteTypePrecommit \<and> Hash (vBlockID v) = [3]"
  proof -
    obtain m where m: "cs_internalMsgQueue locked = [m]" using solo_facts by (auto simp: d map_eq_Cons_conv)
    then show ?thesis using solo_facts by (cases "Msg m") (auto simp: d split: option.splits)
  qed
  show thesis by (rule that [OF d _ _ _ _ q]) (use solo_facts in \<open>simp_all add: d Option.is_none_def\<close>)
qed

lemma solo_demoD:
  assumes "solo_demo = Some (locked, committed, later, ready)"
  shows "solo_run solo_inputs = Some locked" "run_turns solo_world [InternalQueue 0] locked = Some committed"
    "run_turns solo_world [solo_timeout] locked = Some later"
    "\<exists>votes v r votes'. rs_Votes locked = Some votes \<and> HeightVoteSet_AddVote demo_env v [] votes = Some (r, votes') \<and>
       ready = locked\<lparr>rs_Votes := Some votes'\<rparr>"
  using assms unfolding solo_demo_def
  by (auto elim!: bind_eq_SomeE split: list.splits ConsensusMessage.splits option.splits) blast

lemma solo_locked_reach:
  assumes "solo_demo = Some (locked, committed, later, ready)"
  obtains cs0 where "NewConsensusState solo_world solo_state solo_agent [] = Some cs0"
    "(cs_step solo_world)\<^sup>*\<^sup>* cs0 locked" "(cs_step solo_world)\<^sup>*\<^sup>* cs0 committed" "run_inv solo_world locked"
proof -
  note d = solo_demoD [OF assms]
  obtain cs0 where cs0: "NewConsensusState solo_world solo_state solo_agent [] = Some cs0" "(cs_step solo_world)\<^sup>*\<^sup>* cs0 locked"
    using solo_reach [OF d(1)] by blast
  show thesis
    by (rule that [OF cs0 rtranclp_trans [OF cs0(2) run_turns_reach [OF d(2)]]
          reachable_run [OF solo_world_ok solo_fine(2) solo_fine(1) cs0]])
qed

section \<open>Commits\<close>

text \<open>Entering the commit step with the block, as the locked block or as the proposal.\<close>

lemma commit_block_held:
  assumes "hashes_to W (Some b) (Hash bid)"
    and "if hashes_to W (rs_LockedBlock cs) (Hash bid)
       then rs_LockedBlock cs = Some b \<and> PartSet_HasHeader (rs_LockedBlockParts cs) (PartsHeader bid)
       else rs_ProposalBlock cs = Some b \<and> PartSet_HasHeader (rs_ProposalBlockParts cs) (PartsHeader bid)"
  shows "\<exists>c. commit_block W bid cs = c \<and> rs_ProposalBlock c = Some b \<and> PartSet_HasHeader (rs_ProposalBlockParts c) (PartsHeader bid) \<and>
    (\<exists>x y. c = cs\<lparr>rs_ProposalBlock := x, rs_ProposalBlockParts := y\<rparr>)"
proof (cases "hashes_to W (rs_LockedBlock cs) (Hash bid)")
  case True
  then show ?thesis using assms by (auto simp: commit_block_def Let_def)
next
  case False
  then have "commit_block W bid cs = cs" using assms by (auto simp: commit_block_def Let_def)
  moreover have "\<exists>x y. cs = cs\<lparr>rs_ProposalBlock := x, rs_ProposalBlockParts := y\<rparr>"
    by (rule exI [of _ "rs_ProposalBlock cs"], rule exI [of _ "rs_ProposalBlockParts cs"]) simp
  ultimately show ?thesis using assms(2) False by auto
qed

text \<open>
  C1: commits are certified. In every state that a node reaches from its start, each block handed to the
  chain has, in the votes of one round of an elected committee, the precommits of a majority for its
  hash; and each stored block is stored with a commit that \<open>VerifyCommit\<close> accepts for that block and an
  elected committee.
\<close>

theorem commits_are_certified:
  assumes "world_ok W" "\<And>v. sa_Validators state = Some v \<Longrightarrow> committee_ok W v" "store_fine W (sa_ChainID state) store"
    and "NewConsensusState W state A store = Some cs0" "(cs_step W)\<^sup>*\<^sup>* cs0 cs"
  shows "(\<forall>b \<in> set (cs_committed cs). \<exists>H r bid. genuine W H \<and> has_maj H r VoteTypePrecommit bid \<and> Hash bid = blk_Hash W b) \<and>
    (\<forall>m \<in> snd ` set (cs_blockStore cs). Hash (bm_BlockID m) = blk_Hash W (bm_Block m) \<and>
       (\<exists>vs h. committee_ok W vs \<and>
          ValidatorSet_VerifyCommit (w_env W) vs (sa_ChainID (cs_state cs)) (bm_BlockID m) h (bm_SeenCommit m) = Some NoError))"
proof -
  have "log_ok W cs" using reachable_run [OF assms] by (simp add: run_inv_def cs_inv_def)
  then show ?thesis unfolding log_ok_def committed_ok_def stored_ok_def by fast
qed

theorem commits_are_certified_witness:
  "\<exists>(cs :: bytes ConsensusState) H r bid. cs_committed cs = [[9]] \<and> map fst (cs_blockStore cs) = [1] \<and>
     genuine solo_world H \<and> has_maj H r VoteTypePrecommit bid \<and> Hash bid = [3]"
proof (rule solo_states)
  fix locked committed later ready
  assume d: "solo_demo = Some (locked, committed, later, ready)" "cs_committed committed = [[9]]" "map fst (cs_blockStore committed) = [1]"
  obtain cs0 where "NewConsensusState solo_world solo_state solo_agent [] = Some cs0" "(cs_step solo_world)\<^sup>*\<^sup>* cs0 committed"
    by (rule solo_locked_reach [OF d(1)])
  from commits_are_certified [OF solo_world_ok solo_fine(2,1) this] d(2,3) show ?thesis
    by (auto simp: solo_world_def)
qed

text \<open>
  C2: a majority commits. A node that has not yet entered the commit step and holds, complete, the block
  for whose hash a majority precommitted, enters the commit without a panic: it hands the signed block
  to the chain, stores it under its height and starts the next height at round zero. The block may be
  the locked block, which then replaces whatever proposal the node has, or else the proposal. The node
  has been given its committee and its health manager; the chain takes the block, whatever switches of
  members it carries, and is then at the height of the block, which is above those stored.
\<close>

theorem majority_commits_block:
  assumes inv: "cs_inv W cs" and step: "rs_Step cs < RoundStepCommit"
    and votes: "rs_Votes cs = Some H" "has_maj H (to_int r) VoteTypePrecommit bid" "Hash bid \<noteq> []"
    and block: "blk_Hash W b = Hash bid"
      "if hashes_to W (rs_LockedBlock cs) (Hash bid)
       then rs_LockedBlock cs = Some b \<and> PartSet_HasHeader (rs_LockedBlockParts cs) (PartsHeader bid)
       else rs_ProposalBlock cs = Some b \<and> PartSet_HasHeader (rs_ProposalBlockParts cs) (PartsHeader bid)"
    and node: "cs_cm cs \<noteq> None" "cs_hm cs \<noteq> None" "sa_Validators (cs_state cs) \<noteq> None" "rs_Height cs + 1 \<noteq> 0"
      "\<And>sigs. takes_block W (blk_SetSign W sigs b) cs"
  shows "\<exists>sigs cs'. ConsensusState_enterCommit W (rs_Height cs) (to_int r) cs = Some cs' \<and> commits (blk_SetSign W sigs b) cs cs'"
proof -
  obtain v where v: "sa_Validators (cs_state cs) = Some v" using node(3) by blast
  have p: "powers_ok v" "store_ok (cs_blockStore cs)" and g: "hvs_inv (w_env W) H"
    using inv_parts [OF inv] v inv votes(1) by (auto simp: committee_ok_def log_ok_def cs_inv_def round_ok_def genuine_def)
  obtain S where S: "HeightVoteSet_Precommits H (to_int r) = Some S" "vs_maj23 S = Some bid"
    using votes(2) by (auto simp: has_maj_iff HeightVoteSet_Precommits_def)
  have m: "vset_inv (w_env W) S" "vs_typeB S = VoteTypePrecommit"
    using getVoteSet_member(1) [OF g, of "to_int r" VoteTypePrecommit S] S(1)
    by (simp_all add: HeightVoteSet_Precommits_def member_ok_def)
  have hb: "hashes_to W (Some b) (Hash bid)" using block(1) votes(3) by (simp add: hashes_to_iff)
  obtain c where c: "commit_block W bid cs = c" "rs_ProposalBlock c = Some b" "PartSet_HasHeader (rs_ProposalBlockParts c) (PartsHeader bid)"
    "\<exists>x y. c = cs\<lparr>rs_ProposalBlock := x, rs_ProposalBlockParts := y\<rparr>"
    using commit_block_held [OF hb block(2)] by blast
  then obtain x y where xy: "c = cs\<lparr>rs_ProposalBlock := x, rs_ProposalBlockParts := y\<rparr>" by blast
  let ?cs = "ConsensusState_newStep ((c\<lparr>rs_Step := RoundStepCommit, cs_clock := Suc (cs_clock cs)\<rparr>)
      \<lparr>rs_CommitRound := r, rs_CommitTime := Some (w_now W (cs_clock cs))\<rparr>)"
  have eq: "ConsensusState_enterCommit W (rs_Height cs) (to_int r) cs = ConsensusState_finalizeCommit W (rs_Height ?cs) ?cs"
    using step [folded linorder_not_le] S votes(1,3) c(1,2) hb xy
    by (simp add: ConsensusState_enterCommit_def VoteSet_TwoThirdsMajority_def go_assert_def ConsensusState_updateRoundStep_def
        time_Now_def ConsensusState_newStep_def ConsensusState_tryFinalizeCommit_def)
  have "\<exists>sigs cs'. ConsensusState_finalizeCommit W (rs_Height ?cs) ?cs = Some cs' \<and> commits (blk_SetSign W sigs b) ?cs cs'"
    by (rule finalizeCommit_returns [OF m(1) _ _ S(2) m(2), where H = H and v = v])
       (use votes S block(1) c node v p xy in \<open>simp_all add: ConsensusState_newStep_def takes_block_def\<close>)
  then show ?thesis unfolding eq using xy by (simp add: commits_def ConsensusState_newStep_def)
qed

theorem majority_commits_block_witness:
  "\<exists>cs cs'. rs_ProposalBlock cs = None \<and> ConsensusState_enterCommit solo_world (rs_Height cs) (to_int 0) cs = Some cs' \<and> cs_committed cs = [] \<and> commits [9] cs cs'"
proof (rule solo_states)
  fix locked committed later ready
  assume d: "solo_demo = Some (locked, committed, later, ready)" "rs_Height locked = 1" "rs_Step locked = RoundStepPrecommit"
      "rs_LockedBlock locked = Some [9]" and m: "solo_majority ready"
    and b: "rs_ProposalBlock ready = Some [9]" "rs_LockedBlockParts ready = rs_ProposalBlockParts ready"
      "cs_cm ready \<noteq> None" "cs_hm ready \<noteq> None" "sa_Validators (cs_state ready) \<noteq> None" "takes_block solo_world [9] ready" "cs_committed ready = []"
  obtain cs0 where "run_inv solo_world locked" by (rule solo_locked_reach [OF d(1)])
  then have i: "cs_inv solo_world locked" by (simp add: run_inv_def)
  obtain votes v r votes' where a: "rs_Votes locked = Some votes" "HeightVoteSet_AddVote demo_env v [] votes = Some (r, votes')"
    "ready = locked\<lparr>rs_Votes := Some votes'\<rparr>" using solo_demoD(4) [OF d(1)] by blast
  have w: "w_env solo_world = demo_env" by (simp add: solo_world_def)
  have "hvs_inv demo_env votes" using i a(1) by (auto simp: cs_inv_def round_ok_def genuine_def w)
  from HeightVoteSet_AddVote_inv [OF this, of v "[]"] a(2) have "hvs_round votes' = hvs_round votes" by auto
  with votes_step_good [OF i a(1), of votes'] a have inv: "cs_inv solo_world ready"
    using hvs_vote [OF a(2)] by (simp add: good_def w)
  obtain bid where bid: "has_maj votes' 0 VoteTypePrecommit bid" "Hash bid = [3]"
    "PartSet_HasHeader (rs_ProposalBlockParts ready) (PartsHeader bid)"
    using m a(3) by (auto simp: solo_majority_def has_maj_iff HeightVoteSet_Precommits_def split: option.splits)
  let ?cs = "ready\<lparr>rs_Proposal := None, rs_ProposalBlock := None, rs_ProposalBlockParts := None\<rparr>"
  have inv': "cs_inv solo_world ?cs"
    by (rule quiet_inv [OF set_proposal_quiet inv])
  have "\<exists>sigs cs'. ConsensusState_enterCommit solo_world (rs_Height ?cs) (to_int 0) ?cs = Some cs' \<and>
      commits (blk_SetSign solo_world sigs [9]) ?cs cs'"
    by (rule majority_commits_block [OF inv', where H = votes' and bid = bid])
       (use a b bid d in \<open>simp_all add: solo_world_def to_int_def hashes_to_iff takes_block_def\<close>)
  then obtain sigs cs' where c: "ConsensusState_enterCommit solo_world (rs_Height ?cs) (to_int 0) ?cs = Some cs'"
    "commits (blk_SetSign solo_world sigs [9]) ?cs cs'" by blast
  moreover have "blk_SetSign solo_world sigs [9] = [9]" by (simp add: solo_world_def)
  ultimately show ?thesis using b(7) by (intro exI [of _ ?cs] exI [of _ cs']) simp
qed

section \<open>Rounds, votes and locks\<close>

text \<open>
  C6: the round state is well formed. In every state that a node reaches from its start, the votes are
  those of the current height and of an elected committee, a height that has not started is in round
  zero, and the locked and the valid block, if there are any, have the prevotes of a majority at their
  round, which is not after the current one; a commit round has the precommits of a majority.
\<close>

theorem round_state_well_formed:
  assumes "world_ok W" "\<And>v. sa_Validators state = Some v \<Longrightarrow> committee_ok W v" "store_fine W (sa_ChainID state) store"
    and "NewConsensusState W state A store = Some cs0" "(cs_step W)\<^sup>*\<^sup>* cs0 cs"
  shows "\<exists>H. rs_Votes cs = Some H \<and> genuine W H \<and> hvs_height H = rs_Height cs \<and>
    (rs_Step cs = RoundStepNewHeight \<longrightarrow> rs_Round cs = 0) \<and>
    rs_LockedRound cs \<le> rs_Round cs \<and> rs_ValidRound cs \<le> rs_Round cs \<and>
    (\<forall>b. rs_LockedBlock cs = Some b \<longrightarrow> (\<exists>bid. has_maj H (to_int (rs_LockedRound cs)) VoteTypePrevote bid \<and> Hash bid = blk_Hash W b)) \<and>
    (\<forall>b. rs_ValidBlock cs = Some b \<longrightarrow> (\<exists>bid. has_maj H (to_int (rs_ValidRound cs)) VoteTypePrevote bid \<and> Hash bid = blk_Hash W b)) \<and>
    (rs_CommitRound cs \<noteq> - 1 \<longrightarrow> (\<exists>bid. has_maj H (to_int (rs_CommitRound cs)) VoteTypePrecommit bid))"
proof -
  obtain H where "round_ok W cs H" using reachable_run [OF assms] by (auto simp: run_inv_def cs_inv_def)
  then show ?thesis unfolding round_ok_def polka_for_def by (intro exI [of _ H]) blast
qed

theorem round_state_well_formed_witness:
  "\<exists>(cs :: bytes ConsensusState) H bid. rs_LockedBlock cs = Some [9] \<and> rs_Votes cs = Some H \<and>
     has_maj H (to_int (rs_LockedRound cs)) VoteTypePrevote bid \<and> Hash bid = [3]"
proof (rule solo_states)
  fix locked committed later ready
  assume d: "solo_demo = Some (locked, committed, later, ready)" "rs_LockedBlock locked = Some [9]"
  obtain cs0 where "NewConsensusState solo_world solo_state solo_agent [] = Some cs0" "(cs_step solo_world)\<^sup>*\<^sup>* cs0 locked"
    by (rule solo_locked_reach [OF d(1)])
  from round_state_well_formed [OF solo_world_ok solo_fine(2,1) this] d(2) show ?thesis
    by (auto simp: solo_world_def)
qed

text \<open>
  C3: a precommit needs a polka. In every state that a node reaches from its start, each precommit for a
  block that waits in the node's own queue was preceded, at its height and round, by the prevotes of a
  majority of an elected committee for that block.
\<close>

theorem precommit_needs_polka:
  assumes "world_ok W" "\<And>v. sa_Validators state = Some v \<Longrightarrow> committee_ok W v" "store_fine W (sa_ChainID state) store"
    and "NewConsensusState W state A store = Some cs0" "(cs_step W)\<^sup>*\<^sup>* cs0 cs"
    and "m \<in> set (cs_internalMsgQueue cs)" "Msg m = VoteMessage (Some v)" "Type v = VoteTypePrecommit" "Hash (vBlockID v) \<noteq> []"
  shows "\<exists>H. genuine W H \<and> hvs_height H = Height v \<and> has_maj H (to_int (Round v)) VoteTypePrevote (vBlockID v)"
proof -
  have "backed W (Msg m)" using reachable_run [OF assms(1-5)] assms(6) by (simp add: run_inv_def)
  then show ?thesis using assms(7-9) by simp
qed

theorem precommit_needs_polka_witness:
  "\<exists>(cs :: bytes ConsensusState) m v H. m \<in> set (cs_internalMsgQueue cs) \<and> Msg m = VoteMessage (Some v) \<and> Hash (vBlockID v) = [3] \<and>
     has_maj H (to_int (Round v)) VoteTypePrevote (vBlockID v)"
proof (rule solo_states)
  fix locked committed later ready
  assume d: "solo_demo = Some (locked, committed, later, ready)"
    and "\<exists>m v. cs_internalMsgQueue locked = [m] \<and> Msg m = VoteMessage (Some v) \<and> Type v = VoteTypePrecommit \<and> Hash (vBlockID v) = [3]"
  then obtain m v where m: "cs_internalMsgQueue locked = [m]" "Msg m = VoteMessage (Some v)" "Type v = VoteTypePrecommit" "Hash (vBlockID v) = [3]"
    by blast
  obtain cs0 where "NewConsensusState solo_world solo_state solo_agent [] = Some cs0" "(cs_step solo_world)\<^sup>*\<^sup>* cs0 locked"
    by (rule solo_locked_reach [OF d])
  from precommit_needs_polka [OF solo_world_ok solo_fine(2,1) this, of m v] m show ?thesis
    by (intro exI [of _ locked] exI [of _ m] exI [of _ v]) auto
qed

text \<open>
  C4: height, round, step and lock. A turn of the receive routine that hands no block to the chain and
  neither changes the committee nor runs the task that synchronises with the chain (each of these may
  start a height again) does not go back in the order of \<open>CompareHRS\<close>. It keeps a lock, on a block with
  the same hash, or the prevotes of a majority for something else have been seen at a round after that
  of the lock and not after the new round.
\<close>

theorem turn_keeps_lock:
  assumes "world_ok W" "cs_inv W cs" "input_ok W inp cs" "unat (rs_Round cs) < max_round"
    and turn: "ConsensusState_receiveRoutine W inp cs = Some cs'" "\<not> restarts inp cs" "cs_committed cs' = cs_committed cs"
  shows "CompareHRS (rs_Height cs) (rs_Round cs) (rs_Step cs) (rs_Height cs') (rs_Round cs') (rs_Step cs') \<le> 0 \<and>
    (\<forall>b. rs_LockedBlock cs = Some b \<longrightarrow>
       (\<exists>b'. rs_LockedBlock cs' = Some b' \<and> blk_Hash W b' = blk_Hash W b \<and> rs_LockedRound cs \<le> rs_LockedRound cs') \<or>
       (\<exists>H r bid. genuine W H \<and> hvs_height H = rs_Height cs \<and> has_maj H (to_int r) VoteTypePrevote bid \<and>
          Hash bid \<noteq> blk_Hash W b \<and> rs_LockedRound cs < r \<and> r \<le> rs_Round cs'))"
proof -
  have "ahead W cs cs'"
    using postD [OF receiveRoutine_turn [OF assms(1-4)] turn(1)] turn(2,3) by (auto simp: turn_def)
  then show ?thesis by (auto simp: ahead_def hrs_le_def lock_kept_def CompareHRS_def)
qed

theorem turn_keeps_lock_witness:
  "\<exists>(cs :: bytes ConsensusState) cs'. ConsensusState_receiveRoutine solo_world solo_timeout cs = Some cs' \<and>
     rs_LockedBlock cs = Some [9] \<and> rs_LockedBlock cs' = Some [9] \<and> rs_Round cs' = 1 \<and>
     CompareHRS (rs_Height cs) (rs_Round cs) (rs_Step cs) (rs_Height cs') (rs_Round cs') (rs_Step cs') \<le> 0"
proof (rule solo_states)
  fix locked committed later ready
  assume d: "solo_demo = Some (locked, committed, later, ready)" "rs_Round locked = 0" "rs_LockedBlock locked = Some [9]"
    "rs_Round later = 1" "rs_LockedBlock later = Some [9]" "cs_committed later = []"
  obtain cs0 where r: "run_inv solo_world locked" by (rule solo_locked_reach [OF d(1)])
  then have i: "cs_inv solo_world locked" by (simp add: run_inv_def)
  from solo_demoD(3) [OF d(1)] have t: "input_ok solo_world solo_timeout locked"
    "ConsensusState_receiveRoutine solo_world solo_timeout locked = Some later"
    by (auto simp: run_turns_def go_assert_def elim!: bind_eq_SomeE split: if_splits)
  have "turn solo_world (restarts solo_timeout locked) locked later"
    using postD [OF receiveRoutine_turn [OF solo_world_ok i t(1)] t(2)] d(2) by simp
  then have c: "cs_committed later = cs_committed locked" using d(6) by (auto simp: turn_def)
  have "\<not> restarts solo_timeout locked" by (simp add: solo_timeout_def)
  from turn_keeps_lock [OF solo_world_ok i t(1) _ t(2) this c] d(2-5) t(2) show ?thesis
    by (intro exI [of _ locked] exI [of _ later]) simp
qed

text \<open>
  C5: a locked node prevotes its lock. While a node is locked on a block, entering the prevote step keeps
  the lock and adds to its own queue only prevotes of the current height and round, for the hash of the
  locked block or for nil.
\<close>

theorem prevote_respects_lock:
  assumes "ConsensusState_enterPrevote W height rnd cs = Some cs'" and "rs_LockedBlock cs = Some b"
  shows "rs_LockedBlock cs' = Some b \<and> rs_LockedRound cs' = rs_LockedRound cs \<and>
    (\<exists>q. cs_internalMsgQueue cs' = cs_internalMsgQueue cs @ q \<and>
      (\<forall>m \<in> set q. \<exists>v. Msg m = VoteMessage (Some v) \<and> Type v = VoteTypePrevote \<and> Height v = rs_Height cs \<and> Round v = rs_Round cs \<and>
         (Hash (vBlockID v) = [] \<or> Hash (vBlockID v) = blk_Hash W b)))"
proof (cases "behind height rnd RoundStepPrevote cs")
  case True
  then show ?thesis using assms by (simp add: ConsensusState_enterPrevote_def)
next
  case False
  have sent: "\<exists>bid. votes_sent cs VoteTypePrevote bid cs1 \<and> (Hash bid = [] \<or> Hash bid = blk_Hash W b)"
    if "ConsensusState_defaultDoPrevote W height rnd cs = Some cs1" for cs1
    using that assms(2) postD [OF signAddVote_sent, of W VoteTypePrevote _ _ _ cs]
    by (fastforce simp: ConsensusState_defaultDoPrevote_def elim!: bind_eq_SomeE split: option.splits)
  from assms(1) False obtain cs1 where "ConsensusState_defaultDoPrevote W height rnd cs = Some cs1"
    "cs' = ConsensusState_newStep (ConsensusState_updateRoundStep rnd RoundStepPrevote cs1)"
    by (auto simp: ConsensusState_enterPrevote_def elim!: bind_eq_SomeE)
  with sent [of cs1] assms(2) show ?thesis
    by (fastforce simp: votes_sent_def ConsensusState_newStep_def ConsensusState_updateRoundStep_def)
qed

definition locked_state :: "bytes ConsensusState" where
  "locked_state = (zero_state solo_world solo_state solo_agent [])\<lparr>rs_Height := 1, rs_Validators := Some demo_vs, rs_LockedBlock := Some [9]\<rparr>"

theorem prevote_respects_lock_witness:
  "\<exists>cs' m v. ConsensusState_enterPrevote solo_world 1 0 locked_state = Some cs' \<and> rs_LockedBlock cs' = Some [9] \<and>
     cs_internalMsgQueue cs' = [m] \<and> Msg m = VoteMessage (Some v) \<and> Type v = VoteTypePrevote"
proof -
  have e: "map_option (\<lambda>cs. length (cs_internalMsgQueue cs)) (ConsensusState_enterPrevote solo_world 1 0 locked_state) = Some 1"
    by code_simp
  then obtain cs' where c: "ConsensusState_enterPrevote solo_world 1 0 locked_state = Some cs'" "length (cs_internalMsgQueue cs') = 1"
    by auto
  have "rs_LockedBlock locked_state = Some [9]" "cs_internalMsgQueue locked_state = []"
    by (simp_all add: locked_state_def zero_state_def)
  with prevote_respects_lock [OF c(1), of "[9]"] c show ?thesis by (auto simp: length_Suc_conv)
qed

section \<open>A commit without its block\<close>

text \<open>
  A node that enters the commit step without any block and without a part set sets up nothing to get
  the block: in that state every proposal and every block part that arrives leaves it as it is.
\<close>

theorem commit_without_block_stalls:
  assumes "rs_Votes cs = Some H" "has_maj H (to_int r) VoteTypePrecommit bid" "Hash bid \<noteq> []" "rs_Step cs < RoundStepCommit"
    and "rs_ProposalBlock cs = None" "rs_ProposalBlockParts cs = None" "rs_LockedBlock cs = None"
  shows "\<exists>cs'. ConsensusState_enterCommit W (rs_Height cs) (to_int r) cs = Some cs' \<and> rs_Step cs' = RoundStepCommit \<and>
    rs_CommitRound cs' = r \<and> rs_ProposalBlockParts cs' = None \<and>
    (\<forall>peer p h rnd part. ConsensusState_handleMsg W \<lparr>Msg = ProposalMessage p, PeerID = peer\<rparr> cs' = Some cs' \<and>
       ConsensusState_handleMsg W \<lparr>Msg = BlockPartMessage h rnd (Some part), PeerID = peer\<rparr> cs' = Some cs')"
proof -
  obtain S where S: "HeightVoteSet_Precommits H (to_int r) = Some S" "vs_maj23 S = Some bid"
    using assms(2) by (auto simp: has_maj_iff HeightVoteSet_Precommits_def)
  have n: "\<not> hashes_to W None (Hash bid)" by (simp add: hashes_to_iff)
  have c: "commit_block W bid cs = cs" using assms(5,7) n by (simp add: commit_block_def)
  let ?cs = "ConsensusState_newStep ((cs\<lparr>rs_Step := RoundStepCommit, cs_clock := Suc (cs_clock cs)\<rparr>)
      \<lparr>rs_CommitRound := r, rs_CommitTime := Some (w_now W (cs_clock cs))\<rparr>)"
  have "ConsensusState_enterCommit W (rs_Height cs) (to_int r) cs = Some ?cs"
    using assms(4) [folded linorder_not_le] S assms(1,5) n
    by (simp add: ConsensusState_enterCommit_def Let_def c VoteSet_TwoThirdsMajority_def go_assert_def ConsensusState_updateRoundStep_def
        time_Now_def ConsensusState_newStep_def ConsensusState_tryFinalizeCommit_def)
  moreover have "ConsensusState_handleMsg W \<lparr>Msg = ProposalMessage p, PeerID = peer\<rparr> ?cs = Some ?cs" for p peer
    by (simp add: ConsensusState_handleMsg_def ConsensusState_defaultSetProposal_def ConsensusState_newStep_def split: option.split)
  moreover have "ConsensusState_handleMsg W \<lparr>Msg = BlockPartMessage h rnd (Some part), PeerID = peer\<rparr> ?cs = Some ?cs" for h rnd part peer
    using assms(6) by (auto simp: ConsensusState_handleMsg_def ConsensusState_addProposalBlockPart_def ConsensusState_newStep_def)
  ultimately show ?thesis using assms(6) by (intro exI [of _ ?cs]) (simp add: ConsensusState_newStep_def)
qed

theorem commit_without_block_stalls_witness:
  "\<exists>(cs :: bytes ConsensusState) cs'. rs_Step cs = RoundStepPrecommit \<and>
     ConsensusState_enterCommit solo_world (rs_Height cs) (to_int 0) cs = Some cs' \<and> rs_Step cs' = RoundStepCommit \<and>
     (\<forall>part. ConsensusState_handleMsg solo_world \<lparr>Msg = BlockPartMessage 1 0 (Some part), PeerID = []\<rparr> cs' = Some cs')"
proof (rule solo_states)
  fix locked committed later ready
  assume d: "solo_demo = Some (locked, committed, later, ready)" "rs_Step locked = RoundStepPrecommit" and m: "solo_majority ready"
  then obtain H bid where H: "rs_Votes ready = Some H" "has_maj H 0 VoteTypePrecommit bid" "Hash bid = [3]"
    by (auto simp: solo_majority_def has_maj_iff HeightVoteSet_Precommits_def split: option.splits)
  let ?cs = "ready\<lparr>rs_ProposalBlock := None, rs_ProposalBlockParts := None, rs_LockedBlock := None\<rparr>"
  have s: "rs_Step ready = RoundStepPrecommit" using solo_demoD(4) [OF d(1)] d(2) by auto
  have z: "has_maj H (to_int 0) VoteTypePrecommit bid" using H(2) by (simp add: to_int_def)
  obtain cs' where "ConsensusState_enterCommit solo_world (rs_Height ?cs) (to_int 0) ?cs = Some cs'" "rs_Step cs' = RoundStepCommit"
    "\<And>part. ConsensusState_handleMsg solo_world \<lparr>Msg = BlockPartMessage 1 0 (Some part), PeerID = []\<rparr> cs' = Some cs'"
    using commit_without_block_stalls [of ?cs H 0 bid solo_world] H(1,3) z s by auto
  then show ?thesis using s by (intro exI [of _ ?cs] exI [of _ cs'] conjI allI) simp_all
qed

end
