(* ===== verification/Peer_State.thy ===== *)
theory Peer_State
  imports Consensus_State
begin

text \<open>
  What a node knows of a peer (\<^verbatim>\<open>reactor.go\<close>, \<^verbatim>\<open>types/peer_round_state.go\<close>): its height, round and step and,
  in bit arrays, the votes and block parts it has. Two fields may hold the same array, so the arrays
  stand in a store and the fields hold references into it.
\<close>

section \<open>State\<close>

type_synonym bits_ref = "nat option"

record PeerRoundState =
  prs_Height :: u64
  prs_Round :: u64
  prs_Step :: RoundStepType
  prs_StartTime :: int
  prs_Proposal :: bool
  prs_ProposalBlockPartsHeader :: PartSetHeader
  prs_ProposalBlockParts :: bits_ref
  prs_ProposalPOLRound :: u64
  prs_ProposalPOL :: bits_ref
  prs_Prevotes :: bits_ref
  prs_Precommits :: bits_ref
  prs_LastCommitRound :: u64
  prs_LastCommit :: bits_ref
  prs_CatchupCommitRound :: int
  prs_CatchupCommit :: bits_ref

record peerStateStats =
  LastVoteHeight :: u64
  stat_Votes :: u64
  LastBlockPartHeight :: u64
  BlockParts :: u64

record PeerState =
  ps_peer :: string
  PRS :: PeerRoundState
  Stats :: peerStateStats
  ps_arrays :: "BitArray list"

definition array_at :: "bits_ref \<Rightarrow> PeerState \<Rightarrow> BitArray option" where
  "array_at r ps = (case r of None \<Rightarrow> None | Some i \<Rightarrow> if i < length (ps_arrays ps) then Some (ps_arrays ps ! i) else None)"

definition new_array :: "BitArray option \<Rightarrow> PeerState \<Rightarrow> bits_ref \<times> PeerState" where
  "new_array b ps =
     (case b of
        None \<Rightarrow> (None, ps)
      | Some a \<Rightarrow> (Some (length (ps_arrays ps)), ps\<lparr>ps_arrays := ps_arrays ps @ [a]\<rparr>))"

definition write_array :: "bits_ref \<Rightarrow> BitArray option \<Rightarrow> PeerState \<Rightarrow> PeerState" where
  "write_array r b ps =
     (case (r, b) of (Some i, Some a) \<Rightarrow> ps\<lparr>ps_arrays := (ps_arrays ps)[i := a]\<rparr> | _ \<Rightarrow> ps)"

definition set_prs :: "(PeerRoundState \<Rightarrow> PeerRoundState) \<Rightarrow> PeerState \<Rightarrow> PeerState" where
  "set_prs f ps = ps\<lparr>PRS := f (PRS ps)\<rparr>"

definition NewPeerState :: "string \<Rightarrow> PeerState" where
  "NewPeerState peer =
     \<lparr>ps_peer = peer,
      PRS = \<lparr>prs_Height = 0, prs_Round = - 1, prs_Step = 0, prs_StartTime = 0, prs_Proposal = False,
        prs_ProposalBlockPartsHeader = zero_header, prs_ProposalBlockParts = None, prs_ProposalPOLRound = - 1,
        prs_ProposalPOL = None, prs_Prevotes = None, prs_Precommits = None, prs_LastCommitRound = - 1, prs_LastCommit = None,
        prs_CatchupCommitRound = - 1, prs_CatchupCommit = None\<rparr>,
      Stats = \<lparr>LastVoteHeight = 0, stat_Votes = 0, LastBlockPartHeight = 0, BlockParts = 0\<rparr>,
      ps_arrays = []\<rparr>"

definition PeerState_GetRoundState :: "PeerState \<Rightarrow> PeerRoundState" where
  "PeerState_GetRoundState ps = PRS ps"

definition PeerState_GetHeight :: "PeerState \<Rightarrow> u64" where
  "PeerState_GetHeight ps = prs_Height (PRS ps)"

section \<open>Proposals\<close>

definition PeerState_SetHasProposal :: "Proposal option \<Rightarrow> PeerState \<Rightarrow> PeerState option" where
  "PeerState_SetHasProposal proposal ps = do {
     p \<leftarrow> proposal;
     if prs_Height (PRS ps) \<noteq> pHeight p \<or> to_int (prs_Round (PRS ps)) \<noteq> to_int (pRound p) then Some ps
     else if prs_Proposal (PRS ps) then Some ps
     else do {
       let (r, ps) = new_array (NewBitArray (Total (BlockPartsHeader p))) ps;
       Some (set_prs (\<lambda>prs. prs\<lparr>prs_Proposal := True, prs_ProposalBlockPartsHeader := BlockPartsHeader p,
         prs_ProposalBlockParts := r, prs_ProposalPOLRound := POLRound p, prs_ProposalPOL := None\<rparr>) ps)
     }
   }"

definition PeerState_InitProposalBlockParts :: "PartSetHeader \<Rightarrow> PeerState \<Rightarrow> PeerState" where
  "PeerState_InitProposalBlockParts partsHeader ps =
     (if prs_ProposalBlockParts (PRS ps) \<noteq> None then ps
      else let (r, ps) = new_array (NewBitArray (Total partsHeader)) ps
           in set_prs (\<lambda>prs. prs\<lparr>prs_ProposalBlockPartsHeader := partsHeader, prs_ProposalBlockParts := r\<rparr>) ps)"

text \<open>The array may be one that the peer sent, whose words need not match its size: then the access panics.\<close>

definition set_bit_of :: "bits_ref \<Rightarrow> u64 \<Rightarrow> PeerState \<Rightarrow> PeerState option" where
  "set_bit_of r index ps = do {
     (_, b) \<leftarrow> BitArray_SetIndex (array_at r ps) index True;
     Some (write_array r b ps)
   }"

definition PeerState_SetHasProposalBlockPart :: "u64 \<Rightarrow> u64 \<Rightarrow> u64 \<Rightarrow> PeerState \<Rightarrow> PeerState option" where
  "PeerState_SetHasProposalBlockPart height rnd index ps =
     (if prs_Height (PRS ps) \<noteq> height \<or> prs_Round (PRS ps) \<noteq> rnd then Some ps
      else set_bit_of (prs_ProposalBlockParts (PRS ps)) index ps)"

section \<open>Votes\<close>

definition PeerState_getVoteBitArray :: "u64 \<Rightarrow> int \<Rightarrow> byte \<Rightarrow> PeerState \<Rightarrow> bits_ref" where
  "PeerState_getVoteBitArray height rnd typeB ps =
     (let prs = PRS ps
      in if \<not> IsVoteTypeValid typeB then None
         else if prs_Height prs = height then
           (if to_int (prs_Round prs) = rnd then (if typeB = VoteTypePrevote then prs_Prevotes prs else prs_Precommits prs)
            else if prs_CatchupCommitRound prs = rnd then (if typeB = VoteTypePrevote then None else prs_CatchupCommit prs)
            else if to_int (prs_ProposalPOLRound prs) = rnd then (if typeB = VoteTypePrevote then prs_ProposalPOL prs else None)
            else None)
         else if prs_Height prs = height + 1 then
           (if to_int (prs_LastCommitRound prs) = rnd then (if typeB = VoteTypePrevote then None else prs_LastCommit prs)
            else None)
         else None)"

definition PeerState_setHasVote :: "u64 \<Rightarrow> int \<Rightarrow> byte \<Rightarrow> u64 \<Rightarrow> PeerState \<Rightarrow> PeerState option" where
  "PeerState_setHasVote height rnd typeB index ps =
     (case PeerState_getVoteBitArray height rnd typeB ps of
        None \<Rightarrow> Some ps
      | Some i \<Rightarrow> set_bit_of (Some i) index ps)"

definition PeerState_SetHasVote :: "Vote option \<Rightarrow> PeerState \<Rightarrow> PeerState option" where
  "PeerState_SetHasVote vote ps = do {
     v \<leftarrow> vote;
     PeerState_setHasVote (Height v) (to_int (Round v)) (Type v) (ValidatorIndex v) ps
   }"

definition PeerState_ensureCatchupCommitRound :: "u64 \<Rightarrow> int \<Rightarrow> u64 \<Rightarrow> PeerState \<Rightarrow> PeerState" where
  "PeerState_ensureCatchupCommitRound height rnd numValidators ps =
     (if prs_Height (PRS ps) \<noteq> height then ps
      else if prs_CatchupCommitRound (PRS ps) = rnd then ps
      else let ps = set_prs (\<lambda>prs. prs\<lparr>prs_CatchupCommitRound := rnd\<rparr>) ps
           in if rnd = to_int (prs_Round (PRS ps)) then set_prs (\<lambda>prs. prs\<lparr>prs_CatchupCommit := prs_Precommits prs\<rparr>) ps
              else let (r, ps) = new_array (NewBitArray numValidators) ps
                   in set_prs (\<lambda>prs. prs\<lparr>prs_CatchupCommit := r\<rparr>) ps)"

text \<open>One field that is allocated if it is nil.\<close>

definition ensure_array ::
  "(PeerRoundState \<Rightarrow> bits_ref) \<Rightarrow> (bits_ref \<Rightarrow> PeerRoundState \<Rightarrow> PeerRoundState) \<Rightarrow> u64 \<Rightarrow> PeerState \<Rightarrow> PeerState" where
  "ensure_array get put n ps =
     (if get (PRS ps) \<noteq> None then ps
      else let (r, ps) = new_array (NewBitArray n) ps in set_prs (put r) ps)"

definition PeerState_ensureVoteBitArrays :: "u64 \<Rightarrow> u64 \<Rightarrow> PeerState \<Rightarrow> PeerState" where
  "PeerState_ensureVoteBitArrays height numValidators ps =
     (if prs_Height (PRS ps) = height then
        (let ps = ensure_array prs_Prevotes (\<lambda>r prs. prs\<lparr>prs_Prevotes := r\<rparr>) numValidators ps;
             ps = ensure_array prs_Precommits (\<lambda>r prs. prs\<lparr>prs_Precommits := r\<rparr>) numValidators ps;
             ps = ensure_array prs_CatchupCommit (\<lambda>r prs. prs\<lparr>prs_CatchupCommit := r\<rparr>) numValidators ps
         in ensure_array prs_ProposalPOL (\<lambda>r prs. prs\<lparr>prs_ProposalPOL := r\<rparr>) numValidators ps)
      else if prs_Height (PRS ps) = height + 1 then
        ensure_array prs_LastCommit (\<lambda>r prs. prs\<lparr>prs_LastCommit := r\<rparr>) numValidators ps
      else ps)"

definition PeerState_EnsureVoteBitArrays :: "u64 \<Rightarrow> u64 \<Rightarrow> PeerState \<Rightarrow> PeerState" where
  "PeerState_EnsureVoteBitArrays height numValidators ps = PeerState_ensureVoteBitArrays height numValidators ps"

text \<open>
  The interface of a vote set and of a commit. A commit caches its first vote and its bits, which it
  computes again here.
\<close>

datatype VoteSetReader = Votes_of "VoteSet option" | Commit_of Commit

fun reader_Height :: "VoteSetReader \<Rightarrow> u64 option" where
  "reader_Height (Votes_of S) = Some (VoteSet_Height S)"
| "reader_Height (Commit_of c) = map_option fst (Commit_Height c)"

fun reader_Round :: "VoteSetReader \<Rightarrow> int option" where
  "reader_Round (Votes_of S) = Some (VoteSet_Round S)"
| "reader_Round (Commit_of c) = map_option fst (Commit_Round c)"

fun reader_Type :: "VoteSetReader \<Rightarrow> byte" where
  "reader_Type (Votes_of S) = VoteSet_Type S"
| "reader_Type (Commit_of c) = Commit_Type c"

fun reader_Size :: "VoteSetReader \<Rightarrow> u64" where
  "reader_Size (Votes_of S) = VoteSet_Size S"
| "reader_Size (Commit_of c) = Commit_Size (Some c)"

fun reader_BitArray :: "VoteSetReader \<Rightarrow> BitArray option option" where
  "reader_BitArray (Votes_of S) = Some (VoteSet_BitArray S)"
| "reader_BitArray (Commit_of c) = map_option fst (Commit_BitArray c)"

fun reader_GetByIndex :: "VoteSetReader \<Rightarrow> u64 \<Rightarrow> Vote option option" where
  "reader_GetByIndex (Votes_of S) i = VoteSet_GetByIndex S i"
| "reader_GetByIndex (Commit_of c) i = Commit_GetByIndex c i"

fun reader_IsCommit :: "VoteSetReader \<Rightarrow> bool" where
  "reader_IsCommit (Votes_of S) = VoteSet_IsCommit S"
| "reader_IsCommit (Commit_of c) = Commit_IsCommit c"

text \<open>The random numbers that \<open>PickRandom\<close> draws are an argument.\<close>

type_synonym draws = "nat \<times> (nat \<Rightarrow> nat)"

definition PeerState_PickVoteToSend ::
  "draws \<Rightarrow> VoteSetReader \<Rightarrow> PeerState \<Rightarrow> ((Vote option \<times> bool) \<times> PeerState) option" where
  "PeerState_PickVoteToSend d votes ps =
     (if reader_Size votes = 0 then Some ((None, False), ps)
      else do {
        height \<leftarrow> reader_Height votes;
        rnd \<leftarrow> reader_Round votes;
        let typeB = reader_Type votes;
        let size = reader_Size votes;
        let ps = (if reader_IsCommit votes then PeerState_ensureCatchupCommitRound height rnd size ps else ps);
        let ps = PeerState_ensureVoteBitArrays height size ps;
        case PeerState_getVoteBitArray height rnd typeB ps of
          None \<Rightarrow> Some ((None, False), ps)
        | Some r \<Rightarrow> do {
            bits \<leftarrow> reader_BitArray votes;
            rest \<leftarrow> BitArray_Sub bits (array_at (Some r) ps);
            (index, ok) \<leftarrow> BitArray_PickRandom rest (fst d) (snd d);
            if ok then do {
              ps \<leftarrow> PeerState_setHasVote height rnd typeB index ps;
              vote \<leftarrow> reader_GetByIndex votes index;
              Some ((vote, True), ps)
            }
            else Some ((None, False), ps)
          }
      })"

text \<open>\<open>send\<close> encodes the message and hands it to the peer: what \<open>peer.Send\<close> returns, and what was handed over.\<close>

definition PeerState_PickSendVote ::
  "draws \<Rightarrow> (Vote \<Rightarrow> (bool \<times> 'o) option) \<Rightarrow> VoteSetReader \<Rightarrow> PeerState \<Rightarrow> ((bool \<times> 'o list) \<times> PeerState) option" where
  "PeerState_PickSendVote d send votes ps = do {
     ((vote, ok), ps) \<leftarrow> PeerState_PickVoteToSend d votes ps;
     if ok then do { v \<leftarrow> vote; (sent, out) \<leftarrow> send v; Some ((sent, [out]), ps) } else Some ((False, []), ps)
   }"

section \<open>Statistics\<close>

definition PeerState_RecordVote :: "Vote option \<Rightarrow> PeerState \<Rightarrow> (u64 \<times> PeerState) option" where
  "PeerState_RecordVote vote ps = do {
     v \<leftarrow> vote;
     if LastVoteHeight (Stats ps) \<ge> Height v then Some (stat_Votes (Stats ps), ps)
     else let stats = (Stats ps)\<lparr>LastVoteHeight := Height v, stat_Votes := stat_Votes (Stats ps) + 1\<rparr>
          in Some (stat_Votes stats, ps\<lparr>Stats := stats\<rparr>)
   }"

definition PeerState_VotesSent :: "PeerState \<Rightarrow> u64" where
  "PeerState_VotesSent ps = stat_Votes (Stats ps)"

definition PeerState_RecordBlockPart :: "u64 \<Rightarrow> PeerState \<Rightarrow> u64 \<times> PeerState" where
  "PeerState_RecordBlockPart height ps =
     (if LastBlockPartHeight (Stats ps) \<ge> height then (BlockParts (Stats ps), ps)
      else let stats = (Stats ps)\<lparr>LastBlockPartHeight := height, BlockParts := BlockParts (Stats ps) + 1\<rparr>
           in (BlockParts stats, ps\<lparr>Stats := stats\<rparr>))"

definition PeerState_BlockPartsSent :: "PeerState \<Rightarrow> u64" where
  "PeerState_BlockPartsSent ps = BlockParts (Stats ps)"

section \<open>Messages about the peer\<close>

record NewRoundStepMessage =
  nrs_Height :: u64
  nrs_Round :: u64
  nrs_Step :: RoundStepType
  nrs_SecondsSinceStartTime :: u64
  nrs_LastCommitRound :: u64

record CommitStepMessage =
  csm_Height :: u64
  csm_BlockPartsHeader :: PartSetHeader
  csm_BlockParts :: "BitArray option"

record ProposalPOLMessage =
  pol_Height :: u64
  pol_ProposalPOLRound :: u64
  pol_ProposalPOL :: "BitArray option"

record HasVoteMessage =
  hv_Height :: u64
  hv_Round :: u64
  hv_Type :: byte
  hv_Index :: u64

record VoteSetMaj23Message =
  m23_Height :: u64
  m23_Round :: u64
  m23_Type :: byte
  m23_BlockID :: BlockID

record VoteSetBitsMessage =
  vsb_Height :: u64
  vsb_Round :: u64
  vsb_Type :: byte
  vsb_BlockID :: BlockID
  vsb_Votes :: "BitArray option"

text \<open>\<open>now\<close> is the time, in nanoseconds; a \<open>Duration\<close> is a signed 64-bit number of them.\<close>

definition PeerState_ApplyNewRoundStepMessage :: "int \<Rightarrow> NewRoundStepMessage \<Rightarrow> PeerState \<Rightarrow> PeerState" where
  "PeerState_ApplyNewRoundStepMessage now msg ps =
     (let prs = PRS ps
      in if CompareHRS (nrs_Height msg) (nrs_Round msg) (nrs_Step msg) (prs_Height prs) (prs_Round prs) (prs_Step prs) \<le> 0 then ps
         else
           (let psHeight = prs_Height prs; psRound = prs_Round prs;
                psCatchupCommitRound = prs_CatchupCommitRound prs; psCatchupCommit = prs_CatchupCommit prs;
                startTime = now + wrap64 (wrap64 (- to_int (nrs_SecondsSinceStartTime msg)) * 1000000000);
                prs = prs\<lparr>prs_Height := nrs_Height msg, prs_Round := nrs_Round msg, prs_Step := nrs_Step msg, prs_StartTime := startTime\<rparr>;
                prs = (if psHeight \<noteq> nrs_Height msg \<or> psRound \<noteq> nrs_Round msg
                       then prs\<lparr>prs_Proposal := False, prs_ProposalBlockPartsHeader := zero_header, prs_ProposalBlockParts := None,
                                prs_ProposalPOLRound := - 1, prs_ProposalPOL := None, prs_Prevotes := None, prs_Precommits := None\<rparr>
                       else prs);
                prs = (if psHeight = nrs_Height msg \<and> psRound \<noteq> nrs_Round msg \<and> to_int (nrs_Round msg) = psCatchupCommitRound
                       then prs\<lparr>prs_Precommits := psCatchupCommit\<rparr> else prs);
                prs = (if psHeight \<noteq> nrs_Height msg
                       then (let prs = (if psHeight + 1 = nrs_Height msg \<and> psRound = nrs_LastCommitRound msg
                                        then prs\<lparr>prs_LastCommitRound := nrs_LastCommitRound msg, prs_LastCommit := prs_Precommits prs\<rparr>
                                        else prs\<lparr>prs_LastCommitRound := nrs_LastCommitRound msg, prs_LastCommit := None\<rparr>)
                             in prs\<lparr>prs_CatchupCommitRound := - 1, prs_CatchupCommit := None\<rparr>)
                       else prs)
            in ps\<lparr>PRS := prs\<rparr>))"

definition PeerState_ApplyCommitStepMessage :: "CommitStepMessage \<Rightarrow> PeerState \<Rightarrow> PeerState" where
  "PeerState_ApplyCommitStepMessage msg ps =
     (if prs_Height (PRS ps) \<noteq> csm_Height msg then ps
      else let (r, ps) = new_array (csm_BlockParts msg) ps
           in set_prs (\<lambda>prs. prs\<lparr>prs_ProposalBlockPartsHeader := csm_BlockPartsHeader msg, prs_ProposalBlockParts := r\<rparr>) ps)"

definition PeerState_ApplyProposalPOLMessage :: "ProposalPOLMessage \<Rightarrow> PeerState \<Rightarrow> PeerState" where
  "PeerState_ApplyProposalPOLMessage msg ps =
     (if prs_Height (PRS ps) \<noteq> pol_Height msg then ps
      else if prs_ProposalPOLRound (PRS ps) \<noteq> pol_ProposalPOLRound msg then ps
      else let (r, ps) = new_array (pol_ProposalPOL msg) ps in set_prs (\<lambda>prs. prs\<lparr>prs_ProposalPOL := r\<rparr>) ps)"

definition PeerState_ApplyHasVoteMessage :: "HasVoteMessage \<Rightarrow> PeerState \<Rightarrow> PeerState option" where
  "PeerState_ApplyHasVoteMessage msg ps =
     (if prs_Height (PRS ps) \<noteq> hv_Height msg then Some ps
      else PeerState_setHasVote (hv_Height msg) (to_int (hv_Round msg)) (hv_Type msg) (hv_Index msg) ps)"

definition PeerState_ApplyVoteSetBitsMessage :: "VoteSetBitsMessage \<Rightarrow> BitArray option \<Rightarrow> PeerState \<Rightarrow> PeerState option" where
  "PeerState_ApplyVoteSetBitsMessage msg ourVotes ps =
     (case PeerState_getVoteBitArray (vsb_Height msg) (to_int (vsb_Round msg)) (vsb_Type msg) ps of
        None \<Rightarrow> Some ps
      | Some r \<Rightarrow>
          (let votes = array_at (Some r) ps
           in if ourVotes = None then Some (write_array (Some r) (BitArray_Update votes (vsb_Votes msg)) ps)
              else do {
                otherVotes \<leftarrow> BitArray_Sub votes ourVotes;
                hasVotes \<leftarrow> BitArray_Or otherVotes (vsb_Votes msg);
                Some (write_array (Some r) (BitArray_Update votes hasVotes) ps)
              }))"

section \<open>What a peer lacks\<close>

text \<open>
  The arrays about votes and the size that each must have: \<open>n\<close> for the peer's height, \<open>m\<close> for the
  height before it. \<open>lacks\<close> bounds the number of votes that can still be sent to the peer: the bits that are
  not set, where an array that does not exist counts with all its bits, and once more the array for the round
  \<open>c\<close> of a commit, if the peer's array is for another one.
\<close>

definition vote_fields :: "u64 \<Rightarrow> u64 \<Rightarrow> ((PeerRoundState \<Rightarrow> bits_ref) \<times> u64) list" where
  "vote_fields n m = [(prs_Prevotes, n), (prs_Precommits, n), (prs_ProposalPOL, n), (prs_CatchupCommit, n), (prs_LastCommit, m)]"

definition ref_fits :: "u64 \<Rightarrow> bits_ref \<Rightarrow> PeerState \<Rightarrow> bool" where
  "ref_fits n r ps \<longleftrightarrow> r = None \<or> (\<exists>b. array_at r ps = Some b \<and> ba_wf b \<and> Bits b = n)"

definition fits :: "u64 \<Rightarrow> u64 \<Rightarrow> PeerState \<Rightarrow> bool" where
  "fits n m ps \<longleftrightarrow> (\<forall>(f, k) \<in> set (vote_fields n m). ref_fits k (f (PRS ps)) ps)"

definition zeros :: "BitArray \<Rightarrow> nat" where
  "zeros b = card {i. i < unat (Bits b) \<and> \<not> ba_bit b i}"

definition room :: "u64 \<Rightarrow> bits_ref \<Rightarrow> PeerState \<Rightarrow> nat" where
  "room n r ps = (case array_at r ps of None \<Rightarrow> unat n | Some b \<Rightarrow> zeros b)"

definition rooms :: "u64 \<Rightarrow> u64 \<Rightarrow> PeerState \<Rightarrow> nat" where
  "rooms n m ps = sum_list (map (\<lambda>(f, k). room k (f (PRS ps)) ps) (vote_fields n m))"

definition lacks :: "u64 \<Rightarrow> u64 \<Rightarrow> int \<Rightarrow> PeerState \<Rightarrow> nat" where
  "lacks n m c ps = rooms n m ps + (if prs_CatchupCommitRound (PRS ps) \<noteq> c then unat n else 0)"

text \<open>What the operations on the arrays keep: the peer's place and its proposal.\<close>

definition same_place :: "PeerRoundState \<Rightarrow> PeerRoundState \<Rightarrow> bool" where
  "same_place p q \<longleftrightarrow> prs_Height q = prs_Height p \<and> prs_Round q = prs_Round p \<and> prs_Step q = prs_Step p \<and>
     prs_ProposalPOLRound q = prs_ProposalPOLRound p \<and> prs_LastCommitRound q = prs_LastCommitRound p"

lemma same_place_refl [simp]: "same_place p p"
  by (simp add: same_place_def)

lemma same_place_trans: "same_place p q \<Longrightarrow> same_place q r \<Longrightarrow> same_place p r"
  by (simp add: same_place_def)

lemma array_at_None [simp]: "array_at None ps = None"
  by (simp add: array_at_def)

lemma array_at_set_prs [simp]: "array_at r (set_prs f ps) = array_at r ps"
  by (simp add: array_at_def set_prs_def split: option.splits)

lemma PRS_set_prs [simp]: "PRS (set_prs f ps) = f (PRS ps)"
  by (simp add: set_prs_def)

lemma PRS_write_array [simp]: "PRS (write_array r b ps) = PRS ps"
  by (simp add: write_array_def split: option.splits)

lemma ref_fits_None [simp]: "ref_fits n None ps"
  by (simp add: ref_fits_def)

lemma room_None [simp]: "room n None ps = unat n"
  by (simp add: room_def)

lemma ref_fits_set_prs [simp]: "ref_fits n r (set_prs f ps) = ref_fits n r ps"
  by (simp add: ref_fits_def)

lemma room_set_prs [simp]: "room n r (set_prs f ps) = room n r ps"
  by (simp add: room_def)

lemma zeros_le: "zeros b \<le> unat (Bits b)"
proof -
  have "zeros b \<le> card {..<unat (Bits b)}" unfolding zeros_def by (rule card_mono) auto
  then show ?thesis by simp
qed

lemma room_le: "ref_fits n r ps \<Longrightarrow> room n r ps \<le> unat n"
  by (auto simp: ref_fits_def room_def zeros_le)

lemma fits_fields:
  "fits n m ps \<longleftrightarrow> ref_fits n (prs_Prevotes (PRS ps)) ps \<and> ref_fits n (prs_Precommits (PRS ps)) ps \<and>
     ref_fits n (prs_ProposalPOL (PRS ps)) ps \<and> ref_fits n (prs_CatchupCommit (PRS ps)) ps \<and> ref_fits m (prs_LastCommit (PRS ps)) ps"
  by (simp add: fits_def vote_fields_def)

lemma rooms_fields:
  "rooms n m ps = room n (prs_Prevotes (PRS ps)) ps + room n (prs_Precommits (PRS ps)) ps + room n (prs_ProposalPOL (PRS ps)) ps +
     room n (prs_CatchupCommit (PRS ps)) ps + room m (prs_LastCommit (PRS ps)) ps"
  by (simp add: rooms_def vote_fields_def)

subsection \<open>Allocating an array\<close>

lemma new_array_PRS: "new_array b ps = (r, ps') \<Longrightarrow> PRS ps' = PRS ps"
  by (auto simp: new_array_def split: option.splits)

lemma new_array_old:
  assumes "new_array b ps = (r, ps')" "ref_fits n q ps"
  shows "ref_fits n q ps'" and "room n q ps' = room n q ps"
proof -
  have "array_at q ps' = array_at q ps"
    using assms by (cases q) (auto simp: new_array_def array_at_def ref_fits_def nth_append split: option.splits if_splits)
  then show "ref_fits n q ps'" "room n q ps' = room n q ps" using assms(2) by (simp_all add: ref_fits_def room_def)
qed

lemma new_array_fresh:
  assumes "new_array (NewBitArray n) ps = (r, ps')" "unat n < 2 ^ 63"
  shows "ref_fits n r ps'" and "room n r ps' \<le> unat n"
proof -
  show f: "ref_fits n r ps'"
  proof (cases "n = 0")
    case True
    then show ?thesis using assms(1) by (simp add: new_array_def NewBitArray_def)
  next
    case False
    then have "0 < unat n" by (simp add: unat_gt_0)
    then obtain b where "NewBitArray n = Some b" "ba_wf b" "Bits b = n" using assms(2) by (rule NewBitArray_wf) blast
    then show ?thesis using assms(1) by (auto simp: new_array_def ref_fits_def array_at_def)
  qed
  then show "room n r ps' \<le> unat n" by (rule room_le)
qed

lemma ensure_array_fits:
  assumes f: "fits n m ps" and k: "unat k < 2 ^ 63"
    and put: "\<And>r p f s. (f, s) \<in> set (vote_fields n m) \<Longrightarrow> f (put r p) = f p \<or> s = k \<and> f (put r p) = r \<and> f p = get p"
    and place: "\<And>r p. same_place p (put r p) \<and> prs_CatchupCommitRound (put r p) = prs_CatchupCommitRound p"
  shows "fits n m (ensure_array get put k ps)" and "lacks n m c (ensure_array get put k ps) \<le> lacks n m c ps"
    and "same_place (PRS ps) (PRS (ensure_array get put k ps))"
    and "prs_CatchupCommitRound (PRS (ensure_array get put k ps)) = prs_CatchupCommitRound (PRS ps)"
proof -
  obtain r ps' where n: "new_array (NewBitArray k) ps = (r, ps')" by fastforce
  have e: "ensure_array get put k ps = (if get (PRS ps) \<noteq> None then ps else set_prs (put r) ps')"
    by (simp add: ensure_array_def n)
  note P = new_array_PRS [OF n]
  have step: "ref_fits s (f (put r (PRS ps))) ps' \<and> room s (f (put r (PRS ps))) ps' \<le> room s (f (PRS ps)) ps"
    if "(f, s) \<in> set (vote_fields n m)" "get (PRS ps) = None" for f s
  proof -
    have "ref_fits s (f (PRS ps)) ps" using f that(1) by (auto simp: fits_def)
    from new_array_old [OF n this] new_array_fresh [OF n k] put [OF that(1), of r "PRS ps"] that(2) show ?thesis by auto
  qed
  show "fits n m (ensure_array get put k ps)" using f step by (auto simp: e fits_def P)
  have "rooms n m (set_prs (put r) ps') \<le> rooms n m ps" if "get (PRS ps) = None"
    unfolding rooms_def by (rule sum_list_mono) (use step that P in auto)
  then show "lacks n m c (ensure_array get put k ps) \<le> lacks n m c ps" using place by (auto simp: e lacks_def P)
  show "same_place (PRS ps) (PRS (ensure_array get put k ps))" using place by (simp add: e P)
  show "prs_CatchupCommitRound (PRS (ensure_array get put k ps)) = prs_CatchupCommitRound (PRS ps)"
    using place by (simp add: e P)
qed

text \<open>An operation that only adds to what is known of the peer.\<close>

definition adds :: "u64 \<Rightarrow> u64 \<Rightarrow> int \<Rightarrow> PeerState \<Rightarrow> PeerState \<Rightarrow> bool" where
  "adds n m c ps ps' \<longleftrightarrow> (fits n m ps \<longrightarrow> fits n m ps' \<and> lacks n m c ps' \<le> lacks n m c ps \<and> same_place (PRS ps) (PRS ps') \<and>
     (prs_CatchupCommitRound (PRS ps') = prs_CatchupCommitRound (PRS ps) \<or> prs_CatchupCommitRound (PRS ps') = c))"

lemma adds_refl [simp]: "adds n m c ps ps"
  by (simp add: adds_def)

lemma adds_trans: "adds n m c p q \<Longrightarrow> adds n m c q r \<Longrightarrow> adds n m c p r"
  unfolding adds_def by (metis order_trans same_place_trans)

lemma ensure_array_adds:
  assumes "unat k < 2 ^ 63"
    and "\<And>r p f s. (f, s) \<in> set (vote_fields n m) \<Longrightarrow> f (put r p) = f p \<or> s = k \<and> f (put r p) = r \<and> f p = get p"
    and "\<And>r p. same_place p (put r p) \<and> prs_CatchupCommitRound (put r p) = prs_CatchupCommitRound p"
  shows "adds n m c ps (ensure_array get put k ps)"
  unfolding adds_def using ensure_array_fits [OF _ assms] by blast

lemma ensureVoteBitArrays_adds:
  assumes h: "prs_Height (PRS ps) = height \<longrightarrow> k = n" and g: "prs_Height (PRS ps) = height + 1 \<longrightarrow> k = m"
    and k: "unat k < 2 ^ 63"
  shows "adds n m c ps (PeerState_ensureVoteBitArrays height k ps)"
proof -
  have a: "adds n m c p (ensure_array prs_Prevotes (\<lambda>r prs. prs\<lparr>prs_Prevotes := r\<rparr>) n p)"
    "adds n m c p (ensure_array prs_Precommits (\<lambda>r prs. prs\<lparr>prs_Precommits := r\<rparr>) n p)"
    "adds n m c p (ensure_array prs_CatchupCommit (\<lambda>r prs. prs\<lparr>prs_CatchupCommit := r\<rparr>) n p)"
    "adds n m c p (ensure_array prs_ProposalPOL (\<lambda>r prs. prs\<lparr>prs_ProposalPOL := r\<rparr>) n p)" if "unat n < 2 ^ 63" for p
    by (rule ensure_array_adds [OF that]; auto simp: vote_fields_def same_place_def)+
  have l: "adds n m c p (ensure_array prs_LastCommit (\<lambda>r prs. prs\<lparr>prs_LastCommit := r\<rparr>) m p)" if "unat m < 2 ^ 63" for p
    by (rule ensure_array_adds [OF that]) (auto simp: vote_fields_def same_place_def)
  note chain = adds_trans [OF adds_trans [OF adds_trans [OF a(1) a(2)] a(3)] a(4)]
  show ?thesis
    unfolding PeerState_ensureVoteBitArrays_def Let_def using h g k chain l by auto
qed

lemma ensureCatchupCommitRound_adds:
  assumes h: "prs_Height (PRS ps) = height \<longrightarrow> k = n \<and> rnd = c" and k: "unat k < 2 ^ 63"
  shows "adds n m c ps (PeerState_ensureCatchupCommitRound height rnd k ps)"
proof (cases "prs_Height (PRS ps) = height \<and> prs_CatchupCommitRound (PRS ps) \<noteq> c")
  case True
  then have hc: "k = n" "rnd = c" using h by auto
  let ?p = "set_prs (\<lambda>prs. prs\<lparr>prs_CatchupCommitRound := c\<rparr>) ps"
  obtain r ps' where n: "new_array (NewBitArray n) ?p = (r, ps')" by fastforce
  note P = new_array_PRS [OF n]
  have e: "PeerState_ensureCatchupCommitRound height rnd k ps =
    (if c = to_int (prs_Round (PRS ps)) then set_prs (\<lambda>prs. prs\<lparr>prs_CatchupCommit := prs_Precommits prs\<rparr>) ?p
     else set_prs (\<lambda>prs. prs\<lparr>prs_CatchupCommit := r\<rparr>) ps')"
    using True hc by (simp add: PeerState_ensureCatchupCommitRound_def n)
  have old: "ref_fits s q ps \<Longrightarrow> ref_fits s q ps' \<and> room s q ps' = room s q ps" for s q
    using new_array_old [OF n, of s q] by simp
  note fresh = new_array_fresh [OF n]
  have le: "ref_fits n (prs_Precommits (PRS ps)) ps \<Longrightarrow> room n (prs_Precommits (PRS ps)) ps \<le> unat n" by (rule room_le)
  have u: "unat n < 2 ^ 63" using k hc by simp
  show ?thesis
    unfolding adds_def e using True le old fresh [OF u] by (auto simp: fits_fields lacks_def rooms_fields P same_place_def)
next
  case False
  then show ?thesis using h by (auto simp: PeerState_ensureCatchupCommitRound_def)
qed

subsection \<open>Setting a bit\<close>

lemma zeros_set:
  assumes "Bits b' = Bits b" "k < unat (Bits b)" "\<not> ba_bit b k" "\<And>i. ba_bit b' i = (if i = k then True else ba_bit b i)"
  shows "zeros b' < zeros b"
proof -
  have "{i. i < unat (Bits b') \<and> \<not> ba_bit b' i} = {i. i < unat (Bits b) \<and> \<not> ba_bit b i} - {k}" using assms by auto
  then show ?thesis using assms(2,3) unfolding zeros_def by (intro psubset_card_mono) auto
qed

text \<open>Setting a bit that is not set leaves less room in every array that the reference reaches.\<close>

lemma set_bit_of_room:
  assumes a: "array_at (Some r) ps = Some b" and wf: "ba_wf b" and k: "unat index < unat (Bits b)" and z: "\<not> ba_bit b (unat index)"
  obtains ps' where "set_bit_of (Some r) index ps = Some ps'" and "PRS ps' = PRS ps"
    and "\<And>n q. ref_fits n q ps \<Longrightarrow> ref_fits n q ps' \<and> room n q ps' \<le> room n q ps"
    and "\<And>n. room n (Some r) ps' < room n (Some r) ps"
    and "\<exists>b'. array_at (Some r) ps' = Some b' \<and> Bits b' = Bits b \<and> (\<forall>i. ba_bit b' i \<longleftrightarrow> i = unat index \<or> ba_bit b i)"
proof -
  obtain b' where b': "BitArray_setIndex b index True = Some (unat index < unat (Bits b), b')" "ba_wf b'" "Bits b' = Bits b"
    "\<And>i. ba_bit b' i = (if i = unat index \<and> i < unat (Bits b) then True else ba_bit b i)"
    by (rule setIndex_total [OF wf, of index True], rule that; assumption)
  let ?ps' = "write_array (Some r) (Some b') ps"
  have r: "r < length (ps_arrays ps)" "ps_arrays ps ! r = b" using a by (auto simp: array_at_def split: if_splits)
  have zs: "zeros b' < zeros b" by (rule zeros_set [of _ _ "unat index"]) (use b' k z in auto)
  have at: "array_at q ?ps' = (if q = Some r then Some b' else array_at q ps)" for q
    using r by (auto simp: array_at_def write_array_def split: option.splits)
  show ?thesis
  proof (rule that)
    show "set_bit_of (Some r) index ps = Some ?ps'" by (simp add: set_bit_of_def a BitArray_SetIndex_def b'(1))
    show "ref_fits n q ?ps' \<and> room n q ?ps' \<le> room n q ps" if "ref_fits n q ps" for n q
      using that a b'(2,3) zs by (auto simp: ref_fits_def room_def at)
    show "room n (Some r) ?ps' < room n (Some r) ps" for n using a zs by (simp add: room_def at)
    show "\<exists>c. array_at (Some r) ?ps' = Some c \<and> Bits c = Bits b \<and> (\<forall>i. ba_bit c i \<longleftrightarrow> i = unat index \<or> ba_bit b i)"
      using b'(3,4) k by (auto simp: at)
  qed simp
qed

lemma getVoteBitArray_field:
  assumes "PeerState_getVoteBitArray height rnd typeB ps = Some r"
  shows "Some r \<in> {prs_Prevotes (PRS ps), prs_Precommits (PRS ps), prs_ProposalPOL (PRS ps), prs_CatchupCommit (PRS ps)} \<and>
      prs_Height (PRS ps) = height \<or> Some r = prs_LastCommit (PRS ps) \<and> prs_Height (PRS ps) = height + 1"
  using assms by (auto simp: PeerState_getVoteBitArray_def Let_def split: if_splits)

lemma getVoteBitArray_PRS: "PRS ps' = PRS ps \<Longrightarrow> PeerState_getVoteBitArray height rnd typeB ps' = PeerState_getVoteBitArray height rnd typeB ps"
  by (simp add: PeerState_getVoteBitArray_def)

text \<open>
  What is sent must be a set of votes with its bit array, and for the heights of which the peer's arrays speak
  it must have their size; a commit for the peer's height is for the round \<open>c\<close>.
\<close>

definition reader_ok :: "VoteSetReader \<Rightarrow> bool" where
  "reader_ok votes \<longleftrightarrow> reader_Height votes \<noteq> None \<and> reader_Round votes \<noteq> None \<and> unat (reader_Size votes) < 2 ^ 63 \<and>
     (\<exists>b. reader_BitArray votes = Some (Some b) \<and> ba_wf b \<and> Bits b = reader_Size votes \<and>
        (\<forall>i. ba_bit b (unat i) \<longrightarrow> (\<exists>v. reader_GetByIndex votes i = Some (Some v))))"

definition reader_fits :: "u64 \<Rightarrow> u64 \<Rightarrow> int \<Rightarrow> u64 \<Rightarrow> VoteSetReader \<Rightarrow> bool" where
  "reader_fits n m c h votes \<longleftrightarrow> reader_Size votes = 0 \<or>
     (reader_ok votes \<and>
      (reader_Height votes = Some h \<longrightarrow> reader_Size votes = n \<and> (reader_IsCommit votes \<longrightarrow> reader_Round votes = Some c)) \<and>
      (\<forall>g. reader_Height votes = Some g \<and> h = g + 1 \<longrightarrow> reader_Size votes = m))"

text \<open>The peer is known to have each of the votes, or they are none of those that it is asked about.\<close>

definition has_all :: "VoteSetReader \<Rightarrow> PeerState \<Rightarrow> bool" where
  "has_all votes ps \<longleftrightarrow>
     (\<forall>h rnd b r a. reader_Height votes = Some h \<longrightarrow> reader_Round votes = Some rnd \<longrightarrow> reader_BitArray votes = Some (Some b) \<longrightarrow>
        PeerState_getVoteBitArray h rnd (reader_Type votes) ps = Some r \<longrightarrow> array_at (Some r) ps = Some a \<longrightarrow>
        (\<forall>i. ba_bit b i \<longrightarrow> ba_bit a i))"

lemma PickVoteToSend_adds:
  assumes f: "fits n m ps" and v: "reader_fits n m c (prs_Height (PRS ps)) votes"
  shows "\<exists>vote ok ps'. PeerState_PickVoteToSend d votes ps = Some ((vote, ok), ps') \<and> adds n m c ps ps' \<and>
    (if ok then vote \<noteq> None \<and> lacks n m c ps' < lacks n m c ps else reader_Size votes \<noteq> 0 \<longrightarrow> has_all votes ps')"
proof (cases "reader_Size votes = 0")
  case True
  then show ?thesis by (intro exI [of _ None] exI [of _ False] exI [of _ ps]) (simp add: PeerState_PickVoteToSend_def)
next
  case False
  with v have ok: "reader_ok votes" by (simp add: reader_fits_def)
  then obtain h rnd b where h: "reader_Height votes = Some h" and rnd: "reader_Round votes = Some rnd"
    and b: "reader_BitArray votes = Some (Some b)" "ba_wf b" "Bits b = reader_Size votes"
      "\<And>i. ba_bit b (unat i) \<Longrightarrow> \<exists>v. reader_GetByIndex votes i = Some (Some v)" and s: "unat (reader_Size votes) < 2 ^ 63"
    unfolding reader_ok_def by auto
  have sz: "prs_Height (PRS ps) = h \<Longrightarrow> reader_Size votes = n \<and> (reader_IsCommit votes \<longrightarrow> rnd = c)"
    "prs_Height (PRS ps) = h + 1 \<Longrightarrow> reader_Size votes = m"
    using v False h rnd by (auto simp: reader_fits_def)
  let ?p1 = "if reader_IsCommit votes then PeerState_ensureCatchupCommitRound h rnd (reader_Size votes) ps else ps"
  define p2 where "p2 = PeerState_ensureVoteBitArrays h (reader_Size votes) ?p1"
  have a1: "adds n m c ps ?p1" using sz s by (auto intro!: ensureCatchupCommitRound_adds)
  then have "prs_Height (PRS ?p1) = prs_Height (PRS ps)" using f by (simp add: adds_def same_place_def)
  with sz s have "adds n m c ?p1 p2" unfolding p2_def by (intro ensureVoteBitArrays_adds) auto
  with a1 have a2: "adds n m c ps p2" by (rule adds_trans)
  with f have f2: "fits n m p2" and h2: "prs_Height (PRS p2) = prs_Height (PRS ps)" by (simp_all add: adds_def same_place_def)
  note run = False h rnd p2_def [symmetric]
  show ?thesis
  proof (cases "PeerState_getVoteBitArray h rnd (reader_Type votes) p2")
    case None
    then show ?thesis using a2
      by (intro exI [of _ None] exI [of _ False] exI [of _ p2]) (simp add: PeerState_PickVoteToSend_def run has_all_def)
  next
    case (Some r)
    note r = getVoteBitArray_field [OF Some]
    have "ref_fits (reader_Size votes) (Some r) p2" using r f2 sz unfolding h2 fits_fields by auto
    then obtain a where a: "array_at (Some r) p2 = Some a" "ba_wf a" "Bits a = reader_Size votes" by (auto simp: ref_fits_def)
    obtain e where e: "BitArray_Sub (Some b) (Some a) = Some (Some e)" "ba_wf e"
      "\<And>i. ba_bit e i \<longleftrightarrow> ba_bit b i \<and> \<not> ba_bit a i \<and>
        (if unat (Bits b) \<le> unat (Bits a) then i < unat (Bits b) else 64 * (length (Elems a) - 1) \<le> i)"
      by (rule sub_content [OF b(2) a(2)], rule that; assumption)
    have e': "ba_bit e i \<longleftrightarrow> ba_bit b i \<and> \<not> ba_bit a i" for i using e(3) [of i] by (auto simp: a(3) b(3) ba_bit_def)
    obtain idx picked where p: "BitArray_PickRandom (Some e) (fst d) (snd d) = Some (idx, picked)"
      "picked \<longleftrightarrow> (\<exists>i. ba_bit e i)" "picked \<Longrightarrow> ba_bit e (unat idx)"
      using PickRandom_bits [OF e(2), of "fst d" "snd d"] by blast
    note run = run Some a(1) b(1) e(1) p(1)
    show ?thesis
    proof (cases picked)
      case False
      have "has_all votes p2" using False p(2) e' by (simp add: has_all_def h rnd b(1) Some a(1))
      then show ?thesis using a2 False
        by (intro exI [of _ None] exI [of _ False] exI [of _ p2]) (simp add: PeerState_PickVoteToSend_def run)
    next
      case True
      have k: "unat idx < unat (Bits a)" "\<not> ba_bit a (unat idx)" "ba_bit b (unat idx)"
        using p(3) [OF True] e' [of "unat idx"] by (auto simp: ba_bit_def a(3) b(3))
      obtain vote where vote: "reader_GetByIndex votes idx = Some (Some vote)" using b(4) [OF k(3)] by blast
      obtain p3 where p3: "set_bit_of (Some r) idx p2 = Some p3" "PRS p3 = PRS p2"
        "\<And>n q. ref_fits n q p2 \<Longrightarrow> ref_fits n q p3 \<and> room n q p3 \<le> room n q p2" "\<And>n. room n (Some r) p3 < room n (Some r) p2"
        by (rule set_bit_of_room [OF a(1,2) k(1,2)], rule that; assumption)
      have le: "room n (prs_Prevotes (PRS p2)) p3 \<le> room n (prs_Prevotes (PRS p2)) p2"
        "room n (prs_Precommits (PRS p2)) p3 \<le> room n (prs_Precommits (PRS p2)) p2"
        "room n (prs_ProposalPOL (PRS p2)) p3 \<le> room n (prs_ProposalPOL (PRS p2)) p2"
        "room n (prs_CatchupCommit (PRS p2)) p3 \<le> room n (prs_CatchupCommit (PRS p2)) p2"
        "room m (prs_LastCommit (PRS p2)) p3 \<le> room m (prs_LastCommit (PRS p2)) p2"
        by (rule p3(3) [THEN conjunct2], use f2 in \<open>simp add: fits_fields\<close>)+
      have "rooms n m p3 < rooms n m p2"
        using r unfolding rooms_fields p3(2)
        by (elim disjE conjE insertE emptyE) (use le p3(4) [of n] p3(4) [of m] in \<open>simp_all\<close>)
      then have l: "lacks n m c p3 < lacks n m c p2" by (simp add: lacks_def p3(2))
      have "fits n m p3" using f2 by (simp add: fits_fields p3(2) p3(3))
      with l have "adds n m c p2 p3" by (simp add: adds_def p3(2))
      with a2 have a3: "adds n m c ps p3" by (rule adds_trans)
      have "lacks n m c p3 < lacks n m c ps" using l a2 f by (simp add: adds_def)
      then show ?thesis using a3 True
        by (intro exI [of _ "Some vote"] exI [of _ True] exI [of _ p3])
           (simp add: PeerState_PickVoteToSend_def run PeerState_setHasVote_def p3(1) vote)
    qed
  qed
qed

end
