(* ===== verification/Peer_Steps.thy ===== *)
theory Peer_Steps
  imports Peer_State
begin

text \<open>
  The peer states as a transition system: what every operation keeps. The arrays that record different things stay
  different objects, so that a vote that is recorded is recorded for its own height, round and type only, and the
  place of the peer does not go back.
\<close>

section \<open>Steps\<close>

text \<open>Everything that changes the state of a peer.\<close>

inductive peer_step :: "PeerState \<Rightarrow> PeerState \<Rightarrow> bool" where
  peer_proposal: "PeerState_SetHasProposal proposal ps = Some ps' \<Longrightarrow> peer_step ps ps'"
| peer_parts: "peer_step ps (PeerState_InitProposalBlockParts header ps)"
| peer_part: "PeerState_SetHasProposalBlockPart height rnd index ps = Some ps' \<Longrightarrow> peer_step ps ps'"
| peer_pick: "PeerState_PickVoteToSend d votes ps = Some (res, ps') \<Longrightarrow> peer_step ps ps'"
| peer_ensure: "peer_step ps (PeerState_EnsureVoteBitArrays height numValidators ps)"
| peer_vote: "PeerState_SetHasVote vote ps = Some ps' \<Longrightarrow> peer_step ps ps'"
| peer_record_vote: "PeerState_RecordVote vote ps = Some (k, ps') \<Longrightarrow> peer_step ps ps'"
| peer_record_part: "PeerState_RecordBlockPart height ps = (k, ps') \<Longrightarrow> peer_step ps ps'"
| peer_round_step: "peer_step ps (PeerState_ApplyNewRoundStepMessage now nrs ps)"
| peer_commit_step: "peer_step ps (PeerState_ApplyCommitStepMessage csm ps)"
| peer_pol: "peer_step ps (PeerState_ApplyProposalPOLMessage pol ps)"
| peer_has_vote: "PeerState_ApplyHasVoteMessage hv ps = Some ps' \<Longrightarrow> peer_step ps ps'"
| peer_bits: "PeerState_ApplyVoteSetBitsMessage vsb ourVotes ps = Some ps' \<Longrightarrow> peer_step ps ps'"

inductive_cases peer_stepE: "peer_step ps ps'"

text \<open>
  No array is the record of two things: the references are valid, no two fields share an array but the
  precommits and the commit to catch up with, and these only when they are about the same round.
\<close>

definition sep :: "bits_ref \<Rightarrow> bits_ref \<Rightarrow> bool" where
  "sep r q \<longleftrightarrow> r = None \<or> q = None \<or> r \<noteq> q"

definition below :: "nat \<Rightarrow> bits_ref \<Rightarrow> bool" where
  "below n r \<longleftrightarrow> (\<forall>i. r = Some i \<longrightarrow> i < n)"

definition refs_apart :: "nat \<Rightarrow> PeerRoundState \<Rightarrow> bool" where
  "refs_apart n p \<longleftrightarrow>
     below n (prs_ProposalBlockParts p) \<and> below n (prs_ProposalPOL p) \<and> below n (prs_Prevotes p) \<and>
     below n (prs_Precommits p) \<and> below n (prs_LastCommit p) \<and> below n (prs_CatchupCommit p) \<and>
     sep (prs_ProposalBlockParts p) (prs_ProposalPOL p) \<and> sep (prs_ProposalBlockParts p) (prs_Prevotes p) \<and>
     sep (prs_ProposalBlockParts p) (prs_Precommits p) \<and> sep (prs_ProposalBlockParts p) (prs_LastCommit p) \<and>
     sep (prs_ProposalBlockParts p) (prs_CatchupCommit p) \<and>
     sep (prs_ProposalPOL p) (prs_Prevotes p) \<and> sep (prs_ProposalPOL p) (prs_Precommits p) \<and>
     sep (prs_ProposalPOL p) (prs_LastCommit p) \<and> sep (prs_ProposalPOL p) (prs_CatchupCommit p) \<and>
     sep (prs_Prevotes p) (prs_Precommits p) \<and> sep (prs_Prevotes p) (prs_LastCommit p) \<and>
     sep (prs_Prevotes p) (prs_CatchupCommit p) \<and> sep (prs_Precommits p) (prs_LastCommit p) \<and>
     sep (prs_LastCommit p) (prs_CatchupCommit p) \<and>
     (sep (prs_Precommits p) (prs_CatchupCommit p) \<or> prs_CatchupCommitRound p = to_int (prs_Round p))"

definition apart :: "PeerState \<Rightarrow> bool" where
  "apart ps \<longleftrightarrow> refs_apart (length (ps_arrays ps)) (PRS ps)"

lemma sep_None [simp]: "sep None r" "sep r None"
  by (simp_all add: sep_def)

lemma below_None [simp]: "below n None"
  by (simp add: below_def)

lemma sep_sym: "sep r q \<Longrightarrow> sep q r"
  by (auto simp: sep_def)

lemma sep_Some: "sep r q \<Longrightarrow> r = Some i \<Longrightarrow> q \<noteq> Some i"
  by (auto simp: sep_def)

lemma apart_write [simp]: "apart (write_array r b ps) = apart ps"
  by (simp add: apart_def write_array_def split: option.splits)

text \<open>A new array may be put into any one field.\<close>

definition fresh_ref :: "nat \<Rightarrow> nat \<Rightarrow> bits_ref \<Rightarrow> bool" where
  "fresh_ref k n q \<longleftrightarrow> q = None \<and> n = k \<or> q = Some k \<and> n = Suc k"

lemma fresh_refD:
  assumes "fresh_ref k n q"
  shows "below n q" and "below k r \<Longrightarrow> below n r" and "below k r \<Longrightarrow> sep q r" and "below k r \<Longrightarrow> sep r q"
  using assms by (auto simp: fresh_ref_def below_def sep_def)

lemma refs_apart_put:
  assumes "refs_apart k p" "fresh_ref k n q"
  shows "refs_apart n (p\<lparr>prs_ProposalBlockParts := q\<rparr>)" and "refs_apart n (p\<lparr>prs_ProposalPOL := q\<rparr>)"
    and "refs_apart n (p\<lparr>prs_Prevotes := q\<rparr>)" and "refs_apart n (p\<lparr>prs_Precommits := q\<rparr>)"
    and "refs_apart n (p\<lparr>prs_LastCommit := q\<rparr>)" and "refs_apart n (p\<lparr>prs_CatchupCommit := q\<rparr>)"
    and "refs_apart n (p\<lparr>prs_CatchupCommitRound := c, prs_CatchupCommit := q\<rparr>)"
  using assms(1) unfolding refs_apart_def by (simp_all add: fresh_refD [OF assms(2)])

lemma refs_apart_other [simp]:
  "refs_apart n (p\<lparr>prs_Proposal := a\<rparr>) = refs_apart n p" "refs_apart n (p\<lparr>prs_ProposalBlockPartsHeader := h\<rparr>) = refs_apart n p"
  "refs_apart n (p\<lparr>prs_ProposalPOLRound := r\<rparr>) = refs_apart n p"
  by (simp_all add: refs_apart_def)

lemma refs_apart_no_POL: "refs_apart n p \<Longrightarrow> refs_apart n (p\<lparr>prs_ProposalPOL := None\<rparr>)"
  by (simp add: refs_apart_def)

lemma new_array_fresh_ref:
  assumes "new_array b ps = (r, ps')"
  shows "fresh_ref (length (ps_arrays ps)) (length (ps_arrays ps')) r"
  using assms by (cases b) (auto simp: new_array_def fresh_ref_def)

lemma apart_new:
  assumes n: "new_array b ps = (r, ps')" and a: "apart ps"
    and f: "\<And>k n q. refs_apart k (PRS ps) \<Longrightarrow> fresh_ref k n q \<Longrightarrow> refs_apart n (f q (PRS ps))"
  shows "apart (set_prs (f r) ps')"
proof -
  have "apart (set_prs (f r) ps') = refs_apart (length (ps_arrays ps')) (f r (PRS ps))"
    by (simp add: apart_def set_prs_def new_array_PRS [OF n])
  then show ?thesis using f [OF _ new_array_fresh_ref [OF n]] a by (simp add: apart_def)
qed

lemma ensure_array_apart:
  assumes "apart ps" and "\<And>k n q p. refs_apart k p \<Longrightarrow> fresh_ref k n q \<Longrightarrow> refs_apart n (put q p)"
  shows "apart (ensure_array get put n ps)"
proof -
  obtain r ps' where "new_array (NewBitArray n) ps = (r, ps')" by fastforce
  then show ?thesis using apart_new [of "NewBitArray n" ps r ps' put] assms by (auto simp: ensure_array_def)
qed

lemma set_bit_of_apart: "set_bit_of r index ps = Some ps' \<Longrightarrow> (apart ps \<longrightarrow> apart ps') \<and> PRS ps' = PRS ps"
  by (auto simp: set_bit_of_def elim!: bind_eq_SomeE)

lemma setHasVote_apart: "PeerState_setHasVote h r t i ps = Some ps' \<Longrightarrow> (apart ps \<longrightarrow> apart ps') \<and> PRS ps' = PRS ps"
  by (auto simp: PeerState_setHasVote_def dest: set_bit_of_apart split: option.splits)

lemma ensureVoteBitArrays_apart [simp]:
  assumes "apart ps"
  shows "apart (PeerState_ensureVoteBitArrays h n ps)"
  unfolding PeerState_ensureVoteBitArrays_def Let_def
  by (auto intro!: ensure_array_apart assms elim: refs_apart_put)

lemma ensureCatchupCommitRound_apart [simp]:
  assumes "apart ps"
  shows "apart (PeerState_ensureCatchupCommitRound h rnd n ps)"
proof -
  let ?p = "set_prs (\<lambda>prs. prs\<lparr>prs_CatchupCommitRound := rnd\<rparr>) ps"
  obtain r ps' where n: "new_array (NewBitArray n) ?p = (r, ps')" by fastforce
  have "refs_apart (length (ps_arrays ps)) (PRS ps)" using assms by (simp add: apart_def)
  from refs_apart_put(7) [OF this, of "length (ps_arrays ps')" r rnd] new_array_fresh_ref [OF n]
  have "apart (set_prs (\<lambda>prs. prs\<lparr>prs_CatchupCommit := r\<rparr>) ps')"
    using new_array_PRS [OF n] by (simp add: apart_def set_prs_def)
  moreover have "apart (set_prs (\<lambda>prs. prs\<lparr>prs_CatchupCommit := prs_Precommits prs\<rparr>) ?p)" if "rnd = to_int (prs_Round (PRS ps))"
    using assms that by (simp add: apart_def set_prs_def refs_apart_def sep_sym)
  ultimately show ?thesis using assms n by (simp add: PeerState_ensureCatchupCommitRound_def Let_def)
qed

lemma PickVoteToSend_apart: "PeerState_PickVoteToSend d votes ps = Some (res, ps') \<Longrightarrow> apart ps \<Longrightarrow> apart ps'"
  by (auto simp: PeerState_PickVoteToSend_def Let_def dest!: setHasVote_apart elim!: bind_eq_SomeE split: if_splits option.splits)

lemma CompareHRS_le:
  "CompareHRS h1 r1 s1 h2 r2 s2 \<le> 0 \<longleftrightarrow> h1 < h2 \<or> h1 = h2 \<and> (r1 < r2 \<or> r1 = r2 \<and> s1 \<le> s2)"
  by (auto simp: CompareHRS_def)

text \<open>The four cases of \<open>ApplyNewRoundStepMessage\<close>.\<close>

lemma ApplyNewRoundStepMessage_cases:
  fixes ps :: PeerState and msg :: NewRoundStepMessage
  defines "p \<equiv> PRS ps"
  obtains (ignored) "CompareHRS (nrs_Height msg) (nrs_Round msg) (nrs_Step msg) (prs_Height p) (prs_Round p) (prs_Step p) \<le> 0"
      "PeerState_ApplyNewRoundStepMessage now msg ps = ps"
  | (height) t where "prs_Height p < nrs_Height msg"
      "PeerState_ApplyNewRoundStepMessage now msg ps = ps\<lparr>PRS :=
         \<lparr>prs_Height = nrs_Height msg, prs_Round = nrs_Round msg, prs_Step = nrs_Step msg, prs_StartTime = t, prs_Proposal = False,
          prs_ProposalBlockPartsHeader = zero_header, prs_ProposalBlockParts = None, prs_ProposalPOLRound = - 1, prs_ProposalPOL = None,
          prs_Prevotes = None, prs_Precommits = None, prs_LastCommitRound = nrs_LastCommitRound msg, prs_LastCommit = None,
          prs_CatchupCommitRound = - 1, prs_CatchupCommit = None\<rparr>\<rparr>"
  | (rnd) t where "nrs_Height msg = prs_Height p" "prs_Round p < nrs_Round msg"
      "PeerState_ApplyNewRoundStepMessage now msg ps = ps\<lparr>PRS :=
         p\<lparr>prs_Round := nrs_Round msg, prs_Step := nrs_Step msg, prs_StartTime := t, prs_Proposal := False,
           prs_ProposalBlockPartsHeader := zero_header, prs_ProposalBlockParts := None, prs_ProposalPOLRound := - 1, prs_ProposalPOL := None,
           prs_Prevotes := None,
           prs_Precommits := (if to_int (nrs_Round msg) = prs_CatchupCommitRound p then prs_CatchupCommit p else None)\<rparr>\<rparr>"
  | (step) t where "nrs_Height msg = prs_Height p" "nrs_Round msg = prs_Round p" "prs_Step p < nrs_Step msg"
      "PeerState_ApplyNewRoundStepMessage now msg ps = ps\<lparr>PRS := p\<lparr>prs_Step := nrs_Step msg, prs_StartTime := t\<rparr>\<rparr>"
proof -
  let ?t = "now + wrap64 (wrap64 (- to_int (nrs_SecondsSinceStartTime msg)) * 1000000000)"
  note d = PeerState_ApplyNewRoundStepMessage_def Let_def CompareHRS_def p_def
  consider "CompareHRS (nrs_Height msg) (nrs_Round msg) (nrs_Step msg) (prs_Height p) (prs_Round p) (prs_Step p) \<le> 0"
    | "prs_Height p < nrs_Height msg" | "nrs_Height msg = prs_Height p" "prs_Round p < nrs_Round msg"
    | "nrs_Height msg = prs_Height p" "nrs_Round msg = prs_Round p" "prs_Step p < nrs_Step msg"
    unfolding CompareHRS_le by (metis linorder_less_linear linorder_not_le)
  then show ?thesis
  proof cases
    case 1
    then show ?thesis by (intro ignored) (simp_all add: PeerState_ApplyNewRoundStepMessage_def p_def)
  next
    case 2
    then show ?thesis by (intro height [of ?t]) (auto simp: d)
  next
    case 3
    then show ?thesis by (intro rnd [of ?t]) (auto simp: d)
  next
    case 4
    then show ?thesis by (intro step [of ?t]) (auto simp: d)
  qed
qed

lemma ApplyNewRoundStepMessage_apart:
  assumes "apart ps"
  shows "apart (PeerState_ApplyNewRoundStepMessage now msg ps)"
proof (cases rule: ApplyNewRoundStepMessage_cases [of msg ps now])
  case (rnd t)
  then show ?thesis using assms by (simp add: apart_def refs_apart_def sep_sym)
qed (use assms in \<open>simp_all add: apart_def refs_apart_def\<close>)

lemma peer_step_apart: "peer_step ps ps' \<Longrightarrow> apart ps \<Longrightarrow> apart ps'"
proof (induction rule: peer_step.induct)
  case (peer_proposal proposal ps ps')
  show ?case
  proof (cases proposal)
    case (Some a)
    obtain r q where n: "new_array (NewBitArray (Total (BlockPartsHeader a))) ps = (r, q)" by fastforce
    have "apart (set_prs ((\<lambda>r prs. prs\<lparr>prs_Proposal := True, prs_ProposalBlockPartsHeader := BlockPartsHeader a,
         prs_ProposalBlockParts := r, prs_ProposalPOLRound := POLRound a, prs_ProposalPOL := None\<rparr>) r) q)"
      by (rule apart_new [OF n peer_proposal(2)]) (simp add: refs_apart_put refs_apart_no_POL)
    then show ?thesis using peer_proposal n Some by (auto simp: PeerState_SetHasProposal_def split: if_splits)
  qed (use peer_proposal in \<open>simp add: PeerState_SetHasProposal_def\<close>)
next
  case (peer_parts ps header)
  obtain r q where n: "new_array (NewBitArray (Total header)) ps = (r, q)" by fastforce
  have "apart (set_prs ((\<lambda>r prs. prs\<lparr>prs_ProposalBlockPartsHeader := header, prs_ProposalBlockParts := r\<rparr>) r) q)"
    by (rule apart_new [OF n peer_parts]) (simp add: refs_apart_put)
  then show ?case using peer_parts n by (simp add: PeerState_InitProposalBlockParts_def)
next
  case (peer_commit_step ps csm)
  obtain r q where n: "new_array (csm_BlockParts csm) ps = (r, q)" by fastforce
  have "apart (set_prs ((\<lambda>r prs. prs\<lparr>prs_ProposalBlockPartsHeader := csm_BlockPartsHeader csm, prs_ProposalBlockParts := r\<rparr>) r) q)"
    by (rule apart_new [OF n peer_commit_step]) (simp add: refs_apart_put)
  then show ?case using peer_commit_step n by (simp add: PeerState_ApplyCommitStepMessage_def)
next
  case (peer_pol ps pol)
  obtain r q where n: "new_array (pol_ProposalPOL pol) ps = (r, q)" by fastforce
  have "apart (set_prs ((\<lambda>r prs. prs\<lparr>prs_ProposalPOL := r\<rparr>) r) q)"
    by (rule apart_new [OF n peer_pol]) (simp add: refs_apart_put)
  then show ?case using peer_pol n by (simp add: PeerState_ApplyProposalPOLMessage_def)
next
  case (peer_bits vsb ourVotes ps ps')
  then show ?case
    by (auto simp: PeerState_ApplyVoteSetBitsMessage_def Let_def elim!: bind_eq_SomeE split: option.splits if_splits)
next
  case (peer_record_vote vote ps k ps')
  then show ?case by (auto simp: PeerState_RecordVote_def Let_def apart_def elim!: bind_eq_SomeE split: if_splits)
next
  case (peer_record_part height ps k ps')
  then show ?case by (auto simp: PeerState_RecordBlockPart_def Let_def apart_def split: if_splits)
next
  case (peer_vote vote ps ps')
  then show ?case by (auto simp: PeerState_SetHasVote_def dest!: setHasVote_apart elim!: bind_eq_SomeE)
qed (auto simp: PeerState_SetHasProposalBlockPart_def PeerState_EnsureVoteBitArrays_def PeerState_ApplyHasVoteMessage_def
    ApplyNewRoundStepMessage_apart dest: set_bit_of_apart setHasVote_apart PickVoteToSend_apart split: if_splits)

text \<open>The place of the peer does not go back.\<close>

definition hrs :: "PeerState \<Rightarrow> u64 \<times> u64 \<times> RoundStepType" where
  "hrs ps = (prs_Height (PRS ps), prs_Round (PRS ps), prs_Step (PRS ps))"

lemma hrs_set_prs:
  "hrs (set_prs f ps) = (prs_Height (f (PRS ps)), prs_Round (f (PRS ps)), prs_Step (f (PRS ps)))"
  by (simp add: hrs_def)

lemma hrs_PRS: "PRS ps' = PRS ps \<Longrightarrow> hrs ps' = hrs ps"
  by (simp add: hrs_def)

lemma hrs_new: "new_array b ps = (r, ps') \<Longrightarrow> hrs ps' = hrs ps"
  by (rule hrs_PRS) (rule new_array_PRS)

lemma ensureVoteBitArrays_hrs [simp]: "hrs (PeerState_ensureVoteBitArrays h n ps) = hrs ps"
proof -
  have "hrs (ensure_array get put n p) = hrs p"
    if "\<And>r q. prs_Height (put r q) = prs_Height q \<and> prs_Round (put r q) = prs_Round q \<and> prs_Step (put r q) = prs_Step q" for get put p
    using that by (auto simp: ensure_array_def hrs_set_prs dest!: new_array_PRS split: prod.splits) (simp_all add: hrs_def)
  then show ?thesis by (simp add: PeerState_ensureVoteBitArrays_def Let_def)
qed

lemma ensureCatchupCommitRound_hrs [simp]: "hrs (PeerState_ensureCatchupCommitRound h rnd n ps) = hrs ps"
  by (auto simp: PeerState_ensureCatchupCommitRound_def Let_def hrs_def dest!: new_array_PRS split: prod.splits)

lemma setHasVote_hrs: "PeerState_setHasVote h r t i ps = Some ps' \<Longrightarrow> hrs ps' = hrs ps"
  by (rule hrs_PRS) (simp add: setHasVote_apart)

lemma PickVoteToSend_hrs: "PeerState_PickVoteToSend d votes ps = Some (res, ps') \<Longrightarrow> hrs ps' = hrs ps"
  by (auto simp: PeerState_PickVoteToSend_def Let_def dest!: setHasVote_hrs elim!: bind_eq_SomeE split: if_splits option.splits)

lemma peer_step_hrs:
  assumes "peer_step ps ps'"
  shows "hrs ps' = hrs ps \<or>
    CompareHRS (prs_Height (PRS ps)) (prs_Round (PRS ps)) (prs_Step (PRS ps)) (prs_Height (PRS ps')) (prs_Round (PRS ps')) (prs_Step (PRS ps')) < 0"
  using assms
proof cases
  case (peer_round_step now nrs)
  show ?thesis
    by (cases rule: ApplyNewRoundStepMessage_cases [of nrs ps now]) (simp_all add: peer_round_step CompareHRS_def)
next
  case (peer_proposal proposal)
  then show ?thesis
    by (auto simp: PeerState_SetHasProposal_def hrs_def dest!: new_array_PRS elim!: bind_eq_SomeE split: if_splits prod.splits)
next
  case (peer_parts header)
  then show ?thesis by (auto simp: PeerState_InitProposalBlockParts_def hrs_def dest!: new_array_PRS split: prod.splits)
next
  case (peer_commit_step csm)
  then show ?thesis by (auto simp: PeerState_ApplyCommitStepMessage_def hrs_def dest!: new_array_PRS split: prod.splits)
next
  case (peer_pol pol)
  then show ?thesis by (auto simp: PeerState_ApplyProposalPOLMessage_def hrs_def dest!: new_array_PRS split: prod.splits)
next
  case (peer_bits vsb ourVotes)
  then show ?thesis
    by (auto simp: PeerState_ApplyVoteSetBitsMessage_def Let_def hrs_def elim!: bind_eq_SomeE split: option.splits if_splits)
next
  case (peer_record_vote vote k)
  then show ?thesis by (auto simp: PeerState_RecordVote_def Let_def hrs_def elim!: bind_eq_SomeE split: if_splits)
next
  case (peer_record_part height k)
  then show ?thesis by (auto simp: PeerState_RecordBlockPart_def Let_def hrs_def split: if_splits)
next
  case (peer_vote vote)
  then show ?thesis by (auto simp: PeerState_SetHasVote_def dest!: setHasVote_hrs elim!: bind_eq_SomeE)
next
  case (peer_part height rnd index)
  then show ?thesis by (auto simp: PeerState_SetHasProposalBlockPart_def hrs_def dest!: set_bit_of_apart split: if_splits)
qed (auto simp: PeerState_EnsureVoteBitArrays_def PeerState_ApplyHasVoteMessage_def
    dest: setHasVote_hrs PickVoteToSend_hrs split: if_splits)

interpretation pst: invariant_system peer_step apart
  by unfold_locales (rule peer_step_apart)

text \<open>With the arrays apart, an array is about one height, round and type.\<close>

lemma getVoteBitArray_slot:
  assumes "PeerState_getVoteBitArray h r t ps = Some i"
  shows "prs_Height (PRS ps) = h \<and> t = VoteTypePrevote \<and> r = to_int (prs_Round (PRS ps)) \<and> prs_Prevotes (PRS ps) = Some i \<or>
    prs_Height (PRS ps) = h \<and> t = VoteTypePrecommit \<and> r = to_int (prs_Round (PRS ps)) \<and> prs_Precommits (PRS ps) = Some i \<or>
    prs_Height (PRS ps) = h \<and> t = VoteTypePrecommit \<and> r = prs_CatchupCommitRound (PRS ps) \<and> prs_CatchupCommit (PRS ps) = Some i \<or>
    prs_Height (PRS ps) = h \<and> t = VoteTypePrevote \<and> r = to_int (prs_ProposalPOLRound (PRS ps)) \<and> prs_ProposalPOL (PRS ps) = Some i \<or>
    prs_Height (PRS ps) = h + 1 \<and> t = VoteTypePrecommit \<and> r = to_int (prs_LastCommitRound (PRS ps)) \<and> prs_LastCommit (PRS ps) = Some i"
proof -
  have "t = VoteTypePrevote \<or> t = VoteTypePrecommit"
    using assms by (auto simp: PeerState_getVoteBitArray_def IsVoteTypeValid_def Let_def split: if_splits)
  then show ?thesis
    using assms by (elim disjE) (simp_all add: PeerState_getVoteBitArray_def Let_def IsVoteTypeValid_def split: if_splits)
qed

lemma apart_key:
  assumes "apart ps" "PeerState_getVoteBitArray h r t ps = Some i" "PeerState_getVoteBitArray h' r' t' ps = Some i"
  shows "h = h' \<and> r = r' \<and> t = t'"
proof -
  have a: "refs_apart (length (ps_arrays ps)) (PRS ps)" using assms(1) by (simp add: apart_def)
  from getVoteBitArray_slot [OF assms(2)] getVoteBitArray_slot [OF assms(3)] show ?thesis
    by (elim disjE conjE) (use a in \<open>auto simp: refs_apart_def sep_def\<close>)
qed

lemma write_array_other: "i \<noteq> j \<Longrightarrow> array_at (Some j) (write_array (Some i) b ps) = array_at (Some j) ps"
  by (cases b) (simp_all add: array_at_def write_array_def)

lemma setHasVote_apart_frame:
  assumes "apart ps" "PeerState_setHasVote h r t k ps = Some ps'" "(h', r', t') \<noteq> (h, r, t)"
  shows "array_at (PeerState_getVoteBitArray h' r' t' ps') ps' = array_at (PeerState_getVoteBitArray h' r' t' ps) ps"
proof -
  have g: "PeerState_getVoteBitArray h' r' t' ps' = PeerState_getVoteBitArray h' r' t' ps"
    by (rule getVoteBitArray_PRS) (simp add: setHasVote_apart [OF assms(2)])
  have "array_at (PeerState_getVoteBitArray h' r' t' ps) ps' = array_at (PeerState_getVoteBitArray h' r' t' ps) ps"
  proof (cases "PeerState_getVoteBitArray h' r' t' ps")
    case (Some j)
    then have "PeerState_getVoteBitArray h r t ps \<noteq> Some j" using apart_key [OF assms(1) Some] assms(3) by blast
    moreover from assms(2) have "ps' = ps \<or> (\<exists>i b. PeerState_getVoteBitArray h r t ps = Some i \<and> ps' = write_array (Some i) b ps)"
      by (cases "PeerState_getVoteBitArray h r t ps") (auto simp: PeerState_setHasVote_def set_bit_of_def elim!: bind_eq_SomeE)
    ultimately show ?thesis using Some by (auto simp: write_array_other)
  qed simp
  then show ?thesis by (simp add: g)
qed

end
