(* ===== verification/Reactor.thy ===== *)
theory Reactor
  imports Peer_Steps
begin

text \<open>
  The reactor, \<^verbatim>\<open>consensus/tbft/reactor.go\<close>: what a node does with a message of a peer and what it
  sends to one.

  \<^item> The state is the consensus state, two flags and the state of each peer. The reactor's health manager
    is the one of the consensus state, as \<^verbatim>\<open>node.go\<close> sets both.
  \<^item> The encoding of messages is that of another package: the two functions of a \<open>codec\<close>. So is the conversion of
    a duration to seconds, whose value for a negative duration depends on the machine.
  \<^item> A routine for a peer is a loop that runs until the peer or the reactor stops; one pass of it is a function. What
    \<open>Send\<close> returns is an argument. What is handed to the network, and a sleep, is in the list of outputs.
  \<^item> A pass and a message are atomic. A panic is \<open>None\<close>: the connection recovers from it and stops the peer.
\<close>

section \<open>State and messages\<close>

abbreviation StateChannel :: byte where "StateChannel \<equiv> 0x20"
abbreviation DataChannel :: byte where "DataChannel \<equiv> 0x21"
abbreviation VoteChannel :: byte where "VoteChannel \<equiv> 0x22"
abbreviation VoteSetBitsChannel :: byte where "VoteSetBitsChannel \<equiv> 0x23"

abbreviation maxMsgSize :: nat where "maxMsgSize \<equiv> 1048576"
abbreviation blocksToContributeToBecomeGoodPeer :: u64 where "blocksToContributeToBecomeGoodPeer \<equiv> 10000"

datatype wire_msg =
    Wire_NewRoundStep NewRoundStepMessage
  | Wire_CommitStep CommitStepMessage
  | Wire_Proposal "Proposal option"
  | Wire_ProposalPOL ProposalPOLMessage
  | Wire_BlockPart u64 u64 "Part option"
  | Wire_Vote "Vote option"
  | Wire_HasVote HasVoteMessage
  | Wire_VoteSetMaj23 VoteSetMaj23Message
  | Wire_VoteSetBits VoteSetBitsMessage
  | Wire_ValidatorUpdate

record codec =
  k_encode :: "wire_msg \<Rightarrow> bytes option"
  k_decode :: "bytes \<Rightarrow> wire_msg option"
  k_seconds :: "int \<Rightarrow> u64"

datatype reactor_error = ErrUninitHm | ErrStart cs_error

datatype r_output =
    StopPeerForError string
  | MarkPeerAsGood string
  | Send string byte bytes
  | TrySend string byte bytes
  | Broadcast byte bytes
  | Sleep
  | Stopped

record 'blk ConsensusReactor =
  conS :: "'blk ConsensusState"
  conR_running :: bool
  conR_fastSync :: bool
  conR_peers :: "string \<Rightarrow> PeerState option"

definition NewConsensusReactor :: "'blk ConsensusState \<Rightarrow> bool \<Rightarrow> 'blk ConsensusReactor" where
  "NewConsensusReactor consensusState fastSync =
     \<lparr>conS = consensusState, conR_running = False, conR_fastSync = fastSync, conR_peers = (\<lambda>_. None)\<rparr>"

definition ConsensusReactor_SetHealthMgr :: "HealthMgr option \<Rightarrow> 'blk ConsensusReactor \<Rightarrow> 'blk ConsensusReactor" where
  "ConsensusReactor_SetHealthMgr h conR = conR\<lparr>conS := ConsensusState_SetHealthMgr h (conS conR)\<rparr>"

definition ConsensusReactor_FastSync :: "'blk ConsensusReactor \<Rightarrow> bool" where
  "ConsensusReactor_FastSync conR = conR_fastSync conR"

definition set_peer :: "string \<Rightarrow> PeerState \<Rightarrow> 'blk ConsensusReactor \<Rightarrow> 'blk ConsensusReactor" where
  "set_peer src ps conR = conR\<lparr>conR_peers := (conR_peers conR)(src := Some ps)\<rparr>"

definition push_msg :: "ConsensusMessage \<Rightarrow> string \<Rightarrow> 'blk ConsensusReactor \<Rightarrow> 'blk ConsensusReactor" where
  "push_msg m src conR = conR\<lparr>conS := (conS conR)\<lparr>cs_peerMsgQueue := cs_peerMsgQueue (conS conR) @ [\<lparr>Msg = m, PeerID = src\<rparr>]\<rparr>\<rparr>"

text \<open>\<open>OnStart\<close>, with the flag that the service sets when it has started.\<close>

definition ConsensusReactor_OnStart ::
  "'blk world \<Rightarrow> 'blk ConsensusReactor \<Rightarrow> (reactor_error go_error \<times> 'blk ConsensusReactor) option" where
  "ConsensusReactor_OnStart W conR =
     (if cs_hm (conS conR) = None then Some (Err ErrUninitHm, conR)
      else do {
        (err, cs) \<leftarrow> ConsensusState_OnStart W (conS conR);
        case err of
          Err e \<Rightarrow> Some (Err (ErrStart e), conR\<lparr>conS := cs\<rparr>)
        | NoError \<Rightarrow> Some (NoError, conR\<lparr>conS := cs, conR_running := True\<rparr>)
      })"

section \<open>Messages about the own state\<close>

definition makeRoundStepMessages ::
  "codec \<Rightarrow> int \<Rightarrow> 'blk RoundState \<Rightarrow> NewRoundStepMessage \<times> CommitStepMessage option" where
  "makeRoundStepMessages K now rs =
     (\<lparr>nrs_Height = rs_Height rs, nrs_Round = rs_Round rs, nrs_Step = rs_Step rs,
       nrs_SecondsSinceStartTime = k_seconds K (now - rs_StartTime rs),
       nrs_LastCommitRound = to_uint (VoteSet_Round (rs_LastCommit rs))\<rparr>,
      if rs_Step rs = RoundStepCommit
      then map_option (\<lambda>parts. \<lparr>csm_Height = rs_Height rs, csm_BlockPartsHeader = PartSet_Header (Some parts),
             csm_BlockParts = PartSet_BitArray parts\<rparr>) (rs_ProposalBlockParts rs)
      else None)"

definition round_step_outputs ::
  "codec \<Rightarrow> (byte \<Rightarrow> bytes \<Rightarrow> r_output) \<Rightarrow> int \<Rightarrow> 'blk RoundState \<Rightarrow> r_output list option" where
  "round_step_outputs K out now rs = do {
     let (nrsMsg, csMsg) = makeRoundStepMessages K now rs;
     a \<leftarrow> k_encode K (Wire_NewRoundStep nrsMsg);
     case csMsg of
       None \<Rightarrow> Some [out StateChannel a]
     | Some m \<Rightarrow> do { b \<leftarrow> k_encode K (Wire_CommitStep m); Some [out StateChannel a, out StateChannel b] }
   }"

definition ConsensusReactor_broadcastNewRoundStepMessages :: "codec \<Rightarrow> int \<Rightarrow> 'blk RoundState \<Rightarrow> r_output list option" where
  "ConsensusReactor_broadcastNewRoundStepMessages K now rs = round_step_outputs K Broadcast now rs"

definition ConsensusReactor_sendNewRoundStepMessages :: "codec \<Rightarrow> int \<Rightarrow> string \<Rightarrow> 'blk ConsensusReactor \<Rightarrow> r_output list option" where
  "ConsensusReactor_sendNewRoundStepMessages K now peer conR =
     round_step_outputs K (Send peer) now (ConsensusState_GetRoundState (conS conR))"

definition ConsensusReactor_broadcastHasVoteMessage :: "codec \<Rightarrow> Vote \<Rightarrow> r_output list option" where
  "ConsensusReactor_broadcastHasVoteMessage K vote = do {
     a \<leftarrow> k_encode K (Wire_HasVote \<lparr>hv_Height = Height vote, hv_Round = Round vote, hv_Type = Type vote, hv_Index = ValidatorIndex vote\<rparr>);
     Some [Broadcast StateChannel a]
   }"

definition ConsensusReactor_AddPeer ::
  "codec \<Rightarrow> int \<Rightarrow> string \<Rightarrow> 'blk ConsensusReactor \<Rightarrow> (r_output list \<times> 'blk ConsensusReactor) option" where
  "ConsensusReactor_AddPeer K now peer conR =
     (if \<not> conR_running conR then Some ([], conR)
      else do {
        let conR = set_peer peer (NewPeerState peer) conR;
        if \<not> ConsensusReactor_FastSync conR then do {
          out \<leftarrow> ConsensusReactor_sendNewRoundStepMessages K now peer conR;
          Some (out, conR)
        }
        else Some ([], conR)
      })"

section \<open>Receive\<close>

definition decodeMsg :: "codec \<Rightarrow> bytes \<Rightarrow> wire_msg option" where
  "decodeMsg K bz = (if length bz > maxMsgSize then None else k_decode K bz)"

text \<open>The votes that the node has for a block, if the type is one of a vote.\<close>

definition our_votes :: "env \<Rightarrow> HeightVoteSet \<Rightarrow> u64 \<Rightarrow> byte \<Rightarrow> BlockID \<Rightarrow> BitArray option option" where
  "our_votes E votes rnd typeB blockID =
     (if typeB = VoteTypePrevote then Some (VoteSet_BitArrayByBlockID E (HeightVoteSet_Prevotes votes (to_int rnd)) blockID)
      else if typeB = VoteTypePrecommit then Some (VoteSet_BitArrayByBlockID E (HeightVoteSet_Precommits votes (to_int rnd)) blockID)
      else None)"

definition receive_maj23 ::
  "'blk world \<Rightarrow> codec \<Rightarrow> string \<Rightarrow> VoteSetMaj23Message \<Rightarrow> PeerState \<Rightarrow> 'blk ConsensusReactor \<Rightarrow> (r_output list \<times> 'blk ConsensusReactor) option" where
  "receive_maj23 W K src msg ps conR =
     (let cs = conS conR
      in if rs_Height cs \<noteq> m23_Height msg then Some ([], conR)
         else do {
           votes \<leftarrow> rs_Votes cs;
           (err, votes) \<leftarrow> HeightVoteSet_SetPeerMaj23 (w_env W) (to_int (m23_Round msg)) (m23_Type msg) (ps_peer ps) (m23_BlockID msg) votes;
           let conR = conR\<lparr>conS := cs\<lparr>rs_Votes := Some votes\<rparr>\<rparr>;
           if err \<noteq> NoError then Some ([StopPeerForError src], conR)
           else (case our_votes (w_env W) votes (m23_Round msg) (m23_Type msg) (m23_BlockID msg) of
                   None \<Rightarrow> Some ([], conR)
                 | Some ourVotes \<Rightarrow> do {
                     d \<leftarrow> k_encode K (Wire_VoteSetBits \<lparr>vsb_Height = m23_Height msg, vsb_Round = m23_Round msg, vsb_Type = m23_Type msg,
                            vsb_BlockID = m23_BlockID msg, vsb_Votes = ourVotes\<rparr>);
                     Some ([TrySend src VoteSetBitsChannel d], conR)
                   })
         })"

definition receive_state ::
  "'blk world \<Rightarrow> codec \<Rightarrow> int \<Rightarrow> string \<Rightarrow> wire_msg \<Rightarrow> PeerState \<Rightarrow> 'blk ConsensusReactor \<Rightarrow> (r_output list \<times> 'blk ConsensusReactor) option" where
  "receive_state W K now src msg ps conR =
     (case msg of
        Wire_NewRoundStep m \<Rightarrow> Some ([], set_peer src (PeerState_ApplyNewRoundStepMessage now m ps) conR)
      | Wire_CommitStep m \<Rightarrow> Some ([], set_peer src (PeerState_ApplyCommitStepMessage m ps) conR)
      | Wire_HasVote m \<Rightarrow> do { ps \<leftarrow> PeerState_ApplyHasVoteMessage m ps; Some ([], set_peer src ps conR) }
      | Wire_VoteSetMaj23 m \<Rightarrow> receive_maj23 W K src m ps conR
      | _ \<Rightarrow> Some ([], conR))"

definition good_peer :: "string \<Rightarrow> u64 \<Rightarrow> r_output list" where
  "good_peer src n = (if n mod blocksToContributeToBecomeGoodPeer = 0 then [MarkPeerAsGood src] else [])"

definition receive_data ::
  "string \<Rightarrow> wire_msg \<Rightarrow> PeerState \<Rightarrow> 'blk ConsensusReactor \<Rightarrow> (r_output list \<times> 'blk ConsensusReactor) option" where
  "receive_data src msg ps conR =
     (if ConsensusReactor_FastSync conR then Some ([], conR)
      else (case msg of
              Wire_Proposal p \<Rightarrow> do {
                ps \<leftarrow> PeerState_SetHasProposal p ps;
                Some ([], push_msg (ProposalMessage p) src (set_peer src ps conR))
              }
            | Wire_ProposalPOL m \<Rightarrow> Some ([], set_peer src (PeerState_ApplyProposalPOLMessage m ps) conR)
            | Wire_BlockPart height rnd part \<Rightarrow> do {
                p \<leftarrow> part;
                ps \<leftarrow> PeerState_SetHasProposalBlockPart height rnd (part_Index p) ps;
                let (numBlocks, ps) = PeerState_RecordBlockPart height ps;
                Some (good_peer src numBlocks, push_msg (BlockPartMessage height rnd part) src (set_peer src ps conR))
              }
            | _ \<Rightarrow> Some ([], conR)))"

definition receive_vote ::
  "string \<Rightarrow> wire_msg \<Rightarrow> PeerState \<Rightarrow> 'blk ConsensusReactor \<Rightarrow> (r_output list \<times> 'blk ConsensusReactor) option" where
  "receive_vote src msg ps conR =
     (if ConsensusReactor_FastSync conR then Some ([], conR)
      else (case msg of
              Wire_Vote vote \<Rightarrow> do {
                let cs = conS conR;
                vals \<leftarrow> rs_Validators cs;
                let ps = PeerState_EnsureVoteBitArrays (rs_Height cs) (ValidatorSet_Size vals) ps;
                let ps = PeerState_EnsureVoteBitArrays (rs_Height cs - 1) (VoteSet_Size (rs_LastCommit cs)) ps;
                ps \<leftarrow> PeerState_SetHasVote vote ps;
                (blocks, ps) \<leftarrow> PeerState_RecordVote vote ps;
                v \<leftarrow> vote;
                Some (good_peer src blocks, push_msg (VoteMessage (Some v)) src (set_peer src ps conR))
              }
            | _ \<Rightarrow> Some ([], conR)))"

definition receive_bits ::
  "'blk world \<Rightarrow> string \<Rightarrow> wire_msg \<Rightarrow> PeerState \<Rightarrow> 'blk ConsensusReactor \<Rightarrow> (r_output list \<times> 'blk ConsensusReactor) option" where
  "receive_bits W src msg ps conR =
     (if ConsensusReactor_FastSync conR then Some ([], conR)
      else (case msg of
              Wire_VoteSetBits m \<Rightarrow>
                if rs_Height (conS conR) = vsb_Height m then do {
                  votes \<leftarrow> rs_Votes (conS conR);
                  case our_votes (w_env W) votes (vsb_Round m) (vsb_Type m) (vsb_BlockID m) of
                    None \<Rightarrow> Some ([], conR)
                  | Some ourVotes \<Rightarrow> do {
                      ps \<leftarrow> PeerState_ApplyVoteSetBitsMessage m ourVotes ps;
                      Some ([], set_peer src ps conR)
                    }
                }
                else do { ps \<leftarrow> PeerState_ApplyVoteSetBitsMessage m None ps; Some ([], set_peer src ps conR) }
            | _ \<Rightarrow> Some ([], conR)))"

definition ConsensusReactor_Receive ::
  "'blk world \<Rightarrow> codec \<Rightarrow> int \<Rightarrow> byte \<Rightarrow> string \<Rightarrow> bytes \<Rightarrow> 'blk ConsensusReactor \<Rightarrow> (r_output list \<times> 'blk ConsensusReactor) option" where
  "ConsensusReactor_Receive W K now chID src msgBytes conR = do {
     hm \<leftarrow> cs_hm (conS conR);
     let conR = ConsensusReactor_SetHealthMgr (Some (HealthMgr_Update src hm)) conR;
     if \<not> conR_running conR then Some ([], conR)
     else (case decodeMsg K msgBytes of
             None \<Rightarrow> Some ([StopPeerForError src], conR)
           | Some msg \<Rightarrow> do {
               ps \<leftarrow> conR_peers conR src;
               if chID = StateChannel then receive_state W K now src msg ps conR
               else if chID = DataChannel then receive_data src msg ps conR
               else if chID = VoteChannel then receive_vote src msg ps conR
               else if chID = VoteSetBitsChannel then receive_bits W src msg ps conR
               else Some ([], conR)
             })
   }"

section \<open>Gossip\<close>

text \<open>
  What \<open>Send\<close> returns for the bytes of a message, and the output. The arguments of a pass are the codec, the answers of
  \<open>Send\<close> and the random draws; \<open>alive\<close> tells whether the peer's connection runs.
\<close>

definition send_to :: "codec \<Rightarrow> (bytes \<Rightarrow> bool) \<Rightarrow> string \<Rightarrow> byte \<Rightarrow> wire_msg \<Rightarrow> (bool \<times> r_output) option" where
  "send_to K snt peer chID msg = do { b \<leftarrow> k_encode K msg; Some (snt b, Send peer chID b) }"

text \<open>The first step of \<open>gossipDataRoutine\<close>: a part of the proposal; \<open>None\<close> as the first component when there is none to send.\<close>

definition gossip_part ::
  "codec \<Rightarrow> (bytes \<Rightarrow> bool) \<Rightarrow> draws \<Rightarrow> string \<Rightarrow> 'blk RoundState \<Rightarrow> PeerState \<Rightarrow> (r_output option \<times> PeerState) option" where
  "gossip_part K snt d peer rs ps =
     (let prs = PeerState_GetRoundState ps
      in case rs_ProposalBlockParts rs of
           None \<Rightarrow> Some (None, ps)
         | Some parts \<Rightarrow>
             if \<not> PartSet_HasHeader (Some parts) (prs_ProposalBlockPartsHeader prs) then Some (None, ps)
             else do {
               rest \<leftarrow> BitArray_Sub (PartSet_BitArray parts) (BitArray_Copy (array_at (prs_ProposalBlockParts prs) ps));
               (index, ok) \<leftarrow> BitArray_PickRandom rest (fst d) (snd d);
               if \<not> ok then Some (None, ps)
               else do {
                 part \<leftarrow> PartSet_GetPart parts index;
                 if part = None then Some (None, ps)
                 else do {
                   (sent, out) \<leftarrow> send_to K snt peer DataChannel (Wire_BlockPart (rs_Height rs) (rs_Round rs) part);
                   ps \<leftarrow> (if sent then PeerState_SetHasProposalBlockPart (prs_Height prs) (prs_Round prs) index ps else Some ps);
                   Some (Some out, ps)
                 }
               }
             })"

definition catchup_part ::
  "codec \<Rightarrow> (bytes \<Rightarrow> bool) \<Rightarrow> draws \<Rightarrow> string \<Rightarrow> 'blk BlockStore \<Rightarrow> PeerRoundState \<Rightarrow> PeerState \<Rightarrow> (r_output list \<times> PeerState) option" where
  "catchup_part K snt d peer store prs ps = do {
     (index, ok) \<leftarrow> BitArray_PickRandom (BitArray_Not (array_at (prs_ProposalBlockParts prs) ps)) (fst d) (snd d);
     if \<not> ok then Some ([Sleep], ps)
     else (case BlockStore_LoadBlockMeta (prs_Height prs) store of
             None \<Rightarrow> Some ([Sleep], ps)
           | Some blockMeta \<Rightarrow>
               if \<not> PartSetHeader_Equals (PartsHeader (bm_BlockID blockMeta)) (prs_ProposalBlockPartsHeader prs) then Some ([Sleep], ps)
               else do {
                 part \<leftarrow> BlockStore_LoadBlockPart (prs_Height prs) index store;
                 if part = None then Some ([Sleep], ps)
                 else do {
                   (sent, out) \<leftarrow> send_to K snt peer DataChannel (Wire_BlockPart (prs_Height prs) (prs_Round prs) part);
                   ps \<leftarrow> (if sent then PeerState_SetHasProposalBlockPart (prs_Height prs) (prs_Round prs) index ps else Some ps);
                   Some ([out], ps)
                 }
               })
   }"

definition ConsensusReactor_gossipDataForCatchup ::
  "codec \<Rightarrow> (bytes \<Rightarrow> bool) \<Rightarrow> draws \<Rightarrow> string \<Rightarrow> 'blk BlockStore \<Rightarrow> PeerRoundState \<Rightarrow> PeerState \<Rightarrow> (r_output list \<times> PeerState) option" where
  "ConsensusReactor_gossipDataForCatchup K snt d peer store prs ps =
     (if prs_Proposal prs then catchup_part K snt d peer store prs ps
      else (case Option.bind (BlockStore_LoadBlockMeta (prs_Height prs) store) bm_Proposal of
              None \<Rightarrow> Some ([], ps)
            | Some p \<Rightarrow> do {
                (sent, out) \<leftarrow> send_to K snt peer DataChannel (Wire_Proposal (Some p));
                ps \<leftarrow> (if sent then PeerState_SetHasProposal (Some p) ps else Some ps);
                (outs, ps) \<leftarrow> catchup_part K snt d peer store prs ps;
                Some (out # outs, ps)
              }))"

definition gossip_proposal ::
  "codec \<Rightarrow> (bytes \<Rightarrow> bool) \<Rightarrow> string \<Rightarrow> 'blk RoundState \<Rightarrow> Proposal \<Rightarrow> PeerState \<Rightarrow> (r_output list \<times> PeerState) option" where
  "gossip_proposal K snt peer rs p ps = do {
     (sent, out) \<leftarrow> send_to K snt peer DataChannel (Wire_Proposal (Some p));
     ps \<leftarrow> (if sent then PeerState_SetHasProposal (Some p) ps else Some ps);
     if 0 \<le> to_int (POLRound p) then do {
       votes \<leftarrow> rs_Votes rs;
       (_, out2) \<leftarrow> send_to K snt peer DataChannel (Wire_ProposalPOL \<lparr>pol_Height = rs_Height rs, pol_ProposalPOLRound = POLRound p,
         pol_ProposalPOL = VoteSet_BitArray (HeightVoteSet_Prevotes votes (to_int (POLRound p)))\<rparr>);
       Some ([out, out2], ps)
     }
     else Some ([out], ps)
   }"

text \<open>A pass of \<open>gossipDataRoutine\<close>.\<close>

definition gossip_data ::
  "codec \<Rightarrow> (bytes \<Rightarrow> bool) \<Rightarrow> draws \<Rightarrow> string \<Rightarrow> 'blk RoundState \<Rightarrow> 'blk BlockStore \<Rightarrow> PeerState \<Rightarrow> (r_output list \<times> PeerState) option" where
  "gossip_data K snt d peer rs store ps = do {
     let prs = PeerState_GetRoundState ps;
     (out, ps) \<leftarrow> gossip_part K snt d peer rs ps;
     case out of
       Some o1 \<Rightarrow> Some ([o1], ps)
     | None \<Rightarrow>
         if 0 < prs_Height prs \<and> prs_Height prs < rs_Height rs then
           (if prs_ProposalBlockParts prs = None then
              Some (case BlockStore_LoadBlockMeta (prs_Height prs) store of
                      None \<Rightarrow> ([Sleep], ps)
                    | Some blockMeta \<Rightarrow> ([], PeerState_InitProposalBlockParts (PartsHeader (bm_BlockID blockMeta)) ps))
            else ConsensusReactor_gossipDataForCatchup K snt d peer store prs ps)
         else if rs_Height rs \<noteq> prs_Height prs \<or> rs_Round rs \<noteq> prs_Round prs then Some ([Sleep], ps)
         else (case rs_Proposal rs of
                 Some p \<Rightarrow> if prs_Proposal prs then Some ([Sleep], ps) else gossip_proposal K snt peer rs p ps
               | None \<Rightarrow> Some ([Sleep], ps))
   }"

definition with_peer ::
  "bool \<Rightarrow> string \<Rightarrow> (PeerState \<Rightarrow> (r_output list \<times> PeerState) option) \<Rightarrow> 'blk ConsensusReactor \<Rightarrow> (r_output list \<times> 'blk ConsensusReactor) option" where
  "with_peer alive peer pass conR =
     (if \<not> alive \<or> \<not> conR_running conR then Some ([Stopped], conR)
      else do { ps \<leftarrow> conR_peers conR peer; (out, ps) \<leftarrow> pass ps; Some (out, set_peer peer ps conR) })"

definition ConsensusReactor_gossipDataRoutine ::
  "codec \<Rightarrow> (bytes \<Rightarrow> bool) \<Rightarrow> draws \<Rightarrow> bool \<Rightarrow> string \<Rightarrow> 'blk ConsensusReactor \<Rightarrow> (r_output list \<times> 'blk ConsensusReactor) option" where
  "ConsensusReactor_gossipDataRoutine K snt d alive peer conR =
     with_peer alive peer (gossip_data K snt d peer (ConsensusState_GetRoundState (conS conR)) (cs_blockStore (conS conR))) conR"

text \<open>
  \<open>gossipVotesForHeight\<close> tries one set of votes after the other until a vote is sent. The sets that it tries depend on
  what is known of the peer at the start of the pass.
\<close>

fun try_send ::
  "(nat \<Rightarrow> draws) \<Rightarrow> (Vote \<Rightarrow> (bool \<times> 'o) option) \<Rightarrow> VoteSetReader list \<Rightarrow> PeerState \<Rightarrow> ((bool \<times> 'o list) \<times> PeerState) option" where
  "try_send d send [] ps = Some ((False, []), ps)"
| "try_send d send (votes # rest) ps = do {
     ((sent, out), ps) \<leftarrow> PeerState_PickSendVote (d (length rest)) send votes ps;
     if sent then Some ((True, out), ps)
     else do {
       ((sent, outs), ps) \<leftarrow> try_send d send rest ps;
       Some ((sent, out @ outs), ps)
     }
   }"

definition votes_for_height :: "'blk RoundState \<Rightarrow> HeightVoteSet \<Rightarrow> PeerRoundState \<Rightarrow> VoteSetReader list" where
  "votes_for_height rs votes prs =
     (let known = to_int (prs_Round prs) \<noteq> - 1 \<and> prs_Round prs \<le> rs_Round rs;
          prevotes = HeightVoteSet_Prevotes votes (to_int (prs_Round prs));
          precommits = HeightVoteSet_Precommits votes (to_int (prs_Round prs));
          polPrevotes = HeightVoteSet_Prevotes votes (to_int (prs_ProposalPOLRound prs));
          pol = to_int (prs_ProposalPOLRound prs) \<noteq> - 1 \<and> polPrevotes \<noteq> None
      in (if prs_Step prs = RoundStepNewHeight then [Votes_of (rs_LastCommit rs)] else []) @
         (if prs_Step prs \<le> RoundStepPropose \<and> known \<and> pol then [Votes_of polPrevotes] else []) @
         (if prs_Step prs \<le> RoundStepPrevoteWait \<and> known then [Votes_of prevotes] else []) @
         (if prs_Step prs \<le> RoundStepPrecommitWait \<and> known then [Votes_of precommits] else []) @
         (if known then [Votes_of prevotes] else []) @
         (if pol then [Votes_of polPrevotes] else []))"

definition ConsensusReactor_gossipVotesForHeight ::
  "(nat \<Rightarrow> draws) \<Rightarrow> (Vote \<Rightarrow> (bool \<times> 'o) option) \<Rightarrow> 'blk RoundState \<Rightarrow> PeerRoundState \<Rightarrow> PeerState \<Rightarrow> ((bool \<times> 'o list) \<times> PeerState) option" where
  "ConsensusReactor_gossipVotesForHeight d send rs prs ps = do {
     votes \<leftarrow> rs_Votes rs;
     try_send d send (votes_for_height rs votes prs) ps
   }"

text \<open>What is sent to a peer that lags: the last commit if it lags by one, else a commit of the store.\<close>

definition votes_for_catchup :: "'blk RoundState \<Rightarrow> 'blk BlockStore \<Rightarrow> PeerRoundState \<Rightarrow> VoteSetReader list" where
  "votes_for_catchup rs store prs =
     (if prs_Height prs \<noteq> 0 \<and> rs_Height rs = prs_Height prs + 1 then [Votes_of (rs_LastCommit rs)] else []) @
     (if prs_Height prs \<noteq> 0 \<and> rs_Height rs \<ge> prs_Height prs + 2
      then (case BlockStore_LoadBlockCommit (prs_Height prs) store of Some commit \<Rightarrow> [Commit_of commit] | None \<Rightarrow> [])
      else [])"

text \<open>A pass of \<open>gossipVotesRoutine\<close>; its variable \<open>sleeping\<close> only decides what is logged.\<close>

definition gossip_votes ::
  "codec \<Rightarrow> (bytes \<Rightarrow> bool) \<Rightarrow> (nat \<Rightarrow> draws) \<Rightarrow> string \<Rightarrow> 'blk RoundState \<Rightarrow> 'blk BlockStore \<Rightarrow> PeerState \<Rightarrow> (r_output list \<times> PeerState) option" where
  "gossip_votes K snt d peer rs store ps = do {
     let prs = PeerState_GetRoundState ps;
     let send = (\<lambda>v. send_to K snt peer VoteChannel (Wire_Vote (Some v)));
     ((sent, out), ps) \<leftarrow> (if rs_Height rs = prs_Height prs then ConsensusReactor_gossipVotesForHeight d send rs prs ps
                           else Some ((False, []), ps));
     if sent then Some (out, ps)
     else do {
       ((sent, outs), ps) \<leftarrow> try_send d send (votes_for_catchup rs store prs) ps;
       Some (out @ outs @ (if sent then [] else [Sleep]), ps)
     }
   }"

definition ConsensusReactor_gossipVotesRoutine ::
  "codec \<Rightarrow> (bytes \<Rightarrow> bool) \<Rightarrow> (nat \<Rightarrow> draws) \<Rightarrow> bool \<Rightarrow> string \<Rightarrow> 'blk ConsensusReactor \<Rightarrow> (r_output list \<times> 'blk ConsensusReactor) option" where
  "ConsensusReactor_gossipVotesRoutine K snt d alive peer conR =
     with_peer alive peer (gossip_votes K snt d peer (ConsensusState_GetRoundState (conS conR)) (cs_blockStore (conS conR))) conR"

text \<open>The passes from one sleep to the next.\<close>

partial_function (option) gossip_votes_awake ::
  "codec \<Rightarrow> (bytes \<Rightarrow> bool) \<Rightarrow> (nat \<Rightarrow> nat \<Rightarrow> draws) \<Rightarrow> string \<Rightarrow> 'blk RoundState \<Rightarrow> 'blk BlockStore \<Rightarrow> nat \<Rightarrow> PeerState \<Rightarrow> (r_output list \<times> PeerState) option" where
  "gossip_votes_awake K snt d peer rs store k ps =
     Option.bind (gossip_votes K snt (d k) peer rs store ps) (\<lambda>(out, ps).
       if Sleep \<in> set out then Some (out, ps)
       else Option.bind (gossip_votes_awake K snt d peer rs store (Suc k) ps) (\<lambda>(outs, ps). Some (out @ outs, ps)))"

definition maj23_query :: "codec \<Rightarrow> string \<Rightarrow> u64 \<Rightarrow> u64 \<Rightarrow> byte \<Rightarrow> VoteSet option \<Rightarrow> r_output list option" where
  "maj23_query K peer height rnd typeB votes =
     (let (maj23, ok) = VoteSet_TwoThirdsMajority votes
      in if ok then do {
           b \<leftarrow> k_encode K (Wire_VoteSetMaj23 \<lparr>m23_Height = height, m23_Round = rnd, m23_Type = typeB, m23_BlockID = maj23\<rparr>);
           Some [TrySend peer StateChannel b, Sleep]
         }
         else Some [])"

definition query_votes :: "codec \<Rightarrow> string \<Rightarrow> 'blk RoundState \<Rightarrow> PeerRoundState \<Rightarrow> r_output list option" where
  "query_votes K peer rs prs =
     (if rs_Height rs \<noteq> prs_Height prs then Some []
      else do {
        votes \<leftarrow> rs_Votes rs;
        a \<leftarrow> maj23_query K peer (prs_Height prs) (prs_Round prs) VoteTypePrevote (HeightVoteSet_Prevotes votes (to_int (prs_Round prs)));
        b \<leftarrow> maj23_query K peer (prs_Height prs) (prs_Round prs) VoteTypePrecommit (HeightVoteSet_Precommits votes (to_int (prs_Round prs)));
        c \<leftarrow> (if to_int (prs_ProposalPOLRound prs) \<ge> 0
              then maj23_query K peer (prs_Height prs) (prs_ProposalPOLRound prs) VoteTypePrevote
                     (HeightVoteSet_Prevotes votes (to_int (prs_ProposalPOLRound prs)))
              else Some []);
        Some (a @ b @ c)
      })"

definition query_catchup :: "codec \<Rightarrow> string \<Rightarrow> 'blk BlockStore \<Rightarrow> PeerRoundState \<Rightarrow> r_output list option" where
  "query_catchup K peer store prs =
     (if prs_CatchupCommitRound prs \<noteq> - 1 \<and> 0 < prs_Height prs \<and> prs_Height prs \<le> BlockStore_MaxBlockHeight store then
        (case BlockStore_LoadBlockCommit (prs_Height prs) store of
           None \<Rightarrow> Some [Sleep]
         | Some commit \<Rightarrow> do {
             (rnd, commit) \<leftarrow> Commit_Round commit;
             b \<leftarrow> k_encode K (Wire_VoteSetMaj23 \<lparr>m23_Height = prs_Height prs, m23_Round = to_uint rnd, m23_Type = VoteTypePrecommit,
                    m23_BlockID = cBlockID commit\<rparr>);
             Some [TrySend peer StateChannel b, Sleep]
           })
      else Some [])"

text \<open>A pass of \<open>queryMaj23Routine\<close>.\<close>

definition ConsensusReactor_queryMaj23Routine ::
  "codec \<Rightarrow> bool \<Rightarrow> string \<Rightarrow> 'blk ConsensusReactor \<Rightarrow> (r_output list \<times> 'blk ConsensusReactor) option" where
  "ConsensusReactor_queryMaj23Routine K alive peer conR =
     with_peer alive peer (\<lambda>ps. do {
       let prs = PeerState_GetRoundState ps;
       a \<leftarrow> query_votes K peer (ConsensusState_GetRoundState (conS conR)) prs;
       b \<leftarrow> query_catchup K peer (cs_blockStore (conS conR)) prs;
       Some (a @ b @ [Sleep], ps)
     }) conR"

end
