(* ===== verification/Reactor_Steps.thy ===== *)
theory Reactor_Steps
  imports Reactor Consensus_Steps
begin

text \<open>
  The composition of the reactor with the consensus state machine and the peer states: whatever a peer sends, the
  consensus state makes a sequence of its own steps and the state of that peer a sequence of steps of a peer state, so
  that the invariants of both hold in the composed system.
\<close>

section \<open>A reaction to a peer\<close>

definition reaction :: "'blk world \<Rightarrow> string \<Rightarrow> 'blk ConsensusReactor \<Rightarrow> 'blk ConsensusReactor \<Rightarrow> bool" where
  "reaction W src conR conR' \<longleftrightarrow>
     (cs_step W)\<^sup>*\<^sup>* (conS conR) (conS conR') \<and>
     conR_running conR' = conR_running conR \<and> conR_fastSync conR' = conR_fastSync conR \<and>
     (\<forall>p. p \<noteq> src \<longrightarrow> conR_peers conR' p = conR_peers conR p) \<and>
     rel_option peer_step\<^sup>*\<^sup>* (conR_peers conR src) (conR_peers conR' src)"

lemma reaction_refl [simp]: "reaction W src conR conR"
  by (simp add: reaction_def option.rel_refl)

lemma steps_trans: "rel_option peer_step\<^sup>*\<^sup>* a b \<Longrightarrow> rel_option peer_step\<^sup>*\<^sup>* b c \<Longrightarrow> rel_option peer_step\<^sup>*\<^sup>* a c"
  by (auto simp: option_rel_Some1 elim!: option.rel_cases)

lemma reaction_trans: "reaction W src r s \<Longrightarrow> reaction W src s t \<Longrightarrow> reaction W src r t"
  unfolding reaction_def using steps_trans by (auto intro: rtranclp_trans)

lemma reaction_set_peer:
  "conR_peers conR src = Some ps \<Longrightarrow> peer_step\<^sup>*\<^sup>* ps ps' \<Longrightarrow> reaction W src conR (set_peer src ps' conR)"
  by (simp add: reaction_def set_peer_def)

lemma reaction_cs: "cs_step W (conS conR) cs \<Longrightarrow> reaction W src conR (conR\<lparr>conS := cs\<rparr>)"
  by (simp add: reaction_def r_into_rtranclp option.rel_refl)

lemma reaction_push:
  assumes "src \<noteq> []"
  shows "reaction W src conR (push_msg m src conR)"
proof -
  have "push_msg m src conR = conR\<lparr>conS := enqueue m src (conS conR)\<rparr>" using assms by (simp add: push_msg_def enqueue_def)
  then show ?thesis using reaction_cs [OF cs_peer [OF assms]] by simp
qed

lemma reaction_health: "reaction W src conR (ConsensusReactor_SetHealthMgr h conR)"
  unfolding ConsensusReactor_SetHealthMgr_def by (rule reaction_cs) (rule cs_health)

lemma reaction_set_push:
  assumes "src \<noteq> []" "conR_peers conR src = Some ps" "peer_step\<^sup>*\<^sup>* ps ps'"
  shows "reaction W src conR (push_msg m src (set_peer src ps' conR))"
  by (rule reaction_trans [OF reaction_set_peer reaction_push]) (use assms in auto)

lemma receive_maj23_reaction:
  assumes "receive_maj23 W K src msg ps conR = Some (out, conR')"
  shows "reaction W src conR conR'"
proof (cases "rs_Height (conS conR) = m23_Height msg")
  case True
  with assms obtain H e H' where H: "rs_Votes (conS conR) = Some H"
    "HeightVoteSet_SetPeerMaj23 (w_env W) (to_int (m23_Round msg)) (m23_Type msg) (ps_peer ps) (m23_BlockID msg) H = Some (e, H')"
    and "conR' = conR\<lparr>conS := (conS conR)\<lparr>rs_Votes := Some H'\<rparr>\<rparr>"
    by (auto simp: receive_maj23_def Let_def elim!: bind_eq_SomeE split: if_splits option.splits)
  then show ?thesis using reaction_cs [OF cs_claim [OF H]] by simp
next
  case False
  then show ?thesis using assms by (simp add: receive_maj23_def Let_def)
qed

lemma receive_state_reaction:
  assumes "receive_state W K now src msg ps conR = Some (out, conR')" "conR_peers conR src = Some ps"
  shows "reaction W src conR conR'"
  using assms
  by (cases msg) (auto simp: receive_state_def elim!: bind_eq_SomeE
      intro!: reaction_set_peer [OF assms(2)] r_into_rtranclp [of peer_step] dest: receive_maj23_reaction intro: peer_step.intros)

lemma receive_data_reaction:
  assumes "receive_data src msg ps conR = Some (out, conR')" "conR_peers conR src = Some ps" "src \<noteq> []"
  shows "reaction W src conR conR'"
proof (cases msg)
  case (Wire_BlockPart height rnd part)
  then show ?thesis
    using assms
    by (auto simp: receive_data_def elim!: bind_eq_SomeE split: if_splits prod.splits
        intro!: reaction_set_push dest!: peer_part peer_record_part)
qed (use assms in \<open>auto simp: receive_data_def elim!: bind_eq_SomeE split: if_splits
      intro!: reaction_set_push reaction_set_peer r_into_rtranclp [of peer_step] intro: peer_step.intros\<close>)

lemma receive_vote_reaction:
  assumes "receive_vote src msg ps conR = Some (out, conR')" "conR_peers conR src = Some ps" "src \<noteq> []"
  shows "reaction W src conR conR'"
proof (cases "\<not> ConsensusReactor_FastSync conR \<and> (\<exists>vote. msg = Wire_Vote vote)")
  case True
  then obtain vote where m: "msg = Wire_Vote vote" "\<not> ConsensusReactor_FastSync conR" by blast
  define e1 where "e1 v = PeerState_EnsureVoteBitArrays (rs_Height (conS conR)) v ps" for v
  define e2 where "e2 v = PeerState_EnsureVoteBitArrays (rs_Height (conS conR) - 1) (VoteSet_Size (rs_LastCommit (conS conR))) (e1 v)" for v
  from assms(1) obtain vals p3 k p4 v where "rs_Validators (conS conR) = Some vals"
    "PeerState_SetHasVote vote (e2 (ValidatorSet_Size vals)) = Some p3" "PeerState_RecordVote vote p3 = Some (k, p4)"
    and c: "conR' = push_msg (VoteMessage (Some v)) src (set_peer src p4 conR)"
    unfolding e2_def e1_def by (auto simp: receive_vote_def m Let_def elim!: bind_eq_SomeE)
  then have "peer_step\<^sup>*\<^sup>* ps (e1 (ValidatorSet_Size vals))" "peer_step (e1 (ValidatorSet_Size vals)) (e2 (ValidatorSet_Size vals))"
    "peer_step (e2 (ValidatorSet_Size vals)) p3" "peer_step p3 p4"
    by (auto simp: e1_def e2_def intro: peer_step.intros)
  then have "peer_step\<^sup>*\<^sup>* ps p4" by (meson rtranclp.rtrancl_into_rtrancl)
  then show ?thesis unfolding c by (rule reaction_set_push [OF assms(3,2)])
next
  case False
  then show ?thesis using assms(1) by (auto simp: receive_vote_def split: wire_msg.splits)
qed

lemma receive_bits_reaction:
  assumes "receive_bits W src msg ps conR = Some (out, conR')" "conR_peers conR src = Some ps"
  shows "reaction W src conR conR'"
  using assms
  by (cases msg) (auto simp: receive_bits_def elim!: bind_eq_SomeE split: if_splits option.splits
      intro!: reaction_set_peer r_into_rtranclp [of peer_step] intro: peer_bits)

lemma Receive_reaction:
  assumes r: "ConsensusReactor_Receive W K now chID src msgBytes conR = Some (out, conR')" and s: "src \<noteq> []"
  shows "reaction W src conR conR'"
proof -
  obtain hm where hm: "cs_hm (conS conR) = Some hm" using r by (cases "cs_hm (conS conR)") (auto simp: ConsensusReactor_Receive_def)
  let ?c = "ConsensusReactor_SetHealthMgr (Some (HealthMgr_Update src hm)) conR"
  have "reaction W src ?c conR'"
  proof (cases "conR_running conR \<and> decodeMsg K msgBytes \<noteq> None")
    case True
    then obtain msg where m: "decodeMsg K msgBytes = Some msg" by blast
    have run: "conR_running ?c" using True by (simp add: ConsensusReactor_SetHealthMgr_def)
    show ?thesis
      using r hm m run s unfolding ConsensusReactor_Receive_def
      by (auto simp: Let_def elim!: bind_eq_SomeE split: if_splits
          dest: receive_state_reaction receive_data_reaction receive_vote_reaction receive_bits_reaction)
  next
    case False
    then show ?thesis
      using r hm by (auto simp: ConsensusReactor_Receive_def Let_def ConsensusReactor_SetHealthMgr_def split: if_splits)
  qed
  then show ?thesis by (rule reaction_trans [OF reaction_health])
qed

section \<open>The composed system\<close>

text \<open>
  A step of the node: of the consensus state, the start of the reactor, a new peer, a message from a peer, or a pass of one
  of the routines for a peer. A peer has a name that is not empty.
\<close>

inductive reactor_step :: "'blk world \<Rightarrow> codec \<Rightarrow> 'blk ConsensusReactor \<Rightarrow> 'blk ConsensusReactor \<Rightarrow> bool" for W K where
  reactor_consensus: "cs_step W (conS conR) cs \<Longrightarrow> reactor_step W K conR (conR\<lparr>conS := cs\<rparr>)"
| reactor_start: "ConsensusReactor_OnStart W conR = Some (e, conR') \<Longrightarrow> reactor_step W K conR conR'"
| reactor_peer: "ConsensusReactor_AddPeer K now peer conR = Some (out, conR') \<Longrightarrow> reactor_step W K conR conR'"
| reactor_receive: "ConsensusReactor_Receive W K now chID src msgBytes conR = Some (out, conR') \<Longrightarrow> src \<noteq> [] \<Longrightarrow> reactor_step W K conR conR'"
| reactor_data: "ConsensusReactor_gossipDataRoutine K snt d alive peer conR = Some (out, conR') \<Longrightarrow> reactor_step W K conR conR'"
| reactor_votes: "ConsensusReactor_gossipVotesRoutine K snt ds alive peer conR = Some (out, conR') \<Longrightarrow> reactor_step W K conR conR'"
| reactor_query: "ConsensusReactor_queryMaj23Routine K alive peer conR = Some (out, conR') \<Longrightarrow> reactor_step W K conR conR'"

lemma with_peer_reaction:
  assumes "with_peer alive peer pass conR = Some (out, conR')"
    and "\<And>ps out ps'. pass ps = Some (out, ps') \<Longrightarrow> peer_step\<^sup>*\<^sup>* ps ps'"
  shows "reaction W peer conR conR'"
  using assms(1) by (auto simp: with_peer_def elim!: bind_eq_SomeE split: if_splits intro!: reaction_set_peer assms(2))

lemma PickSendVote_steps: "PeerState_PickSendVote d send votes ps = Some (res, ps') \<Longrightarrow> peer_step ps ps'"
  by (auto simp: PeerState_PickSendVote_def elim!: bind_eq_SomeE split: if_splits intro: peer_pick)

lemma try_send_steps: "try_send d send vs ps = Some (res, ps') \<Longrightarrow> peer_step\<^sup>*\<^sup>* ps ps'"
proof (induction vs arbitrary: ps res)
  case (Cons votes rest)
  then obtain sent out q where p: "PeerState_PickSendVote (d (length rest)) send votes ps = Some ((sent, out), q)"
    and q: "q = ps' \<or> (\<exists>r. try_send d send rest q = Some (r, ps'))"
    by (auto elim!: bind_eq_SomeE split: if_splits)
  then have "peer_step\<^sup>*\<^sup>* q ps'" using Cons.IH by blast
  then show ?case using PickSendVote_steps [OF p] by (rule converse_rtranclp_into_rtranclp [rotated])
qed simp

lemma gossip_votes_steps: "gossip_votes K snt d peer rs store ps = Some (out, ps') \<Longrightarrow> peer_step\<^sup>*\<^sup>* ps ps'"
  by (auto simp: gossip_votes_def ConsensusReactor_gossipVotesForHeight_def Let_def elim!: bind_eq_SomeE split: if_splits
      dest!: try_send_steps)

lemma part_steps: "PeerState_SetHasProposalBlockPart h r i ps = Some ps' \<Longrightarrow> peer_step\<^sup>*\<^sup>* ps ps'"
  by (rule r_into_rtranclp) (rule peer_part)

lemma proposal_steps: "PeerState_SetHasProposal p ps = Some ps' \<Longrightarrow> peer_step\<^sup>*\<^sup>* ps ps'"
  by (rule r_into_rtranclp) (rule peer_proposal)

lemma gossip_part_steps: "gossip_part K snt d peer rs ps = Some (out, ps') \<Longrightarrow> peer_step\<^sup>*\<^sup>* ps ps'"
  by (auto simp: gossip_part_def Let_def elim!: bind_eq_SomeE split: option.splits if_split_asm dest!: part_steps)

lemma catchup_part_steps: "catchup_part K snt d peer store prs ps = Some (out, ps') \<Longrightarrow> peer_step\<^sup>*\<^sup>* ps ps'"
  by (auto simp: catchup_part_def Let_def elim!: bind_eq_SomeE split: option.splits if_split_asm dest!: part_steps)

lemma gossipDataForCatchup_steps:
  "ConsensusReactor_gossipDataForCatchup K snt d peer store prs ps = Some (out, ps') \<Longrightarrow> peer_step\<^sup>*\<^sup>* ps ps'"
  by (auto simp: ConsensusReactor_gossipDataForCatchup_def elim!: bind_eq_SomeE split: option.splits if_split_asm
      dest!: catchup_part_steps proposal_steps)

lemma gossip_proposal_steps: "gossip_proposal K snt peer rs p ps = Some (out, ps') \<Longrightarrow> peer_step\<^sup>*\<^sup>* ps ps'"
  by (auto simp: gossip_proposal_def elim!: bind_eq_SomeE split: if_split_asm dest!: proposal_steps)

lemma init_steps: "peer_step\<^sup>*\<^sup>* ps q \<Longrightarrow> peer_step\<^sup>*\<^sup>* ps (PeerState_InitProposalBlockParts h q)"
  by (rule rtranclp.rtrancl_into_rtrancl) (auto intro: peer_parts)

lemma gossip_data_steps: "gossip_data K snt d peer rs store ps = Some (out, ps') \<Longrightarrow> peer_step\<^sup>*\<^sup>* ps ps'"
  by (auto simp: gossip_data_def Let_def elim!: bind_eq_SomeE split: option.splits if_split_asm
      dest!: gossip_part_steps gossipDataForCatchup_steps gossip_proposal_steps)
     (blast intro: rtranclp_trans init_steps)+

lemma reaction_peers:
  assumes "reaction W src conR conR'" "conR_peers conR' p = Some ps'"
  shows "\<exists>ps. conR_peers conR p = Some ps \<and> peer_step\<^sup>*\<^sup>* ps ps'"
  using assms by (cases "p = src") (auto simp: reaction_def option_rel_Some2)

text \<open>The consensus state moves by its own steps only, and the state of a peer by those of a peer state.\<close>

lemma reactor_step_parts:
  assumes "reactor_step W K conR conR'"
  shows "(cs_step W)\<^sup>*\<^sup>* (conS conR) (conS conR') \<and>
    (\<forall>p ps'. conR_peers conR' p = Some ps' \<longrightarrow>
       ps' = NewPeerState p \<or> (\<exists>ps. conR_peers conR p = Some ps \<and> peer_step\<^sup>*\<^sup>* ps ps'))"
proof -
  have r: ?thesis if "reaction W src conR conR'" for src
    using that reaction_peers [OF that] by (auto simp: reaction_def)
  from assms show ?thesis
  proof cases
    case (reactor_consensus cs)
    then show ?thesis by (intro r [of "[]"]) (simp add: reaction_cs)
  next
    case (reactor_start e)
    have "cs_step W (conS conR) b" if "ConsensusState_OnStart W (conS conR) = Some (x, b)" for x b
      using that by (rule cs_step.cs_start)
    with reactor_start have "cs_step W (conS conR) (conS conR') \<or> conS conR' = conS conR" "conR_peers conR' = conR_peers conR"
      by (auto simp: ConsensusReactor_OnStart_def elim!: bind_eq_SomeE split: if_splits go_error.splits)
    then show ?thesis by auto
  next
    case (reactor_peer now peer out)
    then show ?thesis
      by (auto simp: ConsensusReactor_AddPeer_def Let_def set_peer_def elim!: bind_eq_SomeE split: if_splits)
  next
    case (reactor_receive now chID src msgBytes out)
    then show ?thesis by (intro r [of src] Receive_reaction)
  next
    case (reactor_data snt d alive peer out)
    then show ?thesis unfolding ConsensusReactor_gossipDataRoutine_def
      by (intro r [of peer] with_peer_reaction) (auto dest: gossip_data_steps)
  next
    case (reactor_votes snt ds alive peer out)
    then show ?thesis unfolding ConsensusReactor_gossipVotesRoutine_def
      by (intro r [of peer] with_peer_reaction) (auto dest: gossip_votes_steps)
  next
    case (reactor_query alive peer out)
    then show ?thesis unfolding ConsensusReactor_queryMaj23Routine_def
      by (intro r [of peer] with_peer_reaction) (auto simp: Let_def elim!: bind_eq_SomeE)
  qed
qed

lemma apart_NewPeerState: "apart (NewPeerState p)"
  by (simp add: apart_def refs_apart_def NewPeerState_def)

definition node_inv :: "'blk world \<Rightarrow> 'blk ConsensusReactor \<Rightarrow> bool" where
  "node_inv W conR \<longleftrightarrow> (world_ok W \<longrightarrow> run_inv W (conS conR)) \<and> (\<forall>p ps. conR_peers conR p = Some ps \<longrightarrow> apart ps)"

interpretation rci: invariant_system "reactor_step W K" "node_inv W" for W K
proof
  fix conR conR'
  assume i: "node_inv W conR" and s: "reactor_step W K conR conR'"
  note parts = reactor_step_parts [OF s]
  show "node_inv W conR'"
    unfolding node_inv_def
  proof (intro conjI allI)
    show "world_ok W \<longrightarrow> run_inv W (conS conR')" 
      using i by (intro csi.invar_reach [OF conjunct1 [OF parts]]) (simp add: node_inv_def)
    show "conR_peers conR' p = Some ps \<longrightarrow> apart ps" for p ps
      using parts i apart_NewPeerState pst.invar_reach unfolding node_inv_def by metis
  qed
qed

lemma reactor_reach_cs: "(reactor_step W K)\<^sup>*\<^sup>* conR conR' \<Longrightarrow> (cs_step W)\<^sup>*\<^sup>* (conS conR) (conS conR')"
  by (induction rule: rtranclp_induct) (auto dest: reactor_step_parts)

end
