(* ===== verification/Gossip.thy ===== *)
theory Gossip
  imports Reactor Commit_Verify Vote_Set_Invariant
begin

text \<open>
  The gossip of votes comes to rest: from one sleep to the next the routine sends each peer at most as many votes as it is
  not known to have, and then sleeps.
\<close>

section \<open>What can be read\<close>

text \<open>The interface \<open>VoteSetReader\<close>, as the gossip of votes relies on it, and its two implementations.\<close>

locale vote_reader =
  fixes wrap :: "'v \<Rightarrow> VoteSetReader" and ok :: "'v \<Rightarrow> bool"
  assumes sound: "ok v \<Longrightarrow> reader_Size (wrap v) \<noteq> 0 \<Longrightarrow> reader_ok (wrap v)"
begin

lemma fitsI:
  assumes "ok v" "reader_Height (wrap v) = Some h \<Longrightarrow> reader_Size (wrap v) = n \<and> (reader_IsCommit (wrap v) \<longrightarrow> reader_Round (wrap v) = Some c)"
    and "\<And>g. reader_Height (wrap v) = Some g \<Longrightarrow> h = g + 1 \<Longrightarrow> reader_Size (wrap v) = m"
  shows "reader_fits n m c h (wrap v)"
  using assms sound by (auto simp: reader_fits_def)

end

lemma tracks_reader:
  assumes t: "ba.tracks p xs" and n: "xs \<noteq> []" "length xs < 2 ^ 63"
  shows "\<exists>b. p = Some b \<and> ba_wf b \<and> Bits b = of_nat (length xs) \<and> (\<forall>i. ba_bit b (unat i) \<longrightarrow> (\<exists>v. go_nth xs (unat (i :: u64)) = Some (Some v)))"
proof -
  have s: "unat (BitArray_Size p) = length xs" using t by (rule ba.tracks_length)
  then obtain b where b: "p = Some b" using n(1) by (cases p) (auto simp: BitArray_Size_def)
  moreover have "ba_wf b" using t by (simp add: ba.tracks_def b bap_wf_def)
  moreover have "Bits b = of_nat (length xs)" 
  proof -
    have "Bits b = of_nat (unat (Bits b))" by simp
    also have "\<dots> = of_nat (length xs)" using s by (simp only: b BitArray_Size_def option.case)
    finally show ?thesis .
  qed
  moreover have "\<exists>v. go_nth xs (unat i) = Some (Some v)" if "ba_bit b (unat i)" for i :: u64
    using t that by (auto simp: ba.tracks_def b bap_bit_def)
  ultimately show ?thesis by blast
qed

interpretation vrs: vote_reader "\<lambda>S. Votes_of (Some S)" "vset_inv E" for E
proof
  fix S
  assume i: "vset_inv E S" and n: "reader_Size (Votes_of (Some S)) \<noteq> 0"
  have l: "length (vs_votes S) = length (Validators (vs_valSet S))" "length (Validators (vs_valSet S)) < 2 ^ 63"
    and t: "ba.tracks (vs_votesBitArray S) (vs_votes S)"
    using i by (auto simp: vset_inv_def votes_ok_def powers_ok_def)
  have "vs_votes S \<noteq> []" using n l(1) by (auto simp: VoteSet_Size_def ValidatorSet_Size_def)
  from tracks_reader [OF t this] l show "reader_ok (Votes_of (Some S))"
    by (auto simp: reader_ok_def VoteSet_BitArray_def VoteSet_GetByIndex_def VoteSet_Size_def ValidatorSet_Size_def unat_of_nat64)
qed

definition commit_readable :: "Commit \<Rightarrow> bool" where
  "commit_readable c \<longleftrightarrow> commit_ok c \<and> length (Precommits c) < 2 ^ 63 \<and>
     (bitArray c = None \<or> ba.tracks (bitArray c) (Precommits c))"

text \<open>The loop of \<open>Commit.BitArray\<close> sets the bits of the precommits.\<close>

lemma commit_bits_tracks:
  assumes "length xs < 2 ^ 63"
  shows "\<exists>b. go_for (\<lambda>i b. map_option snd (BitArray_SetIndex b (of_nat i) (xs ! i \<noteq> None))) [0..<length xs]
    (NewBitArray (of_nat (length xs))) = Some b \<and> ba.tracks b xs"
proof -
  have "\<exists>b. go_for (\<lambda>i b. map_option snd (BitArray_SetIndex b (of_nat i) (xs ! i \<noteq> None))) [0..<k]
    (NewBitArray (of_nat (length xs))) = Some b \<and> bap_wf b \<and> BitArray_Size b = of_nat (length xs) \<and>
    (\<forall>i. bap_bit b i \<longleftrightarrow> i < k \<and> xs ! i \<noteq> None)" if "k \<le> length xs" for k
    using that
  proof (induction k)
    case 0
    have "unat (of_nat (length xs) :: u64) < 2 ^ 63" using assms by (simp add: unat_of_nat64)
    then show ?case using bap_NewBitArray by (auto simp: ba.new_size)
  next
    case (Suc k)
    then obtain b where b: "go_for (\<lambda>i b. map_option snd (BitArray_SetIndex b (of_nat i) (xs ! i \<noteq> None))) [0..<k]
      (NewBitArray (of_nat (length xs))) = Some b" "bap_wf b" "BitArray_Size b = of_nat (length xs)"
      "\<And>i. bap_bit b i \<longleftrightarrow> i < k \<and> xs ! i \<noteq> None" by auto
    have k: "unat (of_nat k :: u64) = k" "unat (of_nat (length xs) :: u64) = length xs"
      using Suc.prems assms by (auto intro!: unat_of_nat64)
    from SetIndex_content [OF b(2), of "of_nat k" "xs ! k \<noteq> None"] obtain b' where
      "BitArray_SetIndex b (of_nat k) (xs ! k \<noteq> None) = Some (k < length xs, b')" "bap_wf b'" "BitArray_Size b' = BitArray_Size b"
      "\<And>i. bap_bit b' i = (if i = k \<and> i < length xs then xs ! k \<noteq> None else bap_bit b i)"
      by (auto simp: k b(3))
    then show ?case using b Suc.prems by (auto simp: go_for_append less_Suc_eq)
  qed
  from this [of "length xs"] assms show ?thesis by (auto simp: ba.tracks_def unat_of_nat64)
qed

interpretation vrc: vote_reader Commit_of commit_readable
proof
  fix c
  assume c: "commit_readable c" and n: "reader_Size (Commit_of c) \<noteq> 0"
  have l: "length (Precommits c) < 2 ^ 63" "commit_ok c" using c by (simp_all add: commit_readable_def)
  have ne: "Precommits c \<noteq> []" using n by (auto simp: Commit_Size_def)
  obtain b c' where b: "Commit_BitArray c = Some (b, c')" "ba.tracks b (Precommits c)"
  proof (cases "bitArray c")
    case None
    obtain b where "go_for (\<lambda>i b. map_option snd (BitArray_SetIndex b (of_nat i) (Precommits c ! i \<noteq> None))) [0..<length (Precommits c)]
      (NewBitArray (of_nat (length (Precommits c)))) = Some b" "ba.tracks b (Precommits c)"
      using commit_bits_tracks [OF l(1)] by blast
    then show ?thesis using that None by (simp add: Commit_BitArray_def)
  next
    case (Some b)
    then show ?thesis using that [of "Some b" c] c by (simp add: Commit_BitArray_def commit_readable_def)
  qed
  from tracks_reader [OF b(2) ne l(1)] Commit_Height_eq [OF l(2)] Commit_Round_eq [OF l(2)] b(1) l(1)
  show "reader_ok (Commit_of c)"
    by (auto simp: reader_ok_def Commit_GetByIndex_def Commit_Size_def unat_of_nat64)
qed

section \<open>A pass\<close>

text \<open>Trying one set after the other sends at most as many votes as the peer lacks, and ends.\<close>

lemma PickSendVote_adds:
  assumes f: "fits n m ps" and v: "reader_fits n m c (prs_Height (PRS ps)) votes" and send: "\<And>v. send v \<noteq> None"
  shows "\<exists>sent out ps'. PeerState_PickSendVote d send votes ps = Some ((sent, out), ps') \<and> adds n m c ps ps' \<and>
    length out + lacks n m c ps' \<le> lacks n m c ps \<and> (\<forall>x \<in> set out. \<exists>v b. send v = Some (b, x)) \<and> (sent \<longrightarrow> out \<noteq> []) \<and>
    (out = [] \<longrightarrow> reader_Size votes \<noteq> 0 \<longrightarrow> has_all votes ps')"
proof -
  obtain vote ok ps' where p: "PeerState_PickVoteToSend d votes ps = Some ((vote, ok), ps')" "adds n m c ps ps'"
    "if ok then vote \<noteq> None \<and> lacks n m c ps' < lacks n m c ps else reader_Size votes \<noteq> 0 \<longrightarrow> has_all votes ps'"
    using PickVoteToSend_adds [OF f v] by blast
  show ?thesis
  proof (cases ok)
    case True
    then obtain w where w: "vote = Some w" "lacks n m c ps' < lacks n m c ps" using p(3) by auto
    obtain b x where s: "send w = Some (b, x)" using send [of w] by auto
    have "PeerState_PickSendVote d send votes ps = Some ((b, [x]), ps')" by (simp add: PeerState_PickSendVote_def p(1) True w s)
    then show ?thesis using p(2) w(2) s by (intro exI [of _ b] exI [of _ "[x]"] exI [of _ ps']) auto
  next
    case False
    have l: "lacks n m c ps' \<le> lacks n m c ps" using p(2) f by (simp add: adds_def)
    have "PeerState_PickSendVote d send votes ps = Some ((False, []), ps')" by (simp add: PeerState_PickSendVote_def p(1) False)
    then show ?thesis using p(2,3) False l by (intro exI [of _ False] exI [of _ "[]"] exI [of _ ps']) auto
  qed
qed

lemma try_send_adds:
  assumes "fits n m ps" "\<forall>v \<in> set vs. reader_fits n m c (prs_Height (PRS ps)) v" "\<And>v. send v \<noteq> None"
  shows "\<exists>sent out ps'. try_send d send vs ps = Some ((sent, out), ps') \<and> adds n m c ps ps' \<and>
    length out + lacks n m c ps' \<le> lacks n m c ps \<and> (\<forall>x \<in> set out. \<exists>v b. send v = Some (b, x)) \<and> (sent \<longrightarrow> out \<noteq> [])"
  using assms(1,2)
proof (induction vs arbitrary: ps)
  case Nil
  show ?case by (intro exI [of _ False] exI [of _ "[]"] exI [of _ ps]) simp
next
  case (Cons votes rest)
  obtain sent out q where q: "PeerState_PickSendVote (d (length rest)) send votes ps = Some ((sent, out), q)" "adds n m c ps q"
    "length out + lacks n m c q \<le> lacks n m c ps" "\<forall>x \<in> set out. \<exists>v b. send v = Some (b, x)" "sent \<longrightarrow> out \<noteq> []"
    using PickSendVote_adds [of n m ps c votes send "d (length rest)"] Cons.prems assms(3) by auto
  show ?case
  proof (cases sent)
    case True
    then show ?thesis using q by (intro exI [of _ True] exI [of _ out] exI [of _ q]) simp
  next
    case False
    have "fits n m q" "prs_Height (PRS q) = prs_Height (PRS ps)" using q(2) Cons.prems(1) by (auto simp: adds_def same_place_def)
    with Cons.IH [of q] Cons.prems(2) obtain sent2 outs r where r: "try_send d send rest q = Some ((sent2, outs), r)" "adds n m c q r"
      "length outs + lacks n m c r \<le> lacks n m c q" "\<forall>x \<in> set outs. \<exists>v b. send v = Some (b, x)" "sent2 \<longrightarrow> outs \<noteq> []"
      by auto
    have "try_send d send (votes # rest) ps = Some ((sent2, out @ outs), r)" using False by (simp add: q(1) r(1))
    moreover have "adds n m c ps r" by (rule adds_trans [OF q(2) r(2)])
    ultimately show ?thesis using q(3,4) r(3-5)
      by (intro exI [of _ sent2] exI [of _ "out @ outs"] exI [of _ r]) auto
  qed
qed

text \<open>
  The sets of votes from which the routine serves the peer fit the arrays of the peer. Which sets these are depends only
  on the place of the peer.
\<close>

definition serves :: "u64 \<Rightarrow> u64 \<Rightarrow> int \<Rightarrow> 'blk RoundState \<Rightarrow> 'blk BlockStore \<Rightarrow> PeerRoundState \<Rightarrow> bool" where
  "serves n m c rs store prs \<longleftrightarrow>
     (rs_Height rs = prs_Height prs \<longrightarrow>
        (\<exists>H. rs_Votes rs = Some H \<and> (\<forall>v \<in> set (votes_for_height rs H prs). reader_fits n m c (prs_Height prs) v))) \<and>
     (\<forall>v \<in> set (votes_for_catchup rs store prs). reader_fits n m c (prs_Height prs) v)"

lemma same_place_votes:
  assumes "same_place p q"
  shows "votes_for_height rs H q = votes_for_height rs H p" and "votes_for_catchup rs store q = votes_for_catchup rs store p"
  using assms by (simp_all add: same_place_def votes_for_height_def votes_for_catchup_def)

lemma serves_place:
  assumes "same_place p q"
  shows "serves n m c rs store q = serves n m c rs store p"
  unfolding serves_def same_place_votes [OF assms] using assms by (simp add: same_place_def)

definition sends :: "r_output list \<Rightarrow> nat" where
  "sends out = length (filter (\<lambda>x. x \<noteq> Sleep) out)"

lemma gossip_votes_pass:
  fixes rs :: "'blk RoundState"
  assumes f: "fits n m ps" and s: "serves n m c rs store (PRS ps)" and K: "\<And>v. k_encode K (Wire_Vote (Some v)) \<noteq> None"
  shows "\<exists>out ps'. gossip_votes K snt d peer rs store ps = Some (out, ps') \<and> adds n m c ps ps' \<and>
    sends out + lacks n m c ps' \<le> lacks n m c ps \<and> (Sleep \<notin> set out \<longrightarrow> lacks n m c ps' < lacks n m c ps)"
proof -
  let ?send = "\<lambda>v. send_to K snt peer VoteChannel (Wire_Vote (Some v))"
  have send: "?send v \<noteq> None" for v using K [of v] by (auto simp: send_to_def)
  have out: "sends o1 = length o1 \<and> Sleep \<notin> set o1" if "\<forall>x \<in> set o1. \<exists>v b. ?send v = Some (b, x)" for o1
  proof -
    have "x \<noteq> Sleep" if "x \<in> set o1" for x
      using that \<open>\<forall>x \<in> set o1. _ x\<close> by (auto simp: send_to_def elim!: bind_eq_SomeE)
    then show ?thesis by (auto simp: sends_def filter_id_conv)
  qed
  have "\<exists>sent o1 q. (if rs_Height rs = prs_Height (PRS ps) then ConsensusReactor_gossipVotesForHeight d ?send rs (PRS ps) ps
      else Some ((False, []), ps)) = Some ((sent, o1), q) \<and> adds n m c ps q \<and> length o1 + lacks n m c q \<le> lacks n m c ps \<and>
      (\<forall>x \<in> set o1. \<exists>v b. ?send v = Some (b, x)) \<and> (sent \<longrightarrow> o1 \<noteq> [])"
  proof (cases "rs_Height rs = prs_Height (PRS ps)")
    case True
    then obtain H where H: "rs_Votes rs = Some H" "\<forall>v \<in> set (votes_for_height rs H (PRS ps)). reader_fits n m c (prs_Height (PRS ps)) v"
      using s by (auto simp: serves_def)
    show ?thesis
      using try_send_adds [OF f H(2), of ?send d] send True H(1) by (simp add: ConsensusReactor_gossipVotesForHeight_def)
  qed auto
  then obtain sent o1 q where q: "(if rs_Height rs = prs_Height (PRS ps) then ConsensusReactor_gossipVotesForHeight d ?send rs (PRS ps) ps
      else Some ((False, []), ps)) = Some ((sent, o1), q)" "adds n m c ps q" "length o1 + lacks n m c q \<le> lacks n m c ps"
      "\<forall>x \<in> set o1. \<exists>v b. ?send v = Some (b, x)" "sent \<longrightarrow> o1 \<noteq> []"
    by blast
  show ?thesis
  proof (cases sent)
    case True
    have "gossip_votes K snt d peer rs store ps = Some (o1, q)"
      unfolding gossip_votes_def Let_def PeerState_GetRoundState_def q(1) using True by simp
    moreover have "lacks n m c q < lacks n m c ps" using q(3,5) True by (cases o1) auto
    ultimately show ?thesis using q(2,3) out [OF q(4)] by auto
  next
    case False
    have "fits n m q" "prs_Height (PRS q) = prs_Height (PRS ps)" using q(2) f by (auto simp: adds_def same_place_def)
    with try_send_adds [of n m q "votes_for_catchup rs store (PRS ps)" c ?send d] s send
    obtain sent2 o2 r where r: "try_send d ?send (votes_for_catchup rs store (PRS ps)) q = Some ((sent2, o2), r)" "adds n m c q r"
      "length o2 + lacks n m c r \<le> lacks n m c q" "\<forall>x \<in> set o2. \<exists>v b. ?send v = Some (b, x)" "sent2 \<longrightarrow> o2 \<noteq> []"
      by (auto simp: serves_def)
    have g: "gossip_votes K snt d peer rs store ps = Some (o1 @ o2 @ (if sent2 then [] else [Sleep]), r)"
      unfolding gossip_votes_def Let_def PeerState_GetRoundState_def q(1) using False by (simp add: r(1))
    have "sends (o1 @ o2 @ (if sent2 then [] else [Sleep])) = length o1 + length o2"
      using out [OF q(4)] out [OF r(4)] by (simp add: sends_def)
    moreover have "lacks n m c r < lacks n m c ps" if sent2 using that r(3,5) q(3) by (cases o2) auto
    ultimately show ?thesis using g adds_trans [OF q(2) r(2)] q(3) r(3) by auto
  qed
qed

section \<open>From one sleep to the next\<close>

lemma gossip_votes_awake_returns:
  assumes "fits n m ps" "serves n m c rs store (PRS ps)" and K: "\<And>v. k_encode K (Wire_Vote (Some v)) \<noteq> None"
  shows "\<exists>out ps'. gossip_votes_awake K snt d peer rs store k ps = Some (out, ps') \<and> Sleep \<in> set out \<and> adds n m c ps ps' \<and>
    sends out + lacks n m c ps' \<le> lacks n m c ps \<and>
    (\<exists>q j o1. adds n m c ps q \<and> gossip_votes K snt (d j) peer rs store q = Some (o1, ps') \<and> Sleep \<in> set o1)"
  using assms(1,2)
proof (induction "lacks n m c ps" arbitrary: ps k rule: less_induct)
  case less
  obtain out q where q: "gossip_votes K snt (d k) peer rs store ps = Some (out, q)" "adds n m c ps q"
    "sends out + lacks n m c q \<le> lacks n m c ps" "Sleep \<notin> set out \<longrightarrow> lacks n m c q < lacks n m c ps"
    using gossip_votes_pass [OF less.prems K] by blast
  show ?case
  proof (cases "Sleep \<in> set out")
    case True
    then have "gossip_votes_awake K snt d peer rs store k ps = Some (out, q)" by (subst gossip_votes_awake.simps) (simp add: q(1))
    then show ?thesis using q True adds_refl by blast
  next
    case False
    have f: "fits n m q" "same_place (PRS ps) (PRS q)" using q(2) less.prems(1) by (auto simp: adds_def)
    have s: "serves n m c rs store (PRS q)" by (simp only: serves_place [OF f(2)] less.prems(2))
    obtain outs r where
      r: "gossip_votes_awake K snt d peer rs store (Suc k) q = Some (outs, r)" "Sleep \<in> set outs" "adds n m c q r"
        "sends outs + lacks n m c r \<le> lacks n m c q"
        "\<exists>p j o1. adds n m c q p \<and> gossip_votes K snt (d j) peer rs store p = Some (o1, r) \<and> Sleep \<in> set o1"
      using less.hyps [OF q(4) [rule_format, OF False] f(1) s, of "Suc k"] by blast
    have "gossip_votes_awake K snt d peer rs store k ps = Some (out @ outs, r)"
      using False by (subst gossip_votes_awake.simps) (simp add: q(1) r(1))
    moreover have "sends (out @ outs) + lacks n m c r \<le> lacks n m c ps" using q(3) r(4) by (simp add: sends_def)
    moreover have "\<exists>p j o1. adds n m c ps p \<and> gossip_votes K snt (d j) peer rs store p = Some (o1, r) \<and> Sleep \<in> set o1"
      using r(5) adds_trans [OF q(2)] by blast
    ultimately show ?thesis using r(2) adds_trans [OF q(2) r(3)] by auto
  qed
qed

lemma lacks_le: "fits n m ps \<Longrightarrow> lacks n m c ps \<le> 5 * unat n + unat m"
  by (auto simp: lacks_def rooms_fields fits_fields dest!: room_le)

section \<open>What a node serves\<close>

text \<open>
  The round state and the store of a node from which votes are gossiped: the votes of the height, the last commit for the
  height before, and for each height of the store a commit for it.
\<close>

definition gossip_ready :: "env \<Rightarrow> 'blk RoundState \<Rightarrow> 'blk BlockStore \<Rightarrow> bool" where
  "gossip_ready E rs store \<longleftrightarrow>
     (\<exists>H. rs_Votes rs = Some H \<and> hvs_inv E H \<and> hvs_height H = rs_Height rs) \<and>
     (\<forall>S. rs_LastCommit rs = Some S \<longrightarrow> vset_inv E S \<and> vs_height S + 1 = rs_Height rs) \<and>
     (\<forall>h commit. BlockStore_LoadBlockCommit h store = Some commit \<longrightarrow> commit_readable commit \<and> Height (commit_first commit) = h) \<and>
     unat (rs_Height rs) < 2 ^ 63"

text \<open>
  The sizes that the arrays of a peer must have: at the node's height the sizes of its committee and of its last commit,
  at a height before it the size of the commit for that height.
\<close>

definition sized :: "u64 \<Rightarrow> u64 \<Rightarrow> int \<Rightarrow> 'blk RoundState \<Rightarrow> 'blk BlockStore \<Rightarrow> PeerRoundState \<Rightarrow> bool" where
  "sized n m c rs store prs \<longleftrightarrow>
     (rs_Height rs = prs_Height prs \<longrightarrow>
        (\<forall>H. rs_Votes rs = Some H \<longrightarrow> n = ValidatorSet_Size (hvs_valSet H)) \<and> m = VoteSet_Size (rs_LastCommit rs) \<and> c = to_int (prs_Round prs)) \<and>
     (rs_Height rs = prs_Height prs + 1 \<longrightarrow>
        (\<forall>S. rs_LastCommit rs = Some S \<longrightarrow> n = VoteSet_Size (Some S) \<and> c = VoteSet_Round (Some S))) \<and>
     (rs_Height rs \<ge> prs_Height prs + 2 \<longrightarrow>
        (\<forall>commit. BlockStore_LoadBlockCommit (prs_Height prs) store = Some commit \<longrightarrow>
           n = Commit_Size (Some commit) \<and> c = to_int (Round (commit_first commit))))"

lemma Votes_of_None [simp]: "reader_fits n m c h (Votes_of None)"
  by (simp add: reader_fits_def VoteSet_Size_def)

lemma member_fits:
  assumes "hvs_inv E H" "HeightVoteSet_getVoteSet H r t = Some S" "t = VoteTypePrecommit \<Longrightarrow> c = r" "int64 r"
  shows "reader_fits (ValidatorSet_Size (hvs_valSet H)) m c (hvs_height H) (Votes_of (Some S))"
proof (rule vrs.fitsI [of E])
  have ok: "member_ok E H r t S" by (rule getVoteSet_member [OF assms(1,2)])
  then show "vset_inv E S" by (simp add: member_ok_def)
  show "reader_Size (Votes_of (Some S)) = ValidatorSet_Size (hvs_valSet H) \<and>
    (reader_IsCommit (Votes_of (Some S)) \<longrightarrow> reader_Round (Votes_of (Some S)) = Some c)"
    using ok assms(3,4) by (auto simp: member_ok_def VoteSet_Size_def VoteSet_Round_def VoteSet_IsCommit_def split: if_splits)
  show "reader_Size (Votes_of (Some S)) = m" if "reader_Height (Votes_of (Some S)) = Some g" "hvs_height H = g + 1" for g
    using ok that by (simp add: member_ok_def VoteSet_Height_def)
qed

lemma Prevotes_fits:
  assumes "hvs_inv E H" "int64 r"
  shows "reader_fits (ValidatorSet_Size (hvs_valSet H)) m c (hvs_height H) (Votes_of (HeightVoteSet_Prevotes H r))"
  using member_fits [OF assms(1), of r VoteTypePrevote] assms(2)
  by (cases "HeightVoteSet_Prevotes H r") (auto simp: HeightVoteSet_Prevotes_def)

lemma Precommits_fits:
  assumes "hvs_inv E H" "int64 r"
  shows "reader_fits (ValidatorSet_Size (hvs_valSet H)) m r (hvs_height H) (Votes_of (HeightVoteSet_Precommits H r))"
  using member_fits [OF assms(1), of r VoteTypePrecommit] assms(2)
  by (cases "HeightVoteSet_Precommits H r") (auto simp: HeightVoteSet_Precommits_def)

lemma one_of_two:
  "v \<in> set ((if A then [x] else []) @ (if B then (case z of Some y \<Rightarrow> [f y] | None \<Rightarrow> []) else [])) \<Longrightarrow>
    A \<and> v = x \<or> (\<exists>y. B \<and> z = Some y \<and> v = f y)"
  by (cases z; cases A; cases B; simp; blast?)

lemma ready_serves:
  assumes g: "gossip_ready E rs store" and z: "sized n m c rs store prs"
  shows "serves n m c rs store prs"
  unfolding serves_def
proof (intro conjI impI ballI)
  obtain H where H: "rs_Votes rs = Some H" "hvs_inv E H" "hvs_height H = rs_Height rs" using g by (auto simp: gossip_ready_def)
  have last: "reader_fits n (VoteSet_Size (rs_LastCommit rs)) c (rs_Height rs) (Votes_of (rs_LastCommit rs))"
  proof (cases "rs_LastCommit rs")
    case (Some S)
    then have S: "vset_inv E S" "vs_height S + 1 = rs_Height rs" using g by (auto simp: gossip_ready_def)
    show ?thesis unfolding Some by (rule vrs.fitsI [OF S(1)]) (use S(2) in \<open>auto simp: VoteSet_Height_def\<close>)
  qed simp
  show "\<exists>H. rs_Votes rs = Some H \<and> (\<forall>v \<in> set (votes_for_height rs H prs). reader_fits n m c (prs_Height prs) v)"
    if h: "rs_Height rs = prs_Height prs"
  proof -
    have e: "n = ValidatorSet_Size (hvs_valSet H)" "m = VoteSet_Size (rs_LastCommit rs)" "c = to_int (prs_Round prs)"
      "prs_Height prs = hvs_height H"
      using z h H by (simp_all add: sized_def)
    have "reader_fits n m c (prs_Height prs) v" if "v \<in> set (votes_for_height rs H prs)" for v
      using that last Prevotes_fits [OF H(2)] Precommits_fits [OF H(2)] unfolding e H(3) [symmetric]
      by (auto simp: votes_for_height_def Let_def split: if_splits)
    then show ?thesis using H(1) by blast
  qed
  show "reader_fits n m c (prs_Height prs) v" if v: "v \<in> set (votes_for_catchup rs store prs)" for v
  proof -
    consider (last) "rs_Height rs = prs_Height prs + 1" "v = Votes_of (rs_LastCommit rs)"
      | (commit) commit where "rs_Height rs \<ge> prs_Height prs + 2" "BlockStore_LoadBlockCommit (prs_Height prs) store = Some commit"
          "v = Commit_of commit"
      using one_of_two [OF v [unfolded votes_for_catchup_def]] by blast
    then show ?thesis
    proof cases
      case last
      show ?thesis
      proof (cases "rs_LastCommit rs")
        case (Some S)
        then have S: "vset_inv E S" "vs_height S + 1 = rs_Height rs" using g by (auto simp: gossip_ready_def)
        show ?thesis unfolding last(2) Some
          by (rule vrs.fitsI [OF S(1)]) (use z S(2) last(1) Some in \<open>auto simp: sized_def VoteSet_Height_def\<close>)
      qed (simp add: last(2))
    next
      case (commit commit)
      then have c: "commit_readable commit" "Height (commit_first commit) = prs_Height prs" using g by (auto simp: gossip_ready_def)
      then have h: "reader_Height (Commit_of commit) = Some (prs_Height prs)"
        "reader_Round (Commit_of commit) = Some (to_int (Round (commit_first commit)))"
        using Commit_Height_eq [of commit] Commit_Round_eq [of commit] by (auto simp: commit_readable_def)
      show ?thesis unfolding commit(3)
        by (rule vrc.fitsI [OF c(1)]) (use z commit(1,2) h in \<open>auto simp: sized_def\<close>)
    qed
  qed
qed

section \<open>A peer that lags\<close>

text \<open>The peer has an array for the votes, and each vote is recorded in it.\<close>

definition knows :: "VoteSetReader \<Rightarrow> PeerState \<Rightarrow> bool" where
  "knows votes ps \<longleftrightarrow>
     (\<exists>h rnd b r a. reader_Height votes = Some h \<and> reader_Round votes = Some rnd \<and> reader_BitArray votes = Some (Some b) \<and>
        PeerState_getVoteBitArray h rnd (reader_Type votes) ps = Some r \<and> array_at (Some r) ps = Some a \<and>
        (\<forall>i. ba_bit b i \<longrightarrow> ba_bit a i))"

lemma ensure_array_get:
  assumes "n \<noteq> 0" "\<And>r p. get (put r p) = r"
  shows "get (PRS (ensure_array get put n ps)) \<noteq> None"
proof -
  obtain b where "NewBitArray n = Some b" using assms(1) by (cases "NewBitArray n") auto
  then show ?thesis using assms(2) by (auto simp: ensure_array_def new_array_def)
qed

lemma ensure_array_keeps:
  assumes "\<And>r p. f (put r p) = f p"
  shows "f (PRS (ensure_array get put n ps)) = f (PRS ps)"
  using assms by (auto simp: ensure_array_def dest!: new_array_PRS split: prod.splits)

lemma ensureVoteBitArrays_fields:
  assumes "prs_Height (PRS ps) = h" "n \<noteq> 0"
  defines "p \<equiv> PRS (PeerState_ensureVoteBitArrays h n ps)"
  shows "prs_Precommits p \<noteq> None" and "prs_CatchupCommit p \<noteq> None" and "prs_Height p = h"
    and "prs_Round p = prs_Round (PRS ps)" and "prs_CatchupCommitRound p = prs_CatchupCommitRound (PRS ps)"
  unfolding p_def PeerState_ensureVoteBitArrays_def Let_def using assms(1,2)
  by (simp_all add: ensure_array_keeps ensure_array_get del: not_None_eq)

lemma ensureCatchupCommitRound_fields:
  fixes ps :: PeerState and rnd :: int and n :: u64
  assumes "prs_Height (PRS ps) = h"
  defines "p \<equiv> PRS (PeerState_ensureCatchupCommitRound h rnd n ps)"
  shows "prs_Height p = h" and "prs_Round p = prs_Round (PRS ps)" and "prs_CatchupCommitRound p = rnd"
  unfolding p_def using assms(1)
  by (auto simp: PeerState_ensureCatchupCommitRound_def Let_def dest!: new_array_PRS split: prod.splits)

lemma commit_has_array:
  assumes "prs_Height (PRS ps) = h" "n \<noteq> 0"
  shows "PeerState_getVoteBitArray h rnd VoteTypePrecommit
    (PeerState_ensureVoteBitArrays h n (PeerState_ensureCatchupCommitRound h rnd n ps)) \<noteq> None"
proof -
  let ?q = "PeerState_ensureCatchupCommitRound h rnd n ps"
  note c = ensureCatchupCommitRound_fields [OF assms(1), of rnd n]
  note e = ensureVoteBitArrays_fields [OF c(1) assms(2)]
  show ?thesis using e c by (simp add: PeerState_getVoteBitArray_def Let_def IsVoteTypeValid_def)
qed

lemma refused_commit_known:
  assumes f: "fits n m ps" and v: "reader_fits n m c (prs_Height (PRS ps)) votes" and ne: "reader_Size votes \<noteq> 0"
    and k: "reader_IsCommit votes" "reader_Type votes = VoteTypePrecommit" "reader_Height votes = Some (prs_Height (PRS ps))"
    and p: "PeerState_PickSendVote d send votes ps = Some ((sent, []), ps')" and send: "\<And>v. send v \<noteq> None"
  shows "knows votes ps'"
proof -
  let ?h = "prs_Height (PRS ps)"
  obtain vote where pick: "PeerState_PickVoteToSend d votes ps = Some ((vote, False), ps')"
    using p by (auto simp: PeerState_PickSendVote_def elim!: bind_eq_SomeE split: if_splits)
  have ok: "reader_ok votes" using v ne by (simp add: reader_fits_def)
  then obtain rnd b where r: "reader_Round votes = Some rnd" "reader_BitArray votes = Some (Some b)"
    unfolding reader_ok_def by auto
  have ps': "ps' = PeerState_ensureVoteBitArrays ?h (reader_Size votes) (PeerState_ensureCatchupCommitRound ?h rnd (reader_Size votes) ps)"
    using pick ne k r
    by (auto simp: PeerState_PickVoteToSend_def Let_def elim!: bind_eq_SomeE split: option.splits if_splits)
  obtain i where i: "PeerState_getVoteBitArray ?h rnd VoteTypePrecommit ps' = Some i"
    using commit_has_array [OF refl ne, where rnd = rnd] unfolding ps' by blast
  have a: "adds n m c ps ps'" "has_all votes ps'" using PickVoteToSend_adds [OF f v, of d] pick ne by auto
  then have "fits n m ps'" "prs_Height (PRS ps') = ?h" using f by (auto simp: adds_def same_place_def)
  then have "array_at (Some i) ps' \<noteq> None"
    using getVoteBitArray_field [OF i] by (auto simp: fits_fields ref_fits_def)
  then show ?thesis using a(2) i k r unfolding knows_def has_all_def by fastforce
qed

text \<open>A pass for a peer that lags, when every message is taken: either a vote is sent or the peer knows them all.\<close>

lemma lagging_pass_knows:
  assumes f: "fits n m ps" and s: "serves n m c rs store (PRS ps)" and K: "\<And>v. k_encode K (Wire_Vote (Some v)) \<noteq> None"
    and l: "votes_for_catchup rs store (PRS ps) = [votes]" "rs_Height rs \<noteq> prs_Height (PRS ps)"
    and k: "reader_Size votes \<noteq> 0" "reader_IsCommit votes" "reader_Type votes = VoteTypePrecommit"
      "reader_Height votes = Some (prs_Height (PRS ps))"
    and g: "gossip_votes K (\<lambda>_. True) d peer rs store ps = Some (out, ps')" "Sleep \<in> set out"
  shows "knows votes ps'"
proof -
  let ?send = "\<lambda>v. send_to K (\<lambda>_. True) peer VoteChannel (Wire_Vote (Some v))"
  have send: "?send v \<noteq> None" for v using K [of v] by (auto simp: send_to_def)
  have v: "reader_fits n m c (prs_Height (PRS ps)) votes" using s l(1) by (simp add: serves_def)
  have taken: "b" if "?send w = Some (b, x)" for w b x using that by (auto simp: send_to_def elim!: bind_eq_SomeE)
  obtain sent o1 q where q: "PeerState_PickSendVote (d 0) ?send votes ps = Some ((sent, o1), q)"
    "sent \<longrightarrow> o1 \<noteq> []" "\<forall>x \<in> set o1. \<exists>v b. ?send v = Some (b, x)"
    using PickSendVote_adds [OF f v, of ?send "d 0"] send by blast
  have b: "sent \<longleftrightarrow> o1 \<noteq> []"
    using q(1,2) taken by (auto simp: PeerState_PickSendVote_def elim!: bind_eq_SomeE split: if_splits)
  have no: "Sleep \<notin> set o1" using q(3) by (auto simp: send_to_def elim!: bind_eq_SomeE)
  have "out = o1 @ (if sent then [] else [Sleep]) \<and> ps' = q"
    using g(1) l q(1) by (cases sent) (auto simp: gossip_votes_def Let_def PeerState_GetRoundState_def)
  with g(2) no b have "o1 = []" "ps' = q" by (auto split: if_splits)
  then show ?thesis using refused_commit_known [OF f v k _ send] q(1) by simp
qed

section \<open>Only what is sent is recorded\<close>

text \<open>A precommit of the peer's height that is recorded as known to it.\<close>

definition has_precommit :: "u64 \<Rightarrow> int \<Rightarrow> PeerState \<Rightarrow> nat \<Rightarrow> bool" where
  "has_precommit h rnd ps i \<longleftrightarrow> (\<exists>a. array_at (PeerState_getVoteBitArray h rnd VoteTypePrecommit ps) ps = Some a \<and> ba_bit a i)"

lemma get_precommits:
  "prs_Height (PRS ps) = h \<Longrightarrow> PeerState_getVoteBitArray h rnd VoteTypePrecommit ps =
     (if to_int (prs_Round (PRS ps)) = rnd then prs_Precommits (PRS ps)
      else if prs_CatchupCommitRound (PRS ps) = rnd then prs_CatchupCommit (PRS ps) else None)"
  by (simp add: PeerState_getVoteBitArray_def Let_def IsVoteTypeValid_def)

definition field_bit :: "(PeerRoundState \<Rightarrow> bits_ref) \<Rightarrow> PeerState \<Rightarrow> nat \<Rightarrow> bool" where
  "field_bit f ps i \<longleftrightarrow> (\<exists>a. array_at (f (PRS ps)) ps = Some a \<and> ba_bit a i)"

definition live :: "(PeerRoundState \<Rightarrow> bits_ref) \<Rightarrow> PeerState \<Rightarrow> bool" where
  "live f ps \<longleftrightarrow> f (PRS ps) = None \<or> array_at (f (PRS ps)) ps \<noteq> None"

lemma fits_live: "fits n m ps \<Longrightarrow> live prs_Precommits ps \<and> live prs_CatchupCommit ps"
  by (auto simp: fits_fields ref_fits_def live_def)

lemma new_array_at:
  assumes "new_array (NewBitArray k) ps = (r, ps')" "unat k < 2 ^ 63"
  shows "r = None \<or> (\<exists>a. array_at r ps' = Some a \<and> (\<forall>i. \<not> ba_bit a i))" "array_at q ps \<noteq> None \<Longrightarrow> array_at q ps' = array_at q ps"
proof -
  have z: "\<not> ba_bit a i" if "NewBitArray k = Some a" for a i
    using ba.new_content [OF assms(2), of i] that by (simp add: bap_bit_def)
  show "r = None \<or> (\<exists>a. array_at r ps' = Some a \<and> (\<forall>i. \<not> ba_bit a i))"
    using assms(1) z by (auto simp: new_array_def array_at_def split: option.splits)
  show "array_at q ps \<noteq> None \<Longrightarrow> array_at q ps' = array_at q ps"
    using assms(1) by (cases q) (auto simp: new_array_def array_at_def nth_append split: option.splits if_splits)
qed

lemma ensure_array_bits:
  assumes f: "\<And>r p. f (put r p) = f p \<or> f (put r p) = r \<and> f p = get p" and l: "live f ps" and k: "unat k < 2 ^ 63"
  shows "live f (ensure_array get put k ps)" and "field_bit f (ensure_array get put k ps) i \<Longrightarrow> field_bit f ps i"
proof -
  obtain r ps' where n: "new_array (NewBitArray k) ps = (r, ps')" by fastforce
  note a = new_array_at [OF n k] and P = new_array_PRS [OF n]
  have "live f (set_prs (put r) ps') \<and> (field_bit f (set_prs (put r) ps') i \<longrightarrow> field_bit f ps i)"
    using f [of r "PRS ps"] l a(1) a(2) [of "f (PRS ps)"] by (auto simp: live_def field_bit_def P)
  then show "live f (ensure_array get put k ps)" "field_bit f (ensure_array get put k ps) i \<Longrightarrow> field_bit f ps i"
    using l by (auto simp: ensure_array_def n split: if_splits)
qed

lemma ensureVoteBitArrays_bits:
  assumes f: "f = prs_Precommits \<or> f = prs_CatchupCommit" and l: "live f ps" and k: "unat k < 2 ^ 63"
  shows "field_bit f (PeerState_ensureVoteBitArrays (prs_Height (PRS ps)) k ps) i \<Longrightarrow> field_bit f ps i"
proof -
  let ?a = "ensure_array prs_Prevotes (\<lambda>r prs. prs\<lparr>prs_Prevotes := r\<rparr>) k"
  let ?b = "ensure_array prs_Precommits (\<lambda>r prs. prs\<lparr>prs_Precommits := r\<rparr>) k"
  let ?c = "ensure_array prs_CatchupCommit (\<lambda>r prs. prs\<lparr>prs_CatchupCommit := r\<rparr>) k"
  let ?d = "ensure_array prs_ProposalPOL (\<lambda>r prs. prs\<lparr>prs_ProposalPOL := r\<rparr>) k"
  have e: "live f (h p) \<and> (field_bit f (h p) i \<longrightarrow> field_bit f p i)" if "live f p" "h \<in> {?a, ?b, ?c, ?d}" for h p
    using that(2) by (elim insertE emptyE) (use that(1) f k in \<open>auto intro: ensure_array_bits dest: ensure_array_bits(2) [rotated -1]\<close>)
  have e1: "live f (?a ps) \<and> (field_bit f (?a ps) i \<longrightarrow> field_bit f ps i)" by (rule e) (use l in simp_all)
  have e2: "live f (?b (?a ps)) \<and> (field_bit f (?b (?a ps)) i \<longrightarrow> field_bit f (?a ps) i)" by (rule e) (use e1 in simp_all)
  have e3: "live f (?c (?b (?a ps))) \<and> (field_bit f (?c (?b (?a ps))) i \<longrightarrow> field_bit f (?b (?a ps)) i)"
    by (rule e) (use e2 in simp_all)
  have e4: "live f (?d (?c (?b (?a ps)))) \<and> (field_bit f (?d (?c (?b (?a ps)))) i \<longrightarrow> field_bit f (?c (?b (?a ps))) i)"
    by (rule e) (use e3 in simp_all)
  have "field_bit f (?d (?c (?b (?a ps)))) i \<longrightarrow> field_bit f ps i" using e1 e2 e3 e4 by blast
  then show "field_bit f (PeerState_ensureVoteBitArrays (prs_Height (PRS ps)) k ps) i \<Longrightarrow> field_bit f ps i"
    by (simp add: PeerState_ensureVoteBitArrays_def Let_def)
qed

lemma ensureVoteBitArrays_precommits:
  assumes l: "live prs_Precommits ps" "live prs_CatchupCommit ps" and h: "prs_Height (PRS ps) = h" and k: "unat k < 2 ^ 63" "k \<noteq> 0"
  shows "has_precommit h rnd (PeerState_ensureVoteBitArrays h k ps) i \<Longrightarrow> has_precommit h rnd ps i"
proof -
  let ?q = "PeerState_ensureVoteBitArrays h k ps"
  note e = ensureVoteBitArrays_fields [OF h k(2)]
  have "field_bit prs_Precommits ?q i \<Longrightarrow> field_bit prs_Precommits ps i" "field_bit prs_CatchupCommit ?q i \<Longrightarrow> field_bit prs_CatchupCommit ps i"
    using ensureVoteBitArrays_bits [of _ ps k i] l k(1) h by auto
  then show "has_precommit h rnd ?q i \<Longrightarrow> has_precommit h rnd ps i"
    by (simp add: has_precommit_def get_precommits h e field_bit_def split: if_splits)
qed

lemma ensureCatchupCommitRound_precommits:
  fixes rnd :: int
  assumes l: "live prs_Precommits ps" "live prs_CatchupCommit ps" and h: "prs_Height (PRS ps) = h" and k: "unat k < 2 ^ 63"
  defines "q \<equiv> PeerState_ensureCatchupCommitRound h rnd k ps"
  shows "live prs_Precommits q" "live prs_CatchupCommit q" "has_precommit h rnd q i \<Longrightarrow> has_precommit h rnd ps i"
proof -
  let ?p = "set_prs (\<lambda>prs. prs\<lparr>prs_CatchupCommitRound := rnd\<rparr>) ps"
  obtain r ps' where n: "new_array (NewBitArray k) ?p = (r, ps')" by fastforce
  have a: "r = None \<or> (\<exists>a. array_at r ps' = Some a \<and> (\<forall>i. \<not> ba_bit a i))" by (rule new_array_at(1) [OF n k])
  have o: "array_at x ps \<noteq> None \<Longrightarrow> array_at x ps' = array_at x ps" for x using new_array_at(2) [OF n k, of x] by simp
  have P: "PRS ps' = (PRS ps)\<lparr>prs_CatchupCommitRound := rnd\<rparr>" using new_array_PRS [OF n] by simp
  have "live prs_Precommits q \<and> live prs_CatchupCommit q \<and> (has_precommit h rnd q i \<longrightarrow> has_precommit h rnd ps i)"
    unfolding q_def PeerState_ensureCatchupCommitRound_def Let_def n
    using l h a o [of "prs_Precommits (PRS ps)"] o [of "prs_CatchupCommit (PRS ps)"]
    by (auto simp: live_def has_precommit_def get_precommits P split: if_splits)
  then show "live prs_Precommits q" "live prs_CatchupCommit q" "has_precommit h rnd q i \<Longrightarrow> has_precommit h rnd ps i" by auto
qed

lemma set_bit_of_content:
  assumes "array_at r ps = Some a" "ba_wf a"
  obtains ps' a' where "set_bit_of r k ps = Some ps'" "PRS ps' = PRS ps" "array_at r ps' = Some a'" "Bits a' = Bits a"
    "\<And>i. ba_bit a' i \<longleftrightarrow> i = unat k \<and> unat k < unat (Bits a) \<or> ba_bit a i"
proof -
  obtain a' where a': "BitArray_setIndex a k True = Some (unat k < unat (Bits a), a')" "Bits a' = Bits a"
    "\<And>i. ba_bit a' i = (if i = unat k \<and> i < unat (Bits a) then True else ba_bit a i)"
    by (rule setIndex_total [OF assms(2), of k True], rule that; assumption)
  obtain j where j: "r = Some j" "j < length (ps_arrays ps)" using assms(1) by (auto simp: array_at_def split: option.splits if_splits)
  let ?ps = "write_array r (Some a') ps"
  have "set_bit_of r k ps = Some ?ps" by (simp add: set_bit_of_def assms(1) BitArray_SetIndex_def a'(1))
  moreover have "PRS ?ps = PRS ps" "array_at r ?ps = Some a'" using j by (simp_all add: write_array_def array_at_def)
  ultimately show ?thesis by (rule that) (use a' in auto)
qed

lemma setHasVote_adds_one:
  assumes s: "PeerState_setHasVote h rnd VoteTypePrecommit j ps = Some ps'" and i: "has_precommit h rnd ps' i" and f: "fits n m ps"
  shows "has_precommit h rnd ps i \<or> i = unat j"
proof (cases "PeerState_getVoteBitArray h rnd VoteTypePrecommit ps")
  case None
  then show ?thesis using s i by (simp add: PeerState_setHasVote_def)
next
  case (Some r)
  then obtain a where a: "array_at (Some r) ps = Some a" "ba_wf a"
    using getVoteBitArray_field [OF Some] f by (auto simp: fits_fields ref_fits_def)
  obtain ps2 a' where b: "set_bit_of (Some r) j ps = Some ps2" "PRS ps2 = PRS ps" "array_at (Some r) ps2 = Some a'"
    "\<And>i. ba_bit a' i \<longleftrightarrow> i = unat j \<and> unat j < unat (Bits a) \<or> ba_bit a i"
    by (rule set_bit_of_content [OF a, of j], rule that; assumption)
  have "ps2 = ps'" using s b(1) Some by (simp add: PeerState_setHasVote_def)
  then have "PeerState_getVoteBitArray h rnd VoteTypePrecommit ps' = Some r" using Some b(2) by (simp add: PeerState_getVoteBitArray_def)
  then show ?thesis using i a(1) b(3,4) Some \<open>ps2 = ps'\<close> by (auto simp: has_precommit_def)
qed

lemma pick_commit_sent:
  assumes f: "fits n m ps" and v: "reader_fits n m c (prs_Height (PRS ps)) votes" and ne: "reader_Size votes \<noteq> 0"
    and k: "reader_IsCommit votes" "reader_Type votes = VoteTypePrecommit" "reader_Height votes = Some h" "reader_Round votes = Some rnd"
      "prs_Height (PRS ps) = h"
    and p: "PeerState_PickVoteToSend d votes ps = Some ((vote, ok), ps')"
  shows "has_precommit h rnd ps' i \<Longrightarrow> has_precommit h rnd ps i \<or> (\<exists>j. ok \<and> unat j = i \<and> reader_GetByIndex votes j = Some vote)"
proof -
  let ?s = "reader_Size votes"
  let ?p1 = "PeerState_ensureCatchupCommitRound h rnd ?s ps"
  let ?p2 = "PeerState_ensureVoteBitArrays h ?s ?p1"
  have s: "unat ?s < 2 ^ 63" "?s = n" using v ne k(3,5) by (auto simp: reader_fits_def reader_ok_def)
  note l = fits_live [OF f, THEN conjunct1] fits_live [OF f, THEN conjunct2]
  note c1 = ensureCatchupCommitRound_precommits [OF l k(5) s(1), where rnd = rnd] and h1 = ensureCatchupCommitRound_fields(1) [OF k(5), of rnd ?s]
  have p2: "has_precommit h rnd ?p2 i \<Longrightarrow> has_precommit h rnd ps i"
    using c1(3) ensureVoteBitArrays_precommits [OF c1(1,2) h1 s(1) ne] by blast
  have "adds n m c ps ?p1" by (rule ensureCatchupCommitRound_adds) (use v ne k s in \<open>auto simp: reader_fits_def\<close>)
  moreover have "adds n m c ?p1 ?p2" by (rule ensureVoteBitArrays_adds) (use h1 s in \<open>auto\<close>)
  ultimately have f2: "fits n m ?p2" using f by (simp add: adds_def)
  show "has_precommit h rnd ps i \<or> (\<exists>j. ok \<and> unat j = i \<and> reader_GetByIndex votes j = Some vote)" if i: "has_precommit h rnd ps' i"
  proof (cases "\<exists>j. PeerState_setHasVote h rnd VoteTypePrecommit j ?p2 = Some ps' \<and> ok \<and> reader_GetByIndex votes j = Some vote")
    case True
    then obtain j where j: "PeerState_setHasVote h rnd VoteTypePrecommit j ?p2 = Some ps'" "ok" "reader_GetByIndex votes j = Some vote" by blast
    have "has_precommit h rnd ?p2 i \<or> i = unat j"
      by (rule setHasVote_adds_one [OF j(1) i f2])
    then show ?thesis using p2 j by blast
  next
    case False
    then have "ps' = ?p2" using p ne k
      by (auto simp: PeerState_PickVoteToSend_def Let_def elim!: bind_eq_SomeE split: option.splits if_splits)
    then show ?thesis using p2 i by blast
  qed
qed

text \<open>The vote at an index was handed over to the peer.\<close>

definition delivered :: "codec \<Rightarrow> string \<Rightarrow> VoteSetReader \<Rightarrow> r_output list \<Rightarrow> nat \<Rightarrow> bool" where
  "delivered K peer votes out i \<longleftrightarrow>
     (\<exists>j v bytes. unat j = i \<and> reader_GetByIndex votes j = Some (Some v) \<and> k_encode K (Wire_Vote (Some v)) = Some bytes \<and>
        Send peer VoteChannel bytes \<in> set out)"

text \<open>The votes of a commit for the height at which a peer is, and a peer to which only they are gossiped.\<close>

definition commit_for :: "u64 \<Rightarrow> int \<Rightarrow> VoteSetReader \<Rightarrow> bool" where
  "commit_for h rnd votes \<longleftrightarrow> reader_Size votes \<noteq> 0 \<and> reader_IsCommit votes \<and> reader_Type votes = VoteTypePrecommit \<and>
     reader_Height votes = Some h \<and> reader_Round votes = Some rnd"

definition only_gets :: "u64 \<Rightarrow> VoteSetReader \<Rightarrow> 'blk RoundState \<Rightarrow> 'blk BlockStore \<Rightarrow> PeerRoundState \<Rightarrow> bool" where
  "only_gets h votes rs store prs \<longleftrightarrow>
     votes_for_catchup rs store prs = [votes] \<and> prs_Height prs = h \<and> rs_Height rs \<noteq> h"

lemma only_gets_place: "same_place p q \<Longrightarrow> only_gets h votes rs store q = only_gets h votes rs store p"
  by (simp add: only_gets_def same_place_votes(2)) (simp add: same_place_def)

lemma lagging_pass_sent:
  assumes f: "fits n m ps" and s: "serves n m c rs store (PRS ps)" and c: "commit_for h rnd votes" and l: "only_gets h votes rs store (PRS ps)"
    and g: "gossip_votes K snt d peer rs store ps = Some (out, ps')" and i: "has_precommit h rnd ps' i"
  shows "has_precommit h rnd ps i \<or> delivered K peer votes out i"
proof -
  let ?send = "\<lambda>v. send_to K snt peer VoteChannel (Wire_Vote (Some v))"
  have v: "reader_fits n m c (prs_Height (PRS ps)) votes" using s l by (simp add: serves_def only_gets_def)
  obtain sent o1 where q: "PeerState_PickSendVote (d 0) ?send votes ps = Some ((sent, o1), ps')" "set o1 \<subseteq> set out"
    using g l by (auto simp: gossip_votes_def only_gets_def Let_def PeerState_GetRoundState_def subset_insertI elim!: bind_eq_SomeE split: if_splits)
  obtain vote ok where p: "PeerState_PickVoteToSend (d 0) votes ps = Some ((vote, ok), ps')"
    and o: "ok \<Longrightarrow> \<exists>w x b. vote = Some w \<and> ?send w = Some (b, x) \<and> x \<in> set o1"
    using q(1) by (auto simp: PeerState_PickSendVote_def elim!: bind_eq_SomeE split: if_splits)
  have "has_precommit h rnd ps i \<or> (\<exists>j. ok \<and> unat j = i \<and> reader_GetByIndex votes j = Some vote)"
    by (rule pick_commit_sent [OF f v _ _ _ _ _ _ p i]) (use c l in \<open>simp_all add: commit_for_def only_gets_def\<close>)
  then show ?thesis
  proof (elim disjE exE conjE)
    fix j assume j: ok "unat j = i" "reader_GetByIndex votes j = Some vote"
    obtain w x b where w: "vote = Some w" "?send w = Some (b, x)" "x \<in> set out" using o [OF j(1)] q(2) by blast
    then obtain bytes where "k_encode K (Wire_Vote (Some w)) = Some bytes" "x = Send peer VoteChannel bytes"
      by (auto simp: send_to_def elim!: bind_eq_SomeE)
    then show ?thesis using j w unfolding delivered_def by blast
  qed simp
qed

lemma lagging_awake_sent:
  assumes K: "\<And>v. k_encode K (Wire_Vote (Some v)) \<noteq> None" and c: "commit_for h rnd votes"
    and "gossip_votes_awake K snt d peer rs store k ps = Some (out, ps')"
    and "fits n m ps" "serves n m c rs store (PRS ps)" "only_gets h votes rs store (PRS ps)" "has_precommit h rnd ps' i"
  shows "has_precommit h rnd ps i \<or> delivered K peer votes out i"
  using assms(3-7)
proof (induction "lacks n m c ps" arbitrary: ps k out rule: less_induct)
  case less
  obtain o1 q where q: "gossip_votes K snt (d k) peer rs store ps = Some (o1, q)" "adds n m c ps q"
    "Sleep \<notin> set o1 \<longrightarrow> lacks n m c q < lacks n m c ps"
    using gossip_votes_pass [OF less.prems(2,3) K] by blast
  note pass = lagging_pass_sent [OF less.prems(2,3) c less.prems(4) q(1)]
  have f: "fits n m q" "same_place (PRS ps) (PRS q)" using q(2) less.prems(2) by (auto simp: adds_def)
  have s: "serves n m c rs store (PRS q)" "only_gets h votes rs store (PRS q)"
    by (simp_all only: serves_place [OF f(2)] only_gets_place [OF f(2)] less.prems(3,4))
  show ?case
  proof (cases "Sleep \<in> set o1")
    case True
    then have "out = o1 \<and> ps' = q" using less.prems(1) by (subst (asm) gossip_votes_awake.simps) (simp add: q(1))
    then show ?thesis using pass less.prems(5) by blast
  next
    case False
    then obtain outs where r: "gossip_votes_awake K snt d peer rs store (Suc k) q = Some (outs, ps')" "out = o1 @ outs"
      using less.prems(1) by (subst (asm) gossip_votes_awake.simps) (auto simp: q(1) elim!: bind_eq_SomeE)
    have "has_precommit h rnd q i \<or> delivered K peer votes outs i"
      by (rule less.hyps [OF q(3) [rule_format, OF False] r(1) f(1) s less.prems(5)])
    then show ?thesis using pass r(2) unfolding delivered_def by auto
  qed
qed

lemma lagging_peer_served:
  fixes rs :: "'blk RoundState"
  assumes g: "gossip_ready E rs store" and S: "rs_LastCommit rs = Some S" "VoteSet_IsCommit (Some S)" "VoteSet_Size (Some S) \<noteq> 0"
    and h: "prs_Height (PRS ps) \<noteq> 0" "rs_Height rs = prs_Height (PRS ps) + 1" and f: "fits (VoteSet_Size (Some S)) m ps"
    and K: "\<And>v. k_encode K (Wire_Vote (Some v)) \<noteq> None"
  shows "\<exists>out ps'. gossip_votes_awake K (\<lambda>_. True) d peer rs store k ps = Some (out, ps') \<and> Sleep \<in> set out \<and>
    knows (Votes_of (Some S)) ps' \<and>
    (\<forall>i. has_precommit (vs_height S) (VoteSet_Round (Some S)) ps' i \<longrightarrow>
       has_precommit (vs_height S) (VoteSet_Round (Some S)) ps i \<or> delivered K peer (Votes_of (Some S)) out i)"
proof -
  let ?n = "VoteSet_Size (Some S)" and ?c = "VoteSet_Round (Some S)"
  have u: "unat (prs_Height (PRS ps) + 1) < 2 ^ 63" using g h(2) by (simp add: gossip_ready_def)
  have vs: "vs_height S = prs_Height (PRS ps)" using g S(1) h(2) by (auto simp: gossip_ready_def)
  have nl: "\<not> x + 2 \<le> x + 1" if "unat (x + 1) < 2 ^ 63" for x :: u64
  proof -
    have "unat (y + 1) = unat y + 1" if "unat y < 2 ^ 63" for y :: u64 using that by (simp add: unat_word_ariths)
    from this [OF that] have "x + 1 < x + 1 + 1" by (simp add: word_less_nat_alt)
    then show ?thesis by (simp add: add.assoc not_le)
  qed
  have z: "sized ?n m ?c rs store (PRS ps)" using S(1) h(2) nl [OF u] by (simp add: sized_def)
  note s = ready_serves [OF g z]
  have l: "votes_for_catchup rs store (PRS ps) = [Votes_of (Some S)]"
    using S(1) h nl [OF u] by (simp add: votes_for_catchup_def)
  obtain out ps' q j o1 where r: "gossip_votes_awake K (\<lambda>_. True) d peer rs store k ps = Some (out, ps')" "Sleep \<in> set out"
    and q: "adds ?n m ?c ps q" "gossip_votes K (\<lambda>_. True) (d j) peer rs store q = Some (o1, ps')" "Sleep \<in> set o1"
    using gossip_votes_awake_returns [OF f s K, of "\<lambda>_. True" d peer k] by blast
  have p: "fits ?n m q" "same_place (PRS ps) (PRS q)" using q(1) f by (auto simp: adds_def)
  have "knows (Votes_of (Some S)) ps'"
  proof (rule lagging_pass_knows [OF p(1) _ K _ _ _ _ _ _ q(2,3)])
    show "serves ?n m ?c rs store (PRS q)" by (simp only: s serves_place [OF p(2)])
    show "votes_for_catchup rs store (PRS q) = [Votes_of (Some S)]" by (simp only: l same_place_votes(2) [OF p(2)])
    show "rs_Height rs \<noteq> prs_Height (PRS q)" using h(2) p(2) by (simp add: same_place_def)
    show "reader_Type (Votes_of (Some S)) = VoteTypePrecommit"
      using S(2) by (auto simp: VoteSet_IsCommit_def VoteSet_Type_def split: if_splits)
    show "reader_Height (Votes_of (Some S)) = Some (prs_Height (PRS q))" using vs p(2) by (simp add: VoteSet_Height_def same_place_def)
  qed (use S in simp_all)
  moreover have "has_precommit (vs_height S) ?c ps i \<or> delivered K peer (Votes_of (Some S)) out i"
    if "has_precommit (vs_height S) ?c ps' i" for i
  proof (rule lagging_awake_sent [OF K _ r(1) f s _ that])
    show "commit_for (vs_height S) ?c (Votes_of (Some S))"
      using S(2,3) by (auto simp: commit_for_def VoteSet_IsCommit_def VoteSet_Type_def VoteSet_Height_def split: if_splits)
    show "only_gets (vs_height S) (Votes_of (Some S)) rs store (PRS ps)" using l h(2) vs by (simp add: only_gets_def)
  qed
  ultimately show ?thesis using r by blast
qed

end
