(* ===== verification/Reactor_Properties.thy ===== *)
theory Reactor_Properties
  imports Consensus_Run Reactor_Steps Gossip
begin

text \<open>
  What the reactor promises: messages of peers move the consensus state only by its own steps, what is recorded of a peer is
  recorded in one place and does not go back, and the gossip of votes comes to rest with the peer knowing them all.
\<close>

section \<open>Concrete states\<close>

definition demo_wire :: "wire_msg \<Rightarrow> codec" where
  "demo_wire m = \<lparr>k_encode = (\<lambda>_. Some []), k_decode = (\<lambda>_. Some m), k_seconds = (\<lambda>_. 0)\<rparr>"

definition demo_step :: NewRoundStepMessage where
  "demo_step = \<lparr>nrs_Height = 1, nrs_Round = 0, nrs_Step = RoundStepPrevote, nrs_SecondsSinceStartTime = 0, nrs_LastCommitRound = 0\<rparr>"

definition demo_peer :: PeerState where
  "demo_peer = PeerState_ApplyNewRoundStepMessage 0 demo_step (NewPeerState ''p'')"

definition demo_reactor :: "bytes ConsensusReactor" where
  "demo_reactor =
     \<lparr>conS = solo_setup (zero_state solo_world solo_state solo_agent []), conR_running = True, conR_fastSync = False,
      conR_peers = (\<lambda>_. Some (NewPeerState ''p''))\<rparr>"

definition demo_proposal :: Proposal where
  "demo_proposal = \<lparr>pHeight = 1, pRound = 0, pTimestamp = 0, BlockPartsHeader = zero_header, POLRound = - 1, POLBlockID = zero_BlockID, pSignature = []\<rparr>"

lemma demo_peer_PRS:
  "PRS demo_peer = (PRS (NewPeerState ''p''))\<lparr>prs_Height := 1, prs_Round := 0, prs_Step := RoundStepPrevote, prs_LastCommitRound := 0,
     prs_ProposalBlockPartsHeader := zero_header\<rparr>"
  by (simp add: demo_peer_def PeerState_ApplyNewRoundStepMessage_def Let_def CompareHRS_def NewPeerState_def demo_step_def)

lemma demo_peer_step: "peer_step\<^sup>*\<^sup>* (NewPeerState ''p'') demo_peer"
  unfolding demo_peer_def by (rule r_into_rtranclp) (rule peer_round_step)

section \<open>Messages and the consensus state\<close>

text \<open>The message for the consensus state that a message on a channel carries.\<close>

definition carried :: "byte \<Rightarrow> wire_msg \<Rightarrow> ConsensusMessage option" where
  "carried chID msg =
     (case msg of
        Wire_Proposal p \<Rightarrow> if chID = DataChannel then Some (ProposalMessage p) else None
      | Wire_BlockPart height rnd part \<Rightarrow> if chID = DataChannel then Some (BlockPartMessage height rnd part) else None
      | Wire_Vote vote \<Rightarrow> if chID = VoteChannel then Some (VoteMessage vote) else None
      | _ \<Rightarrow> None)"

definition queued :: "codec \<Rightarrow> byte \<Rightarrow> string \<Rightarrow> bytes \<Rightarrow> 'blk ConsensusReactor \<Rightarrow> msgInfo list" where
  "queued K chID src msgBytes conR =
     (if conR_running conR \<and> \<not> ConsensusReactor_FastSync conR
      then (case Option.bind (decodeMsg K msgBytes) (carried chID) of None \<Rightarrow> [] | Some m \<Rightarrow> [\<lparr>Msg = m, PeerID = src\<rparr>])
      else [])"

definition only_queues :: "msgInfo list \<Rightarrow> 'blk ConsensusState \<Rightarrow> 'blk ConsensusState \<Rightarrow> bool" where
  "only_queues ms cs cs' \<longleftrightarrow>
     (\<exists>hm votes. cs' = cs\<lparr>cs_hm := hm, rs_Votes := votes, cs_peerMsgQueue := cs_peerMsgQueue cs @ ms\<rparr>)"

lemma only_queuesI: "cs' = cs\<lparr>cs_hm := hm, rs_Votes := votes, cs_peerMsgQueue := cs_peerMsgQueue cs @ ms\<rparr> \<Longrightarrow> only_queues ms cs cs'"
  unfolding only_queues_def by blast

lemma only_queues_id: "only_queues [] cs cs"
  by (rule only_queuesI [where hm = "cs_hm cs" and votes = "rs_Votes cs"]) simp

lemma only_queues_push: "only_queues [\<lparr>Msg = m, PeerID = src\<rparr>] (conS conR) (conS (push_msg m src (set_peer src ps conR)))"
  by (rule only_queuesI [where hm = "cs_hm (conS conR)" and votes = "rs_Votes (conS conR)"]) (simp add: push_msg_def set_peer_def)

lemma conS_set_peer [simp]: "conS (set_peer src ps conR) = conS conR"
  by (simp add: set_peer_def)

lemma receive_maj23_queues:
  assumes "receive_maj23 W K src msg ps conR = Some (out, conR')"
  shows "only_queues [] (conS conR) (conS conR')"
proof -
  obtain votes where "conS conR' = (conS conR)\<lparr>rs_Votes := votes\<rparr>"
  proof (cases "conR' = conR")
    case True
    then show ?thesis using that [of "rs_Votes (conS conR)"] by simp
  qed (use assms that in \<open>auto simp: receive_maj23_def Let_def elim!: bind_eq_SomeE split: if_splits option.splits\<close>)
  then show ?thesis by (intro only_queuesI [where hm = "cs_hm (conS conR)" and votes = votes]) simp
qed

lemma receive_queues:
  "receive_state W K now src msg ps conR = Some (out, conR') \<Longrightarrow> only_queues [] (conS conR) (conS conR')"
  "receive_bits W src msg ps conR = Some (out, conR') \<Longrightarrow> only_queues [] (conS conR) (conS conR')"
  "receive_data src msg ps conR = Some (out, conR') \<Longrightarrow> only_queues (if ConsensusReactor_FastSync conR then [] else
     case carried DataChannel msg of None \<Rightarrow> [] | Some m \<Rightarrow> [\<lparr>Msg = m, PeerID = src\<rparr>]) (conS conR) (conS conR')"
  "receive_vote src msg ps conR = Some (out, conR') \<Longrightarrow> only_queues (if ConsensusReactor_FastSync conR then [] else
     case carried VoteChannel msg of None \<Rightarrow> [] | Some m \<Rightarrow> [\<lparr>Msg = m, PeerID = src\<rparr>]) (conS conR) (conS conR')"
  by (cases msg; auto simp: receive_state_def receive_bits_def receive_data_def receive_vote_def carried_def Let_def only_queues_id
      elim!: bind_eq_SomeE split: if_splits option.splits prod.splits intro: only_queues_push dest: receive_maj23_queues)+

lemma Receive_queues:
  assumes r: "ConsensusReactor_Receive W K now chID src msgBytes conR = Some (out, conR')"
  shows "only_queues (queued K chID src msgBytes conR) (conS conR) (conS conR')"
proof -
  obtain hm where hm: "cs_hm (conS conR) = Some hm" using r by (cases "cs_hm (conS conR)") (auto simp: ConsensusReactor_Receive_def)
  let ?c = "ConsensusReactor_SetHealthMgr (Some (HealthMgr_Update src hm)) conR"
  have run: "conR_running ?c = conR_running conR" "ConsensusReactor_FastSync ?c = ConsensusReactor_FastSync conR"
    by (simp_all add: ConsensusReactor_SetHealthMgr_def ConsensusReactor_FastSync_def)
  have "only_queues (queued K chID src msgBytes conR) (conS ?c) (conS conR')"
  proof (cases "conR_running conR \<and> decodeMsg K msgBytes \<noteq> None")
    case True
    then obtain msg where m: "decodeMsg K msgBytes = Some msg" by blast
    have other: "carried chID msg = None" if "chID \<noteq> DataChannel" "chID \<noteq> VoteChannel"
      using that by (simp add: carried_def split: wire_msg.splits)
    obtain ps where "(if chID = StateChannel then receive_state W K now src msg ps ?c
        else if chID = DataChannel then receive_data src msg ps ?c else if chID = VoteChannel then receive_vote src msg ps ?c
        else if chID = VoteSetBitsChannel then receive_bits W src msg ps ?c else Some ([], ?c)) = Some (out, conR')"
      using r hm m True run by (auto simp: ConsensusReactor_Receive_def Let_def elim!: bind_eq_SomeE)
    then show ?thesis
      using receive_queues [where src = src and msg = msg and ps = ps and conR = ?c and out = out and conR' = conR'] True m other only_queues_id [of "conS ?c"] run
      by (auto simp: queued_def split: if_splits)
  next
    case False
    then show ?thesis
      using r hm run only_queues_id by (auto simp: ConsensusReactor_Receive_def Let_def queued_def split: if_splits)
  qed
  then show ?thesis
    unfolding only_queues_def by (auto simp: ConsensusReactor_SetHealthMgr_def ConsensusState_SetHealthMgr_def)
qed

text \<open>
  C8: messages act through the queue and the interface. Handling a message of a peer whose name is not empty, whatever its
  bytes and channel, appends to the peer queue exactly the proposal, part or vote that it carries on its channel, under the
  name of that peer, and nothing while the node syncs. Beside the queue it changes only the health manager and the votes of
  the consensus state, and these along steps of its own. It takes the state of that peer along steps of a peer state and
  changes the state of no other peer.
\<close>

theorem Receive_refines_steps:
  assumes "ConsensusReactor_Receive W K now chID src msgBytes conR = Some (out, conR')" "src \<noteq> []"
  shows "(\<exists>hm votes. conS conR' = (conS conR)\<lparr>cs_hm := hm, rs_Votes := votes,
      cs_peerMsgQueue := cs_peerMsgQueue (conS conR) @ queued K chID src msgBytes conR\<rparr>) \<and>
    (cs_step W)\<^sup>*\<^sup>* (conS conR) (conS conR') \<and> rel_option peer_step\<^sup>*\<^sup>* (conR_peers conR src) (conR_peers conR' src) \<and>
    (\<forall>p. p \<noteq> src \<longrightarrow> conR_peers conR' p = conR_peers conR p)"
  using Receive_reaction [OF assms] Receive_queues [OF assms(1)] by (simp add: reaction_def only_queues_def)

theorem Receive_refines_steps_witness:
  "\<exists>conR'. ConsensusReactor_Receive solo_world (demo_wire (Wire_Proposal (Some demo_proposal))) 0 DataChannel ''p'' [] demo_reactor = Some ([], conR') \<and>
     cs_peerMsgQueue (conS conR') = cs_peerMsgQueue (conS demo_reactor) @ [\<lparr>Msg = ProposalMessage (Some demo_proposal), PeerID = ''p''\<rparr>] \<and>
     (cs_step solo_world)\<^sup>*\<^sup>* (conS demo_reactor) (conS conR')"
proof -
  let ?K = "demo_wire (Wire_Proposal (Some demo_proposal))"
  have "ConsensusReactor_Receive solo_world ?K 0 DataChannel ''p'' [] demo_reactor \<noteq> None"
    "map_option fst (ConsensusReactor_Receive solo_world ?K 0 DataChannel ''p'' [] demo_reactor) = Some []"
    by (simp_all add: ConsensusReactor_Receive_def demo_reactor_def demo_wire_def solo_setup_def ConsensusState_SetHealthMgr_def
        ConsensusState_SetCommitteeInfo_def ConsensusReactor_SetHealthMgr_def ConsensusReactor_FastSync_def decodeMsg_def receive_data_def
        PeerState_SetHasProposal_def Let_def NewPeerState_def demo_proposal_def)
  then obtain conR' where r: "ConsensusReactor_Receive solo_world ?K 0 DataChannel ''p'' [] demo_reactor = Some ([], conR')" by auto
  moreover have "queued ?K DataChannel ''p'' [] demo_reactor = [\<lparr>Msg = ProposalMessage (Some demo_proposal), PeerID = ''p''\<rparr>]"
    by (simp add: queued_def carried_def decodeMsg_def demo_wire_def demo_reactor_def ConsensusReactor_FastSync_def)
  ultimately show ?thesis using Receive_refines_steps [OF r] by auto
qed

section \<open>What is recorded of a peer\<close>

text \<open>
  C11: a vote is recorded, and for itself alone. In every state of a peer that is reached from its start, recording a vote of
  one height, round and type leaves what is recorded for every other height, round or type as it is, although fields of the
  state may share an array. Where the peer has an array for the votes that has room for the index, the bit of the vote is
  set in it and no other bit changes.
\<close>

theorem votes_recorded_apart:
  assumes "peer_step\<^sup>*\<^sup>* (NewPeerState peer) ps" "PeerState_setHasVote h r t k ps = Some ps'"
  shows "(\<forall>h' r' t'. (h', r', t') \<noteq> (h, r, t) \<longrightarrow>
      array_at (PeerState_getVoteBitArray h' r' t' ps') ps' = array_at (PeerState_getVoteBitArray h' r' t' ps) ps) \<and>
    (\<forall>a. array_at (PeerState_getVoteBitArray h r t ps) ps = Some a \<and> ba_wf a \<and> unat k < unat (Bits a) \<longrightarrow>
      (\<exists>a'. array_at (PeerState_getVoteBitArray h r t ps') ps' = Some a' \<and> (\<forall>i. ba_bit a' i \<longleftrightarrow> i = unat k \<or> ba_bit a i)))"
proof (intro conjI allI impI)
  show "array_at (PeerState_getVoteBitArray h' r' t' ps') ps' = array_at (PeerState_getVoteBitArray h' r' t' ps) ps"
    if "(h', r', t') \<noteq> (h, r, t)" for h' r' t'
    by (rule setHasVote_apart_frame [OF pst.invar_reach [OF assms(1) apart_NewPeerState] assms(2) that])
  fix a
  assume a: "array_at (PeerState_getVoteBitArray h r t ps) ps = Some a \<and> ba_wf a \<and> unat k < unat (Bits a)"
  then obtain q where q: "PeerState_getVoteBitArray h r t ps = Some q" by (auto simp: array_at_def split: option.splits)
  with a have qa: "array_at (Some q) ps = Some a" "ba_wf a" by simp_all
  obtain ps2 a' where b: "set_bit_of (Some q) k ps = Some ps2" "PRS ps2 = PRS ps" "array_at (Some q) ps2 = Some a'"
    "\<And>i. ba_bit a' i \<longleftrightarrow> i = unat k \<and> unat k < unat (Bits a) \<or> ba_bit a i"
    by (rule set_bit_of_content [OF qa, of k], rule that; assumption)
  have e: "ps2 = ps'" using assms(2) b(1) q by (simp add: PeerState_setHasVote_def)
  have "PeerState_getVoteBitArray h r t ps' = Some q" using getVoteBitArray_PRS [of ps' ps] b(2) q e by simp
  then show "\<exists>a'. array_at (PeerState_getVoteBitArray h r t ps') ps' = Some a' \<and> (\<forall>i. ba_bit a' i \<longleftrightarrow> i = unat k \<or> ba_bit a i)"
    using b(3,4) a unfolding e by auto
qed

definition demo_voted :: PeerState where
  "demo_voted = PeerState_EnsureVoteBitArrays 1 1 demo_peer"

lemma demo_voted_reach: "peer_step\<^sup>*\<^sup>* (NewPeerState ''p'') demo_voted"
  unfolding demo_voted_def using demo_peer_step by (rule rtranclp.rtrancl_into_rtrancl) (rule peer_ensure)

theorem votes_recorded_apart_witness:
  "\<exists>ps' a. PeerState_setHasVote 1 0 VoteTypePrevote 0 demo_voted = Some ps' \<and>
     array_at (PeerState_getVoteBitArray 1 0 VoteTypePrecommit ps') ps' = Some \<lparr>Bits = 1, Elems = [0]\<rparr> \<and>
     array_at (PeerState_getVoteBitArray 1 0 VoteTypePrevote ps') ps' = Some a \<and> ba_bit a 0"
proof -
  have "PeerState_setHasVote 1 0 VoteTypePrevote 0 demo_voted \<noteq> None" by code_simp
  then obtain ps' where "PeerState_setHasVote 1 0 VoteTypePrevote 0 demo_voted = Some ps'" by blast
  moreover have "array_at (PeerState_getVoteBitArray 1 0 VoteTypePrevote demo_voted) demo_voted = Some \<lparr>Bits = 1, Elems = [0]\<rparr>"
    "array_at (PeerState_getVoteBitArray 1 0 VoteTypePrecommit demo_voted) demo_voted = Some \<lparr>Bits = 1, Elems = [0]\<rparr>" by code_simp+
  ultimately show ?thesis using votes_recorded_apart [OF demo_voted_reach, of 1 0 VoteTypePrevote 0 ps']
    by (auto simp: ba_wf_def)
qed

lemma CompareHRS_less:
  "CompareHRS h1 r1 s1 h2 r2 s2 < 0 \<longleftrightarrow> h1 < h2 \<or> h1 = h2 \<and> (r1 < r2 \<or> r1 = r2 \<and> s1 < s2)"
  by (auto simp: CompareHRS_def)

text \<open>
  C12: the place of a peer does not go back. No sequence of operations takes the recorded height, round and step of a
  peer back in the order of \<open>CompareHRS\<close>; the start, with its round of all ones, is no exception.
\<close>

theorem peer_place_monotone:
  assumes "peer_step\<^sup>*\<^sup>* ps ps'"
  shows "CompareHRS (prs_Height (PRS ps)) (prs_Round (PRS ps)) (prs_Step (PRS ps))
    (prs_Height (PRS ps')) (prs_Round (PRS ps')) (prs_Step (PRS ps')) \<le> 0"
  using assms
proof (induction rule: rtranclp_induct)
  case base
  then show ?case by (simp add: CompareHRS_le)
next
  case (step y z)
  from peer_step_hrs [OF step.hyps(2)] step.IH show ?case
    by (auto simp: hrs_def CompareHRS_le CompareHRS_less)
qed

theorem peer_place_monotone_witness:
  "CompareHRS 0 (- 1) 0 1 0 RoundStepPrevote \<le> 0 \<and> PRS demo_peer \<noteq> PRS (NewPeerState ''p'')"
  using peer_place_monotone [OF demo_peer_step] by (simp add: demo_peer_PRS) (simp add: NewPeerState_def)

section \<open>Gossip\<close>










section \<open>Panics\<close>

text \<open>
  A claim about votes can make the handler panic. For a set of votes that both know and the node's own votes of the same
  size, the handler of \<open>VoteSetBits\<close> panics exactly when the array that the peer sends has fewer words than the recorded one.
\<close>

theorem VoteSetBits_panics_iff:
  assumes "array_at (PeerState_getVoteBitArray (vsb_Height msg) (to_int (vsb_Round msg)) (vsb_Type msg) ps) ps = Some a"
    and "vsb_Votes msg = Some v" "ba_wf a" "ba_wf b" "ba_wf v" "Bits b = Bits a"
  shows "PeerState_ApplyVoteSetBitsMessage msg (Some b) ps = None \<longleftrightarrow> length (Elems v) < length (Elems a)"
proof -
  obtain r where r: "PeerState_getVoteBitArray (vsb_Height msg) (to_int (vsb_Round msg)) (vsb_Type msg) ps = Some r"
    using assms(1) by (cases "PeerState_getVoteBitArray (vsb_Height msg) (to_int (vsb_Round msg)) (vsb_Type msg) ps") auto
  have n: "ba_wf (BitArray_not b)" "Bits (BitArray_not b) = Bits b" by (rule not_content [OF assms(4)])+
  obtain c where c: "BitArray_and a (BitArray_not b) = Some c" "ba_wf c" "unat (Bits c) = min (unat (Bits a)) (unat (Bits (BitArray_not b)))"
    by (rule and_content [OF assms(3) n(1)], rule that; assumption)
  have "length (Elems c) = length (Elems a)" using c(2,3) n(2) assms(3,6) by (simp add: ba_wf_def)
  moreover have "BitArray_Sub (Some a) (Some b) = Some (Some c)" using assms(6) by (simp add: BitArray_Sub_def c(1))
  ultimately show ?thesis
    using assms(1,2) Or_None_iff [OF c(2) assms(5)]
    by (simp add: PeerState_ApplyVoteSetBitsMessage_def r Let_def) (auto split: option.splits)
qed

definition demo_wide :: PeerState where
  "demo_wide = PeerState_EnsureVoteBitArrays 1 65 demo_peer"

theorem VoteSetBits_panics_iff_witness:
  "PeerState_ApplyVoteSetBitsMessage
     \<lparr>vsb_Height = 1, vsb_Round = 0, vsb_Type = VoteTypePrevote, vsb_BlockID = zero_BlockID, vsb_Votes = Some \<lparr>Bits = 1, Elems = [1]\<rparr>\<rparr>
     (Some \<lparr>Bits = 65, Elems = [0, 0]\<rparr>) demo_wide = None"
proof -
  have "array_at (PeerState_getVoteBitArray 1 (to_int 0) VoteTypePrevote demo_wide) demo_wide = Some \<lparr>Bits = 65, Elems = [0, 0]\<rparr>" by code_simp
  then show ?thesis
    using VoteSetBits_panics_iff [of "\<lparr>vsb_Height = 1, vsb_Round = 0, vsb_Type = VoteTypePrevote, vsb_BlockID = zero_BlockID,
      vsb_Votes = Some \<lparr>Bits = 1, Elems = [1]\<rparr>\<rparr>" demo_wide "\<lparr>Bits = 65, Elems = [0, 0]\<rparr>" "\<lparr>Bits = 1, Elems = [1]\<rparr>" "\<lparr>Bits = 65, Elems = [0, 0]\<rparr>"]
    by (simp add: ba_wf_def)
qed

text \<open>When a peer moves to the next height, nothing is kept of the precommits that it was known to have.\<close>

lemma last_commit_forgotten:
  assumes "prs_Height (PRS ps) < nrs_Height msg"
  shows "prs_LastCommit (PRS (PeerState_ApplyNewRoundStepMessage now msg ps)) = None"
  by (cases rule: ApplyNewRoundStepMessage_cases [of msg ps now]) (use assms in \<open>auto simp: CompareHRS_le\<close>)

text \<open>A message that names no part, vote or proposal makes the handler panic.\<close>

lemma nil_payload_panics:
  assumes "\<not> ConsensusReactor_FastSync conR"
  shows "receive_data src (Wire_BlockPart h r None) ps conR = None" "receive_data src (Wire_Proposal None) ps conR = None"
    "receive_vote src (Wire_Vote None) ps conR = None"
  using assms by (auto simp: receive_data_def receive_vote_def PeerState_SetHasProposal_def PeerState_SetHasVote_def Let_def
      bind_eq_None_conv)

end
