(* ===== verification/Ticker.thy ===== *)
theory Ticker
  imports Consensus_State "HOL-Library.Multiset"
begin

text \<open>
  The timers of the consensus state, \<^verbatim>\<open>consensus/tbft/ticker.go\<close>. A ticker is the state of its routine, the
  timer of the Go runtime and two buffered channels. Each turn of the routine is a function on that
  state, and a run is a sequence of steps of the routine, of the timer, of the goroutines that pass a
  timeout on, and of the consensus state that schedules timeouts and receives them. The log of a run
  records what was requested, what the routine has read, what has fired and what was delivered.
\<close>

section \<open>The ticker\<close>

abbreviation tickTockBufferSize :: nat where "tickTockBufferSize \<equiv> 10"

text \<open>A timer that has expired holds a value in its channel until it is read.\<close>

datatype timer = TimerStopped | TimerRunning | TimerExpired

record timeoutTicker =
  tk_timer :: timer
  tk_tickChan :: "timeoutInfo list"
  tk_tockChan :: "timeoutInfo list"
  tk_ti :: timeoutInfo
  tk_sending :: "timeoutInfo list"

definition zero_timeout :: timeoutInfo where
  "zero_timeout = \<lparr>ti_Duration = 0, ti_Height = 0, ti_Round = 0, ti_Step = 0, ti_Wait = 0\<rparr>"

definition timeoutTicker_stopTimer :: "timeoutTicker \<Rightarrow> timeoutTicker" where
  "timeoutTicker_stopTimer t =
     (case tk_timer t of
        TimerRunning \<Rightarrow> t\<lparr>tk_timer := TimerStopped\<rparr>
      | TimerExpired \<Rightarrow> t\<lparr>tk_timer := TimerStopped\<rparr>
      | TimerStopped \<Rightarrow> t)"

definition NewTimeoutTicker :: timeoutTicker where
  "NewTimeoutTicker = timeoutTicker_stopTimer
     \<lparr>tk_timer = TimerRunning, tk_tickChan = [], tk_tockChan = [], tk_ti = zero_timeout, tk_sending = []\<rparr>"

definition timeoutTicker_ScheduleTimeout :: "timeoutInfo \<Rightarrow> timeoutTicker \<Rightarrow> timeoutTicker" where
  "timeoutTicker_ScheduleTimeout ti t =
     (if length (tk_tickChan t) < tickTockBufferSize then t\<lparr>tk_tickChan := tk_tickChan t @ [ti]\<rparr> else t)"

text \<open>The requests that the routine ignores.\<close>

definition old_tick :: "timeoutInfo \<Rightarrow> timeoutInfo \<Rightarrow> bool" where
  "old_tick newti ti =
     (if ti_Wait newti = 1 then
        if ti_Height newti < ti_Height ti then True
        else if ti_Height newti = ti_Height ti then
          if ti_Round newti < ti_Round ti then True
          else if ti_Round newti = ti_Round ti then ti_Step ti > 0 \<and> ti_Step newti \<le> ti_Step ti
          else False
        else False
      else False)"

definition timeoutRoutine_tick :: "timeoutInfo \<Rightarrow> timeoutTicker \<Rightarrow> timeoutTicker" where
  "timeoutRoutine_tick newti t =
     (if old_tick newti (tk_ti t) then t
      else (timeoutTicker_stopTimer t)\<lparr>tk_ti := newti, tk_timer := TimerRunning\<rparr>)"

definition timeoutRoutine_fire :: "timeoutTicker \<Rightarrow> timeoutTicker" where
  "timeoutRoutine_fire t = t\<lparr>tk_timer := TimerStopped, tk_sending := tk_sending t @ [tk_ti t]\<rparr>"

section \<open>Runs\<close>

record ticker_log =
  lg_requested :: "timeoutInfo list"
  lg_read :: "timeoutInfo list"
  lg_fired :: "timeoutInfo list"
  lg_delivered :: "timeoutInfo list"

definition empty_log :: ticker_log where
  "empty_log = \<lparr>lg_requested = [], lg_read = [], lg_fired = [], lg_delivered = []\<rparr>"

inductive ticker_step :: "timeoutTicker \<times> ticker_log \<Rightarrow> timeoutTicker \<times> ticker_log \<Rightarrow> bool" where
  tk_schedule: "ticker_step (t, l) (timeoutTicker_ScheduleTimeout ti t, l\<lparr>lg_requested := lg_requested l @ [ti]\<rparr>)"
| tk_tick: "tk_tickChan t = ti # rest \<Longrightarrow>
    ticker_step (t, l) (timeoutRoutine_tick ti (t\<lparr>tk_tickChan := rest\<rparr>), l\<lparr>lg_read := lg_read l @ [ti]\<rparr>)"
| tk_expire: "tk_timer t = TimerRunning \<Longrightarrow> ticker_step (t, l) (t\<lparr>tk_timer := TimerExpired\<rparr>, l)"
| tk_fire: "tk_timer t = TimerExpired \<Longrightarrow> ticker_step (t, l) (timeoutRoutine_fire t, l\<lparr>lg_fired := lg_fired l @ [tk_ti t]\<rparr>)"
| tk_send: "ti \<in> set (tk_sending t) \<Longrightarrow> length (tk_tockChan t) < tickTockBufferSize \<Longrightarrow>
    ticker_step (t, l) (t\<lparr>tk_sending := remove1 ti (tk_sending t), tk_tockChan := tk_tockChan t @ [ti]\<rparr>, l)"
| tk_deliver: "tk_tockChan t = ti # rest \<Longrightarrow>
    ticker_step (t, l) (t\<lparr>tk_tockChan := rest\<rparr>, l\<lparr>lg_delivered := lg_delivered l @ [ti]\<rparr>)"

inductive_cases ticker_stepE: "ticker_step s s'"

text \<open>The order of the code on timeouts.\<close>

definition hrs_less :: "timeoutInfo \<Rightarrow> timeoutInfo \<Rightarrow> bool" where
  "hrs_less a b \<longleftrightarrow> CompareHRS (ti_Height a) (ti_Round a) (ti_Step a) (ti_Height b) (ti_Round b) (ti_Step b) < 0"

definition hrs_leq :: "timeoutInfo \<Rightarrow> timeoutInfo \<Rightarrow> bool" where
  "hrs_leq a b \<longleftrightarrow> CompareHRS (ti_Height a) (ti_Round a) (ti_Step a) (ti_Height b) (ti_Round b) (ti_Step b) \<le> 0"

lemma hrs_less_iff:
  "hrs_less a b \<longleftrightarrow> ti_Height a < ti_Height b \<or> ti_Height a = ti_Height b \<and>
     (ti_Round a < ti_Round b \<or> ti_Round a = ti_Round b \<and> ti_Step a < ti_Step b)"
  by (auto simp: hrs_less_def CompareHRS_def)

lemma hrs_leq_iff:
  "hrs_leq a b \<longleftrightarrow> ti_Height a < ti_Height b \<or> ti_Height a = ti_Height b \<and>
     (ti_Round a < ti_Round b \<or> ti_Round a = ti_Round b \<and> ti_Step a \<le> ti_Step b)"
  by (auto simp: hrs_leq_def CompareHRS_def)

lemma hrs_order:
  "hrs_leq a a" "hrs_less a b \<Longrightarrow> hrs_leq a b" "hrs_leq a b \<Longrightarrow> hrs_leq b c \<Longrightarrow> hrs_leq a c" "hrs_leq a b \<Longrightarrow> hrs_less b c \<Longrightarrow> hrs_less a c"
  by (auto simp: hrs_less_iff hrs_leq_iff)

text \<open>On the requests of the first kind the routine keeps the later one.\<close>

definition first_wait :: "timeoutInfo \<Rightarrow> bool" where
  "first_wait ti \<longleftrightarrow> ti_Wait ti = 1 \<and> 0 < ti_Step ti"

lemma old_tick_iff:
  "first_wait newti \<Longrightarrow> old_tick newti ti \<longleftrightarrow> hrs_leq newti ti"
  by (cases "ti_Step ti = 0") (auto simp: old_tick_def first_wait_def hrs_leq_iff word_gt_0 split: if_splits)

lemma not_hrs_leq: "\<not> hrs_leq a b \<longleftrightarrow> hrs_less b a"
  by (auto simp: hrs_less_iff hrs_leq_iff)

section \<open>The invariant\<close>

definition timeouts_kept :: "timeoutTicker \<times> ticker_log \<Rightarrow> bool" where
  "timeouts_kept s \<longleftrightarrow> (case s of (t, l) \<Rightarrow>
     set (lg_read l) \<union> set (tk_tickChan t) \<subseteq> set (lg_requested l) \<and>
     set (lg_fired l) \<subseteq> set (lg_read l) \<and>
     (tk_timer t \<noteq> TimerStopped \<longrightarrow> tk_ti t \<in> set (lg_read l)) \<and>
     mset (lg_fired l) = mset (lg_delivered l) + mset (tk_tockChan t) + mset (tk_sending t))"

definition latest_kept :: "timeoutTicker \<times> ticker_log \<Rightarrow> bool" where
  "latest_kept s \<longleftrightarrow> (case s of (t, l) \<Rightarrow>
     list_all first_wait (lg_requested l) \<longrightarrow>
       (\<forall>q \<in> set (lg_read l). hrs_leq q (tk_ti t)) \<and>
       (\<forall>q \<in> set (lg_fired l). hrs_leq q (tk_ti t) \<and> (tk_timer t \<noteq> TimerStopped \<longrightarrow> hrs_less q (tk_ti t))) \<and>
       sorted_wrt hrs_less (lg_fired l))"

lemma ScheduleTimeout_ticks: "set (tk_tickChan (timeoutTicker_ScheduleTimeout ti t)) \<subseteq> insert ti (set (tk_tickChan t))"
  by (auto simp: timeoutTicker_ScheduleTimeout_def)

lemma ScheduleTimeout_fields [simp]:
  "tk_timer (timeoutTicker_ScheduleTimeout ti t) = tk_timer t" "tk_ti (timeoutTicker_ScheduleTimeout ti t) = tk_ti t"
  "tk_tockChan (timeoutTicker_ScheduleTimeout ti t) = tk_tockChan t" "tk_sending (timeoutTicker_ScheduleTimeout ti t) = tk_sending t"
  by (auto simp: timeoutTicker_ScheduleTimeout_def)

lemma tick_fields [simp]:
  "tk_tickChan (timeoutRoutine_tick ti t) = tk_tickChan t" "tk_tockChan (timeoutRoutine_tick ti t) = tk_tockChan t"
  "tk_sending (timeoutRoutine_tick ti t) = tk_sending t"
  "tk_ti (timeoutRoutine_tick ti t) = (if old_tick ti (tk_ti t) then tk_ti t else ti)"
  "tk_timer (timeoutRoutine_tick ti t) = (if old_tick ti (tk_ti t) then tk_timer t else TimerRunning)"
  by (simp_all add: timeoutRoutine_tick_def timeoutTicker_stopTimer_def split: timer.splits)

lemma fire_fields [simp]:
  "tk_tickChan (timeoutRoutine_fire t) = tk_tickChan t" "tk_tockChan (timeoutRoutine_fire t) = tk_tockChan t"
  "tk_sending (timeoutRoutine_fire t) = tk_sending t @ [tk_ti t]" "tk_ti (timeoutRoutine_fire t) = tk_ti t"
  "tk_timer (timeoutRoutine_fire t) = TimerStopped"
  by (simp_all add: timeoutRoutine_fire_def)

lemma timeouts_kept_step:
  assumes "timeouts_kept s" "ticker_step s s'"
  shows "timeouts_kept s'"
  using assms(2)
proof cases
  case (tk_schedule t l ti)
  then show ?thesis using assms(1) ScheduleTimeout_ticks [of ti t] by (auto simp: timeouts_kept_def)
qed (use assms(1) in \<open>auto simp: timeouts_kept_def\<close>)

lemma latest_kept_step:
  assumes "timeouts_kept s" "latest_kept s" "ticker_step s s'"
  shows "latest_kept s'"
  using assms(3)
proof cases
  case (tk_tick t ti rest l)
  show ?thesis
  proof (cases "list_all first_wait (lg_requested l)")
    case True
    then have f: "first_wait ti" using assms(1) tk_tick by (auto simp: timeouts_kept_def list_all_iff)
    then show ?thesis
      using assms(2) tk_tick True old_tick_iff [OF f, of "tk_ti t"] not_hrs_leq [of ti "tk_ti t"]
      by (auto simp: latest_kept_def hrs_order(1) intro: hrs_order)
  qed (use tk_tick in \<open>simp add: latest_kept_def\<close>)
next
  case (tk_fire t l)
  then show ?thesis using assms(2) by (auto simp: latest_kept_def sorted_wrt_append hrs_order(1))
qed (use assms(2) in \<open>auto simp: latest_kept_def\<close>)

interpretation tki: invariant_system ticker_step "\<lambda>s. timeouts_kept s \<and> latest_kept s"
  by unfold_locales (blast intro: timeouts_kept_step latest_kept_step)

section \<open>Properties\<close>

text \<open>
  C20: the ticker follows the latest step. Whatever is scheduled, every timeout that fires was requested,
  and each firing is delivered at most once. When all requests are of the kind that the handlers make
  outside of the wait for transactions, the routine holds the latest height, round and step of those
  it has read, and the timeouts that fire are strictly increasing: no step fires twice, and none
  after a later one.
\<close>

theorem ticker_follows_latest:
  assumes "ticker_step\<^sup>*\<^sup>* (NewTimeoutTicker, empty_log) (t, l)"
  shows "set (lg_fired l) \<subseteq> set (lg_requested l) \<and> mset (lg_delivered l) \<subseteq># mset (lg_fired l) \<and>
    (list_all (\<lambda>ti. ti_Wait ti = 1 \<and> 0 < ti_Step ti) (lg_requested l) \<longrightarrow>
      (\<forall>q \<in> set (lg_read l).
         CompareHRS (ti_Height q) (ti_Round q) (ti_Step q) (ti_Height (tk_ti t)) (ti_Round (tk_ti t)) (ti_Step (tk_ti t)) \<le> 0) \<and>
      sorted_wrt (\<lambda>a b. CompareHRS (ti_Height a) (ti_Round a) (ti_Step a) (ti_Height b) (ti_Round b) (ti_Step b) < 0) (lg_fired l))"
proof -
  have "timeouts_kept (t, l) \<and> latest_kept (t, l)"
    by (rule tki.invar_reach [OF assms])
      (simp add: timeouts_kept_def latest_kept_def empty_log_def NewTimeoutTicker_def timeoutTicker_stopTimer_def)
  then show ?thesis
    unfolding timeouts_kept_def latest_kept_def prod.case first_wait_def [abs_def] hrs_leq_def hrs_less_def [abs_def] by auto
qed

definition demo_timeout :: "RoundStepType \<Rightarrow> timeoutInfo" where
  "demo_timeout s = \<lparr>ti_Duration = 1, ti_Height = 1, ti_Round = 0, ti_Step = s, ti_Wait = 1\<rparr>"

text \<open>A late step is scheduled, then an early one, which is ignored, and the late one fires.\<close>

theorem ticker_follows_latest_witness:
  "\<exists>t l. ticker_step\<^sup>*\<^sup>* (NewTimeoutTicker, empty_log) (t, l) \<and>
     lg_read l = [demo_timeout RoundStepPrevoteWait, demo_timeout RoundStepPropose] \<and>
     lg_fired l = [demo_timeout RoundStepPrevoteWait] \<and>
     (\<forall>q \<in> set (lg_read l). CompareHRS (ti_Height q) (ti_Round q) (ti_Step q) (ti_Height (tk_ti t)) (ti_Round (tk_ti t)) (ti_Step (tk_ti t)) \<le> 0)"
proof -
  let ?a = "demo_timeout RoundStepPrevoteWait" and ?b = "demo_timeout RoundStepPropose"
  let ?s = "\<lambda>x cs ti ds. \<lparr>tk_timer = x, tk_tickChan = cs, tk_tockChan = [], tk_ti = ti, tk_sending = ds\<rparr>"
  let ?l = "\<lambda>qs rs fs. \<lparr>lg_requested = qs, lg_read = rs, lg_fired = fs, lg_delivered = []\<rparr>"
  note tk = timeoutTicker_ScheduleTimeout_def timeoutRoutine_tick_def timeoutRoutine_fire_def timeoutTicker_stopTimer_def old_tick_def demo_timeout_def
    zero_timeout_def
  have 0: "(NewTimeoutTicker, empty_log) = (?s TimerStopped [] zero_timeout [], ?l [] [] [])"
    by (simp add: NewTimeoutTicker_def empty_log_def timeoutTicker_stopTimer_def)
  have "ticker_step (?s TimerStopped [] zero_timeout [], ?l [] [] []) (?s TimerStopped [?a] zero_timeout [], ?l [?a] [] [])"
    using tk_schedule [of "?s TimerStopped [] zero_timeout []" "?l [] [] []" ?a] by (simp add: tk)
  moreover have "ticker_step (?s TimerStopped [?a] zero_timeout [], ?l [?a] [] []) (?s TimerRunning [] ?a [], ?l [?a] [?a] [])"
    using tk_tick [of "?s TimerStopped [?a] zero_timeout []" ?a "[]" "?l [?a] [] []"] by (simp add: tk)
  moreover have "ticker_step (?s TimerRunning [] ?a [], ?l [?a] [?a] []) (?s TimerRunning [?b] ?a [], ?l [?a, ?b] [?a] [])"
    using tk_schedule [of "?s TimerRunning [] ?a []" "?l [?a] [?a] []" ?b] by (simp add: tk)
  moreover have "ticker_step (?s TimerRunning [?b] ?a [], ?l [?a, ?b] [?a] []) (?s TimerRunning [] ?a [], ?l [?a, ?b] [?a, ?b] [])"
    using tk_tick [of "?s TimerRunning [?b] ?a []" ?b "[]" "?l [?a, ?b] [?a] []"] by (simp add: tk)
  moreover have "ticker_step (?s TimerRunning [] ?a [], ?l [?a, ?b] [?a, ?b] []) (?s TimerExpired [] ?a [], ?l [?a, ?b] [?a, ?b] [])"
    using tk_expire [of "?s TimerRunning [] ?a []" "?l [?a, ?b] [?a, ?b] []"] by simp
  moreover have "ticker_step (?s TimerExpired [] ?a [], ?l [?a, ?b] [?a, ?b] []) (?s TimerStopped [] ?a [?a], ?l [?a, ?b] [?a, ?b] [?a])"
    using tk_fire [of "?s TimerExpired [] ?a []" "?l [?a, ?b] [?a, ?b] []"] by (simp add: tk)
  ultimately have r: "ticker_step\<^sup>*\<^sup>* (NewTimeoutTicker, empty_log) (?s TimerStopped [] ?a [?a], ?l [?a, ?b] [?a, ?b] [?a])"
    unfolding 0 by (meson converse_rtranclp_into_rtranclp rtranclp.rtrancl_refl)
  have "list_all (\<lambda>ti. ti_Wait ti = 1 \<and> 0 < ti_Step ti) [?a, ?b]" by (simp add: demo_timeout_def)
  with ticker_follows_latest [OF r] r show ?thesis
    by (intro exI [of _ "?s TimerStopped [] ?a [?a]"] exI [of _ "?l [?a, ?b] [?a, ?b] [?a]"]) simp
qed

end
